(* ===== verification/Prelude.thy ===== *)
theory Prelude
  imports
    Main
    "HOL-Library.Word"
begin

text \<open>
  What every component of the development shares: the names of the machine types,
  Rust's checked and saturating arithmetic on words, counters kept in hash maps,
  association lists over maps, and the interface of a table of counted locks.

  Conventions of the whole development. A Rust \<open>u64\<close> (\<open>u32\<close>, \<open>u16\<close>, \<open>u8\<close>) is a word of
  that width, so \<open>+\<close> and \<open>-\<close> wrap around as they do in the release profile of the
  workspace. A \<open>Pubkey\<close> and a \<open>Hash\<close> are 32 bytes compared byte by byte, that is a 256-bit
  word with its numeric order. A \<open>HashMap\<close> is a map, \<open>Result<T, E>\<close> is \<open>'e + 't\<close>, and a
  function that may panic returns an \<open>option\<close> whose \<open>None\<close> is the panic.
\<close>

type_synonym u8 = "8 word"
type_synonym u16 = "16 word"
type_synonym u32 = "32 word"
type_synonym u64 = "64 word"
type_synonym pubkey = "256 word"
type_synonym hash = "256 word"
type_synonym slot = u64
type_synonym epoch = u64
type_synonym ('e, 'a) result = "'e + 'a"

named_theorems arith_unat \<open>word arithmetic moved to the natural numbers\<close>

section \<open>Saturating and checked arithmetic\<close>

definition sat_add :: "'a::len word \<Rightarrow> 'a word \<Rightarrow> 'a word" where
  "sat_add a b = (if unat a + unat b < 2 ^ LENGTH('a) then a + b else - 1)"

definition sat_sub :: "'a::len word \<Rightarrow> 'a word \<Rightarrow> 'a word" where
  "sat_sub a b = (if b \<le> a then a - b else 0)"

definition sat_mul :: "'a::len word \<Rightarrow> 'a word \<Rightarrow> 'a word" where
  "sat_mul a b = (if unat a * unat b < 2 ^ LENGTH('a) then a * b else - 1)"

definition checked_add :: "'a::len word \<Rightarrow> 'a word \<Rightarrow> 'a word option" where
  "checked_add a b = (if unat a + unat b < 2 ^ LENGTH('a) then Some (a + b) else None)"

definition checked_sub :: "'a::len word \<Rightarrow> 'a word \<Rightarrow> 'a word option" where
  "checked_sub a b = (if b \<le> a then Some (a - b) else None)"

lemma unat_max_word [arith_unat]: "unat (- 1 :: 'a::len word) = 2 ^ LENGTH('a) - 1"
  by (simp add: unsigned_minus_1_eq_mask mask_eq_exp_minus_1)

lemma unat_lt2p: "unat (w :: 'a::len word) < 2 ^ LENGTH('a)"
  by (rule unsigned_less)

lemma unat_add_no_wrap:
  "unat a + unat b < 2 ^ LENGTH('a) \<Longrightarrow> unat (a + b) = unat a + unat (b :: 'a::len word)"
  by (simp add: unat_word_ariths)

lemma unat_sat_add [arith_unat]:
  "unat (sat_add a b) = min (unat a + unat b) (2 ^ LENGTH('a) - 1)" for a b :: "'a::len word"
  by (auto simp: sat_add_def unat_add_no_wrap unat_max_word)

lemma unat_sat_sub [arith_unat]: "unat (sat_sub a b) = unat a - unat b"
  by (auto simp: sat_sub_def unat_sub word_le_nat_alt)

lemma unat_sat_mul [arith_unat]:
  "unat (sat_mul a b) = min (unat a * unat b) (2 ^ LENGTH('a) - 1)" for a b :: "'a::len word"
  by (auto simp: sat_mul_def unat_word_ariths unat_max_word)

lemma checked_add_eq_Some [simp]:
  "checked_add a b = Some c \<longleftrightarrow> unat c = unat a + unat b" for a b c :: "'a::len word"
proof
  assume "checked_add a b = Some c"
  then show "unat c = unat a + unat b"
    by (auto simp: checked_add_def unat_add_no_wrap split: if_splits)
next
  assume c: "unat c = unat a + unat b"
  then have lt: "unat a + unat b < 2 ^ LENGTH('a)"
    using unat_lt2p [of c] by simp
  with c have "a + b = c"
    by (metis unat_add_no_wrap word_unat_eq_iff)
  with lt show "checked_add a b = Some c"
    by (simp add: checked_add_def)
qed

lemma checked_sub_eq_Some [simp]:
  "checked_sub a b = Some c \<longleftrightarrow> unat a = unat b + unat c" for a b c :: "'a::len word"
proof
  assume "checked_sub a b = Some c"
  then show "unat a = unat b + unat c"
    by (auto simp: checked_sub_def unat_sub word_le_nat_alt split: if_splits)
next
  assume a: "unat a = unat b + unat c"
  then have "b \<le> a" by (simp add: word_le_nat_alt)
  moreover from this a have "a - b = c"
    by (simp add: word_unat_eq_iff unat_sub)
  ultimately show "checked_sub a b = Some c"
    by (simp add: checked_sub_def)
qed

lemma sat_add_le_iff:
  "unat (sat_add a b) \<le> unat c \<longleftrightarrow> unat a + unat b \<le> unat c \<or> c = - 1"
  for a b c :: "'a::len word"
proof -
  have "unat c \<le> 2 ^ LENGTH('a) - 1"
    using unat_lt2p [of c] by linarith
  moreover have "c = - 1 \<longleftrightarrow> unat c = 2 ^ LENGTH('a) - 1"
    by (simp add: word_unat_eq_iff unat_max_word)
  ultimately show ?thesis
    by (auto simp: unat_sat_add min_le_iff_disj)
qed

section \<open>Counters in hash maps\<close>

text \<open>
  \<open>*map.entry(k).or_default() += 1\<close>, and the reading of a counter where a missing entry
  counts as zero.
\<close>

definition entry_or_default :: "('k \<rightharpoonup> 'v) \<Rightarrow> 'v \<Rightarrow> 'k \<Rightarrow> 'v" where
  "entry_or_default m d k = (case m k of None \<Rightarrow> d | Some v \<Rightarrow> v)"

definition entry_incr :: "('k \<rightharpoonup> u64) \<Rightarrow> 'k \<Rightarrow> ('k \<rightharpoonup> u64)" where
  "entry_incr m k = m(k \<mapsto> entry_or_default m 0 k + 1)"

definition entry_count :: "('k \<rightharpoonup> u64) \<Rightarrow> 'k \<Rightarrow> nat" where
  "entry_count m k = unat (entry_or_default m 0 k)"

definition no_zero_entries :: "('k \<rightharpoonup> u64) \<Rightarrow> bool" where
  "no_zero_entries m \<longleftrightarrow> (\<forall>k. m k \<noteq> Some 0)"

lemma entry_or_default_upd:
  "entry_or_default (m(k \<mapsto> v)) d j = (if j = k then v else entry_or_default m d j)"
  by (simp add: entry_or_default_def)

lemma entry_count_incr:
  "entry_count m k + 1 < 2 ^ 64 \<Longrightarrow>
   entry_count (entry_incr m k) j = entry_count m j + (if j = k then 1 else 0)"
  by (auto simp: entry_count_def entry_incr_def entry_or_default_def unat_word_ariths
      split: option.splits)

lemma no_zero_entries_incr:
  assumes "no_zero_entries m" and "entry_count m k + 1 < 2 ^ 64"
  shows "no_zero_entries (entry_incr m k)"
proof -
  have "unat (entry_or_default m 0 k + 1) = entry_count m k + 1"
    using assms(2) by (simp add: entry_count_def unat_word_ariths)
  then have "entry_or_default m 0 k + 1 \<noteq> 0" by auto
  with assms(1) show ?thesis
    by (auto simp: no_zero_entries_def entry_incr_def)
qed

lemma entry_count_pos_iff: "no_zero_entries m \<Longrightarrow> 0 < entry_count m k \<longleftrightarrow> k \<in> dom m"
  by (auto simp: entry_count_def entry_or_default_def no_zero_entries_def unat_gt_0
      split: option.splits)

lemma entry_count_inject:
  assumes "no_zero_entries m" "no_zero_entries m'" and eq: "\<And>k. entry_count m k = entry_count m' k"
  shows "m = m'"
proof
  fix k
  show "m k = m' k"
    using assms(1,2) eq [of k]
    by (cases "m k"; cases "m' k")
      (auto simp: entry_count_def entry_or_default_def no_zero_entries_def
        word_unat_eq_iff [symmetric] unat_0_iff)
qed

section \<open>Association lists over maps\<close>

lemma map_of_map_fst_snd: "map_of (map (\<lambda>x. (f x, g x)) xs) k = map_option g (find (\<lambda>x. f x = k) xs)"
  by (induction xs) auto

lemma count_list_filter: "count_list (filter P xs) x = (if P x then count_list xs x else 0)"
  by (induction xs) auto

lemma count_list_0_iff_prelude: "count_list xs x = 0 \<longleftrightarrow> x \<notin> set xs"
  by (induction xs) auto

lemma length_filter_eq_iff: "length (filter P xs) = length xs \<longleftrightarrow> (\<forall>x \<in> set xs. P x)"
proof
  assume eq: "length (filter P xs) = length xs"
  show "\<forall>x \<in> set xs. P x"
  proof (rule ccontr)
    assume "\<not> (\<forall>x \<in> set xs. P x)"
    then obtain x where "x \<in> set xs" "\<not> P x" by blast
    then have "length (filter P xs) < length xs" by (rule length_filter_less)
    with eq show False by simp
  qed
qed (simp add: filter_id_conv)

lemma distinct_singleton_iff: "distinct xs \<Longrightarrow> xs = [x] \<longleftrightarrow> set xs = {x}"
proof
  assume "distinct xs" "set xs = {x}"
  then have "length xs = 1" using distinct_card [of xs] by simp
  then show "xs = [x]" using \<open>set xs = {x}\<close> by (cases xs) auto
qed auto

lemma count_list_le_length: "count_list xs x \<le> length xs"
  by (induction xs) auto

section \<open>Tables of counted locks\<close>

text \<open>
  What a lock table promises to the code that takes and releases locks. A lock is a key
  with the flag that says whether it is held for writing; \<open>held\<close> reads how often a lock is
  held. The laws speak of one lock at a time; what they give for the locks of whole
  transactions and bundles is proved once here and used by both tables of the validator,
  \<open>AccountLocks\<close> and \<open>BundleAccountLocks\<close>.
\<close>

locale lock_table =
  fixes lock :: "'t \<Rightarrow> 'l \<Rightarrow> 't"
    and unlock :: "'t \<Rightarrow> 'l \<Rightarrow> 't"
    and held :: "'t \<Rightarrow> 'l \<Rightarrow> nat"
    and wf :: "'t \<Rightarrow> bool"
    and cap :: nat
  assumes wf_lock: "wf t \<Longrightarrow> held t a + 1 < cap \<Longrightarrow> wf (lock t a)"
    and held_lock: "wf t \<Longrightarrow> held t a + 1 < cap \<Longrightarrow>
      held (lock t a) b = held t b + (if b = a then 1 else 0)"
    and wf_unlock: "wf t \<Longrightarrow> wf (unlock t a)"
    and held_unlock: "wf t \<Longrightarrow> held (unlock t a) b = held t b - (if b = a then 1 else 0)"
    and held_inject: "wf t \<Longrightarrow> wf t' \<Longrightarrow> (\<And>a. held t a = held t' a) \<Longrightarrow> t = t'"
begin

lemma lock_all:
  "wf t \<Longrightarrow> (\<And>a. held t a + length ls < cap) \<Longrightarrow>
   wf (foldl lock t ls) \<and> held (foldl lock t ls) b = held t b + count_list ls b"
proof (induction ls arbitrary: t)
  case Nil
  then show ?case by simp
next
  case (Cons l ls)
  have room: "held t l + 1 < cap"
    using Cons.prems(2) [of l] by simp
  have "held (lock t l) a + length ls < cap" for a
    using Cons.prems(2) [of a] by (auto simp: held_lock [OF Cons.prems(1) room])
  then have "wf (foldl lock (lock t l) ls) \<and>
      held (foldl lock (lock t l) ls) b = held (lock t l) b + count_list ls b"
    by (intro Cons.IH wf_lock [OF Cons.prems(1) room])
  then show ?case
    by (simp add: held_lock [OF Cons.prems(1) room])
qed

lemma unlock_all:
  "wf t \<Longrightarrow> wf (foldl unlock t ls) \<and> held (foldl unlock t ls) b = held t b - count_list ls b"
proof (induction ls arbitrary: t)
  case Nil
  then show ?case by simp
next
  case (Cons l ls)
  have "wf (foldl unlock (unlock t l) ls) \<and>
      held (foldl unlock (unlock t l) ls) b = held (unlock t l) b - count_list ls b"
    by (intro Cons.IH wf_unlock Cons.prems)
  then show ?case
    by (simp add: held_unlock [OF Cons.prems])
qed

text \<open>Releasing what was taken, in whatever order, gives the table before.\<close>

lemma lock_unlock_all:
  assumes "wf t" and room: "\<And>a. held t a + length ls < cap"
    and perm: "\<And>a. count_list ls' a = count_list ls a"
  shows "foldl unlock (foldl lock t ls) ls' = t"
proof -
  have l: "wf (foldl lock t ls)" "\<And>b. held (foldl lock t ls) b = held t b + count_list ls b"
    using lock_all [OF assms(1) room] by auto
  then have u: "wf (foldl unlock (foldl lock t ls) ls')"
    "\<And>b. held (foldl unlock (foldl lock t ls) ls') b = held t b"
    using unlock_all [OF l(1)] by (auto simp: perm)
  show ?thesis
    by (rule held_inject [OF u(1) assms(1)]) (rule u(2))
qed

text \<open>
  Locks taken by two parties are independent: what the second party took is what is left
  when the first one releases.
\<close>

lemma lock_two_release_first:
  assumes "wf t" and room: "\<And>a. held t a + length ls + length ms < cap"
  shows "foldl unlock (foldl lock (foldl lock t ls) ms) ls = foldl lock t ms"
proof -
  have room1: "held t a + length ls < cap" "held t a + length ms < cap" for a
    using room [of a] by auto
  have l: "wf (foldl lock t ls)" "\<And>b. held (foldl lock t ls) b = held t b + count_list ls b"
    using lock_all [OF assms(1) room1(1)] by auto
  have room2: "held (foldl lock t ls) a + length ms < cap" for a
    using room [of a] count_list_le_length [of ls a] by (simp add: l(2))
  have m: "wf (foldl lock (foldl lock t ls) ms)"
    "\<And>b. held (foldl lock (foldl lock t ls) ms) b = held t b + count_list ls b + count_list ms b"
    using lock_all [OF l(1) room2] by (auto simp: l(2))
  have u: "wf (foldl unlock (foldl lock (foldl lock t ls) ms) ls)"
    "\<And>b. held (foldl unlock (foldl lock (foldl lock t ls) ms) ls) b = held t b + count_list ms b"
    using unlock_all [OF m(1)] by (auto simp: m(2))
  have v: "wf (foldl lock t ms)" "\<And>b. held (foldl lock t ms) b = held t b + count_list ms b"
    using lock_all [OF assms(1) room1(2)] by auto
  show ?thesis
    by (rule held_inject [OF u(1) v(1)]) (simp add: u(2) v(2))
qed

end

end
