(* ===== verification/Account_Locks.thy ===== *)
theory Account_Locks
  imports Prelude
begin

text \<open>
  The locks the accounts database keeps on accounts while transactions run:
  \<open>AccountLocks\<close> of accounts-db/src/account_locks.rs, and the two operations of \<open>Accounts\<close>
  (accounts-db/src/accounts.rs) that validate the keys of a batch of transactions, lock them
  and release them. The table is an instance of \<open>lock_table\<close>; the last section runs it
  under any interleaving of transactions and shows mutual exclusion.
\<close>

section \<open>Transactions, errors and the lock table\<close>

text \<open>
  What the locks read of a transaction (\<open>SVMMessage\<close>): its account keys in order and which
  of them it writes. The errors are those of \<open>TransactionError\<close> that the modelled code
  returns.
\<close>

record svm_message =
  account_keys :: "pubkey list"
  is_writable :: "nat \<Rightarrow> bool"

datatype transaction_error =
    AccountInUse
  | AccountLoadedTwice
  | TooManyAccountLocks
  | WouldExceedMaxBlockCostLimit
  | WouldExceedMaxVoteCostLimit
  | WouldExceedMaxAccountCostLimit
  | WouldExceedAccountDataBlockLimit
  | WouldExceedAccountDataTotalLimit

type_synonym key_lock = "pubkey \<times> bool"

definition accounts_with_is_writable :: "('a) svm_message_scheme \<Rightarrow> key_lock list" where
  "accounts_with_is_writable tx =
     map (\<lambda>(index, key). (key, is_writable tx index)) (enumerate 0 (account_keys tx))"

record account_locks =
  write_locks :: "pubkey \<rightharpoonup> u64"
  readonly_locks :: "pubkey \<rightharpoonup> u64"

definition default_account_locks :: account_locks where
  "default_account_locks = \<lparr>write_locks = Map.empty, readonly_locks = Map.empty\<rparr>"

section \<open>Operations on single keys\<close>

definition is_locked_readonly :: "account_locks \<Rightarrow> pubkey \<Rightarrow> bool" where
  "is_locked_readonly self key =
     (case readonly_locks self key of None \<Rightarrow> False | Some count \<Rightarrow> count > 0)"

definition is_locked_write :: "account_locks \<Rightarrow> pubkey \<Rightarrow> bool" where
  "is_locked_write self key =
     (case write_locks self key of None \<Rightarrow> False | Some count \<Rightarrow> count > 0)"

definition can_read_lock :: "account_locks \<Rightarrow> pubkey \<Rightarrow> bool" where
  "can_read_lock self key \<longleftrightarrow> \<not> is_locked_write self key"

definition can_write_lock :: "account_locks \<Rightarrow> pubkey \<Rightarrow> bool" where
  "can_write_lock self key \<longleftrightarrow> \<not> is_locked_readonly self key \<and> \<not> is_locked_write self key"

definition lock_readonly :: "account_locks \<Rightarrow> pubkey \<Rightarrow> account_locks" where
  "lock_readonly self key = self\<lparr>readonly_locks := entry_incr (readonly_locks self) key\<rparr>"

definition lock_write :: "account_locks \<Rightarrow> pubkey \<Rightarrow> account_locks" where
  "lock_write self key = self\<lparr>write_locks := entry_incr (write_locks self) key\<rparr>"

text \<open>
  Unlocking decrements an occupied entry and removes it at zero. On a vacant entry the
  release build does nothing (the source only has a \<open>debug_assert!\<close> there).
\<close>

definition unlock_readonly :: "account_locks \<Rightarrow> pubkey \<Rightarrow> account_locks" where
  "unlock_readonly self key =
     (case readonly_locks self key of
        Some count \<Rightarrow>
          (let count' = count - 1 in
           self\<lparr>readonly_locks := (readonly_locks self)
             (key := (if count' = 0 then None else Some count'))\<rparr>)
      | None \<Rightarrow> self)"

definition unlock_write :: "account_locks \<Rightarrow> pubkey \<Rightarrow> account_locks" where
  "unlock_write self key =
     (case write_locks self key of
        Some count \<Rightarrow>
          (let count' = count - 1 in
           self\<lparr>write_locks := (write_locks self)
             (key := (if count' = 0 then None else Some count'))\<rparr>)
      | None \<Rightarrow> self)"

section \<open>Operations on the keys of a transaction\<close>

definition lock_key :: "account_locks \<Rightarrow> key_lock \<Rightarrow> account_locks" where
  "lock_key self kw = (if snd kw then lock_write self (fst kw) else lock_readonly self (fst kw))"

definition unlock_key :: "account_locks \<Rightarrow> key_lock \<Rightarrow> account_locks" where
  "unlock_key self kw =
     (if snd kw then unlock_write self (fst kw) else unlock_readonly self (fst kw))"

definition lock_accounts :: "account_locks \<Rightarrow> key_lock list \<Rightarrow> account_locks" where
  "lock_accounts self keys = foldl lock_key self keys"

definition unlock_accounts :: "account_locks \<Rightarrow> key_lock list \<Rightarrow> account_locks" where
  "unlock_accounts self keys = foldl unlock_key self keys"

fun can_lock_accounts ::
  "account_locks \<Rightarrow> key_lock list \<Rightarrow> (transaction_error, unit) result" where
  "can_lock_accounts self [] = Inr ()"
| "can_lock_accounts self ((key, writable) # keys) =
     (if writable
      then (if \<not> can_write_lock self key then Inl AccountInUse else can_lock_accounts self keys)
      else if \<not> can_read_lock self key then Inl AccountInUse
      else can_lock_accounts self keys)"

definition try_lock_accounts ::
  "account_locks \<Rightarrow> key_lock list \<Rightarrow> account_locks \<times> (transaction_error, unit) result" where
  "try_lock_accounts self keys =
     (case can_lock_accounts self keys of
        Inl e \<Rightarrow> (self, Inl e)
      | Inr _ \<Rightarrow> (lock_accounts self keys, Inr ()))"

text \<open>
  \<open>try_lock_transaction_batch\<close> first checks every transaction against the locks held before
  the batch, then locks the ones that passed, in order.
\<close>

definition check_batch ::
  "account_locks \<Rightarrow> (transaction_error, key_lock list) result list \<Rightarrow>
   (transaction_error, key_lock list) result list" where
  "check_batch self batch =
     map (\<lambda>validated_keys.
       case validated_keys of
         Inr keys \<Rightarrow> (case can_lock_accounts self keys of Inl e \<Rightarrow> Inl e | Inr _ \<Rightarrow> Inr keys)
       | Inl e \<Rightarrow> Inl e) batch"

fun lock_available ::
  "account_locks \<Rightarrow> (transaction_error, key_lock list) result list \<Rightarrow>
   account_locks \<times> (transaction_error, unit) result list" where
  "lock_available self [] = (self, [])"
| "lock_available self (Inl e # batch) =
     (let (self', results) = lock_available self batch in (self', Inl e # results))"
| "lock_available self (Inr keys # batch) =
     (let (self', results) = lock_available (lock_accounts self keys) batch
      in (self', Inr () # results))"

definition try_lock_transaction_batch ::
  "account_locks \<Rightarrow> (transaction_error, key_lock list) result list \<Rightarrow>
   account_locks \<times> (transaction_error, unit) result list" where
  "try_lock_transaction_batch self batch = lock_available self (check_batch self batch)"

section \<open>Validation\<close>

text \<open>
  \<open>has_duplicates\<close> has two implementations: from 32 keys on a hash set (empty between
  calls, since every call clears it), below that a quadratic comparison.
\<close>

fun any_insert_fails :: "pubkey set \<Rightarrow> pubkey list \<Rightarrow> bool" where
  "any_insert_fails seen [] = False"
| "any_insert_fails seen (key # keys) =
     (if key \<in> seen then True else any_insert_fails (insert key seen) keys)"

fun any_later_equal :: "pubkey list \<Rightarrow> bool" where
  "any_later_equal [] = False"
| "any_later_equal (key # keys) =
     (if list_ex (\<lambda>later. key = later) keys then True else any_later_equal keys)"

definition USE_ACCOUNT_LOCK_SET_SIZE :: nat where
  "USE_ACCOUNT_LOCK_SET_SIZE = 32"

definition has_duplicates :: "pubkey list \<Rightarrow> bool" where
  "has_duplicates keys =
     (if length keys \<ge> USE_ACCOUNT_LOCK_SET_SIZE
      then any_insert_fails {} keys
      else any_later_equal keys)"

definition validate_account_locks ::
  "pubkey list \<Rightarrow> nat \<Rightarrow> (transaction_error, unit) result" where
  "validate_account_locks keys tx_account_lock_limit =
     (if length keys > tx_account_lock_limit then Inl TooManyAccountLocks
      else if has_duplicates keys then Inl AccountLoadedTwice
      else Inr ())"

section \<open>Batches: the operations of Accounts\<close>

definition validated_batch_keys ::
  "('a) svm_message_scheme list \<Rightarrow> (transaction_error, unit) result list \<Rightarrow> nat \<Rightarrow>
   (transaction_error, key_lock list) result list" where
  "validated_batch_keys txs results tx_account_lock_limit =
     map (\<lambda>(tx, result).
       case result of
         Inl e \<Rightarrow> Inl e
       | Inr _ \<Rightarrow>
           (case validate_account_locks (account_keys tx) tx_account_lock_limit of
              Inl e \<Rightarrow> Inl e
            | Inr _ \<Rightarrow> Inr (accounts_with_is_writable tx)))
       (zip txs results)"

fun try_lock_each ::
  "account_locks \<Rightarrow> (transaction_error, key_lock list) result list \<Rightarrow>
   account_locks \<times> (transaction_error, unit) result list" where
  "try_lock_each self [] = (self, [])"
| "try_lock_each self (Inl e # batch) =
     (let (self', results) = try_lock_each self batch in (self', Inl e # results))"
| "try_lock_each self (Inr keys # batch) =
     (let (self1, result) = try_lock_accounts self keys;
          (self', results) = try_lock_each self1 batch
      in (self', result # results))"

definition accounts_lock_accounts ::
  "account_locks \<Rightarrow> ('a) svm_message_scheme list \<Rightarrow> (transaction_error, unit) result list \<Rightarrow>
   nat \<Rightarrow> bool \<Rightarrow> account_locks \<times> (transaction_error, unit) result list" where
  "accounts_lock_accounts self txs results tx_account_lock_limit relax_intrabatch_account_locks =
     (let batch = validated_batch_keys txs results tx_account_lock_limit in
      if relax_intrabatch_account_locks then try_lock_transaction_batch self batch
      else try_lock_each self batch)"

fun unlock_each ::
  "account_locks \<Rightarrow> (('a) svm_message_scheme \<times> (transaction_error, unit) result) list \<Rightarrow>
   account_locks" where
  "unlock_each self [] = self"
| "unlock_each self ((tx, res) # rest) =
     (case res of
        Inr _ \<Rightarrow> unlock_each (unlock_accounts self (accounts_with_is_writable tx)) rest
      | Inl _ \<Rightarrow> unlock_each self rest)"

definition accounts_unlock_accounts ::
  "account_locks \<Rightarrow> (('a) svm_message_scheme \<times> (transaction_error, unit) result) list \<Rightarrow>
   account_locks" where
  "accounts_unlock_accounts self txs_and_results =
     (if \<not> list_ex (\<lambda>(_, res). \<not> isl res) txs_and_results then self
      else unlock_each self txs_and_results)"

section \<open>The table as a lock table\<close>

definition held :: "account_locks \<Rightarrow> key_lock \<Rightarrow> nat" where
  "held self kw =
     (if snd kw then entry_count (write_locks self) (fst kw)
      else entry_count (readonly_locks self) (fst kw))"

definition locks_wf :: "account_locks \<Rightarrow> bool" where
  "locks_wf self \<longleftrightarrow> no_zero_entries (write_locks self) \<and> no_zero_entries (readonly_locks self)"

lemma is_locked_write_held: "is_locked_write self key \<longleftrightarrow> 0 < held self (key, True)"
  by (auto simp: is_locked_write_def held_def entry_count_def entry_or_default_def
      word_less_nat_alt split: option.splits)

lemma is_locked_readonly_held: "is_locked_readonly self key \<longleftrightarrow> 0 < held self (key, False)"
  by (auto simp: is_locked_readonly_def held_def entry_count_def entry_or_default_def
      word_less_nat_alt split: option.splits)

text \<open>Decrement-or-remove on one map, shared by both kinds of unlocking.\<close>

lemma entry_decr:
  assumes "no_zero_entries m" "m k = Some c"
  defines "m' \<equiv> m(k := (if c - 1 = 0 then None else Some (c - 1)))"
  shows "no_zero_entries m'" and "entry_count m' j = entry_count m j - (if j = k then 1 else 0)"
proof -
  have "c \<noteq> 0" using assms(1,2) by (auto simp: no_zero_entries_def)
  then have "unat (c - 1) = unat c - 1" by (rule unat_minus_one)
  with assms show "no_zero_entries m'" "entry_count m' j = entry_count m j - (if j = k then 1 else 0)"
    by (auto simp: no_zero_entries_def entry_count_def entry_or_default_def)
qed

lemma entry_absent: "m k = None \<Longrightarrow> entry_count m k = 0"
  by (simp add: entry_count_def entry_or_default_def)

lemma unlock_key_wf: "locks_wf t \<Longrightarrow> locks_wf (unlock_key t a)"
  by (auto simp: unlock_key_def unlock_write_def unlock_readonly_def locks_wf_def Let_def
      no_zero_entries_def split: option.splits)

lemma held_unlock_key:
  assumes "locks_wf t"
  shows "held (unlock_key t a) b = held t b - (if b = a then 1 else 0)"
proof -
  obtain k w where a: "a = (k, w)" by (cases a)
  obtain j v where b: "b = (j, v)" by (cases b)
  from assms have z: "no_zero_entries (write_locks t)" "no_zero_entries (readonly_locks t)"
    by (auto simp: locks_wf_def)
  show ?thesis
  proof (cases w)
    case True
    show ?thesis
    proof (cases "write_locks t k")
      case None
      with True a b show ?thesis
        by (auto simp: unlock_key_def unlock_write_def held_def entry_absent)
    next
      case (Some c)
      with True a b show ?thesis
        using entry_decr(2) [OF z(1) Some, of j]
        by (auto simp: unlock_key_def unlock_write_def held_def Let_def)
    qed
  next
    case False
    show ?thesis
    proof (cases "readonly_locks t k")
      case None
      with False a b show ?thesis
        by (auto simp: unlock_key_def unlock_readonly_def held_def entry_absent)
    next
      case (Some c)
      with False a b show ?thesis
        using entry_decr(2) [OF z(2) Some, of j]
        by (auto simp: unlock_key_def unlock_readonly_def held_def Let_def)
    qed
  qed
qed

interpretation al: lock_table lock_key unlock_key held locks_wf "2 ^ 64"
proof
  fix t :: account_locks and a b :: key_lock
  assume "locks_wf t" and "held t a + 1 < 2 ^ 64"
  then show "locks_wf (lock_key t a)"
    by (auto simp: lock_key_def lock_write_def lock_readonly_def locks_wf_def held_def
        intro: no_zero_entries_incr split: if_splits)
  from \<open>held t a + 1 < 2 ^ 64\<close> show "held (lock_key t a) b = held t b + (if b = a then 1 else 0)"
    by (cases a; cases b)
      (auto simp: lock_key_def lock_write_def lock_readonly_def held_def entry_count_incr
        split: if_splits)
next
  fix t a b assume "locks_wf t"
  then show "locks_wf (unlock_key t a)" by (rule unlock_key_wf)
  show "held (unlock_key t a) b = held t b - (if b = a then 1 else 0)"
    using \<open>locks_wf t\<close> by (rule held_unlock_key)
next
  fix t t' :: account_locks
  assume wf: "locks_wf t" "locks_wf t'" and eq: "\<And>a. held t a = held t' a"
  have "write_locks t = write_locks t'"
    using wf eq [of "(_, True)"] by (intro entry_count_inject) (auto simp: locks_wf_def held_def)
  moreover have "readonly_locks t = readonly_locks t'"
    using wf eq [of "(_, False)"] by (intro entry_count_inject) (auto simp: locks_wf_def held_def)
  ultimately show "t = t'" by simp
qed

section \<open>What the checks guarantee\<close>

lemma can_lock_accounts_iff:
  "can_lock_accounts t keys = Inr () \<longleftrightarrow>
   (\<forall>(key, writable) \<in> set keys.
      held t (key, True) = 0 \<and> (writable \<longrightarrow> held t (key, False) = 0))"
  by (induction t keys rule: can_lock_accounts.induct)
    (auto simp: can_write_lock_def can_read_lock_def is_locked_write_held is_locked_readonly_held)

lemma can_lock_accounts_error: "can_lock_accounts t keys = Inl e \<Longrightarrow> e = AccountInUse"
  by (induction t keys rule: can_lock_accounts.induct) (auto split: if_splits)

lemma any_insert_fails_iff: "any_insert_fails seen keys \<longleftrightarrow> \<not> distinct keys \<or> seen \<inter> set keys \<noteq> {}"
  by (induction seen keys rule: any_insert_fails.induct) auto

lemma any_later_equal_iff: "any_later_equal keys \<longleftrightarrow> \<not> distinct keys"
  by (induction keys rule: any_later_equal.induct) (auto simp: list_ex_iff)

lemma has_duplicates_iff: "has_duplicates keys \<longleftrightarrow> \<not> distinct keys"
  by (simp add: has_duplicates_def any_insert_fails_iff any_later_equal_iff)

lemma map_fst_accounts_with_is_writable [simp]:
  "map fst (accounts_with_is_writable tx) = account_keys tx"
  by (simp add: accounts_with_is_writable_def split_def comp_def)

subsection \<open>The locks a batch was granted\<close>

text \<open>The locks of the transactions of a batch whose result is \<open>Ok\<close>.\<close>

definition granted ::
  "('a) svm_message_scheme list \<Rightarrow> (transaction_error, unit) result list \<Rightarrow> key_lock list" where
  "granted txs results =
     concat (map (\<lambda>(tx, res). if isl res then [] else accounts_with_is_writable tx) (zip txs results))"

lemma granted_Nil [simp]: "granted [] rs = []" "granted txs [] = []"
  by (simp_all add: granted_def)

lemma granted_Cons [simp]:
  "granted (tx # txs) (r # rs) =
     (if isl r then [] else accounts_with_is_writable tx) @ granted txs rs"
  by (simp add: granted_def)

lemma length_granted:
  "length (granted txs rs) \<le> length (concat (map accounts_with_is_writable txs))"
proof (induction txs arbitrary: rs)
  case Nil
  then show ?case by simp
next
  case (Cons tx txs)
  then show ?case
    by (cases rs) (auto intro: add_mono trans_le_add2)
qed

lemma unlock_each_granted: "unlock_each t (zip txs rs) = unlock_accounts t (granted txs rs)"
proof (induction txs arbitrary: t rs)
  case Nil
  then show ?case by (simp add: unlock_accounts_def)
next
  case (Cons tx txs)
  then show ?case
    by (cases rs) (auto simp: unlock_accounts_def split: sum.splits)
qed

lemma accounts_unlock_granted:
  "accounts_unlock_accounts t (zip txs rs) = unlock_accounts t (granted txs rs)"
proof (cases "list_ex (\<lambda>(_, res). \<not> isl res) (zip txs rs)")
  case True
  then show ?thesis by (simp add: accounts_unlock_accounts_def unlock_each_granted)
next
  case False
  then have "granted txs rs = []"
    by (auto simp: granted_def list_ex_iff)
  with False show ?thesis
    by (simp add: accounts_unlock_accounts_def unlock_accounts_def)
qed

lemma validated_batch_keys_Nil [simp]:
  "validated_batch_keys [] rs lim = []" "validated_batch_keys txs [] lim = []"
  by (simp_all add: validated_batch_keys_def)

lemma validated_batch_keys_cases:
  obtains (error) e where
    "validated_batch_keys (tx # txs) (r # rs) lim = Inl e # validated_batch_keys txs rs lim"
  | (ok) "validated_batch_keys (tx # txs) (r # rs) lim =
      Inr (accounts_with_is_writable tx) # validated_batch_keys txs rs lim"
    "distinct (account_keys tx)" "r = Inr ()" "length (account_keys tx) \<le> lim"
proof (cases r)
  case (Inl e)
  then show ?thesis
    by (intro error) (simp add: validated_batch_keys_def)
next
  case (Inr u)
  show ?thesis
  proof (cases "validate_account_locks (account_keys tx) lim")
    case (Inl e)
    with \<open>r = Inr u\<close> show ?thesis
      by (intro error) (simp add: validated_batch_keys_def)
  next
    case (Inr v)
    with \<open>r = Inr u\<close> show ?thesis
      by (intro ok) (auto simp: validated_batch_keys_def validate_account_locks_def
          has_duplicates_iff split: if_splits)
  qed
qed

lemma lock_accounts_append: "lock_accounts t (xs @ ys) = lock_accounts (lock_accounts t xs) ys"
  by (simp add: lock_accounts_def)

lemma try_lock_each_granted:
  "try_lock_each t (validated_batch_keys txs rs lim) = (t', res) \<Longrightarrow>
   t' = lock_accounts t (granted txs res)"
proof (induction txs arbitrary: t t' rs res)
  case Nil
  then show ?case by (simp add: lock_accounts_def)
next
  case (Cons tx txs)
  show ?case
  proof (cases rs)
    case Nil
    with Cons.prems show ?thesis by (simp add: lock_accounts_def)
  next
    case rs: (Cons r rs')
    show ?thesis
    proof (cases rule: validated_batch_keys_cases [of tx txs r rs' lim])
      case (error e)
      then show ?thesis
        using Cons.prems Cons.IH rs by (auto split: prod.splits)
    next
      case ok
      then show ?thesis
        using Cons.prems Cons.IH rs
        by (auto simp: try_lock_accounts_def lock_accounts_append split: prod.splits sum.splits)
    qed
  qed
qed

lemma lock_available_granted:
  "lock_available t (check_batch t0 (validated_batch_keys txs rs lim)) = (t', res) \<Longrightarrow>
   t' = lock_accounts t (granted txs res)"
proof (induction txs arbitrary: t t' rs res)
  case Nil
  then show ?case by (simp add: lock_accounts_def check_batch_def)
next
  case (Cons tx txs)
  show ?case
  proof (cases rs)
    case Nil
    with Cons.prems show ?thesis by (simp add: lock_accounts_def check_batch_def)
  next
    case rs: (Cons r rs')
    note IH = Cons.IH [unfolded check_batch_def]
    show ?thesis
    proof (cases rule: validated_batch_keys_cases [of tx txs r rs' lim])
      case (error e)
      then show ?thesis
        using Cons.prems IH rs by (auto simp: check_batch_def split: prod.splits)
    next
      case ok
      then show ?thesis
        using Cons.prems IH rs
        by (auto simp: check_batch_def lock_accounts_append split: prod.splits sum.splits)
    qed
  qed
qed

lemma accounts_lock_granted:
  "accounts_lock_accounts t txs rs lim relax = (t', res) \<Longrightarrow> t' = lock_accounts t (granted txs res)"
  by (cases relax)
    (auto simp: accounts_lock_accounts_def try_lock_transaction_batch_def
      dest: try_lock_each_granted lock_available_granted)

subsection \<open>Conflicts\<close>

definition has_room :: "account_locks \<Rightarrow> nat \<Rightarrow> bool" where
  "has_room t n \<longleftrightarrow> (\<forall>a. held t a + n < 2 ^ 64)"

lemmas lock_accounts_spec =
  al.lock_all [folded lock_accounts_def, of t ks for t ks, THEN conjunct1]
  al.lock_all [folded lock_accounts_def, of t ks for t ks, THEN conjunct2]

lemma has_room_mono:
  assumes "has_room t n" "m \<le> n"
  shows "has_room t m"
  unfolding has_room_def
proof
  fix a
  have "held t a + n < 2 ^ 64" using assms(1) unfolding has_room_def by blast
  with assms(2) show "held t a + m < 2 ^ 64" by simp
qed

lemma has_room_lock:
  assumes "locks_wf t" "has_room t (length ks + n)"
  shows "has_room (lock_accounts t ks) n"
  unfolding has_room_def
proof
  fix a
  have "held (lock_accounts t ks) a = held t a + count_list ks a"
    using assms(1) has_room_mono [OF assms(2), of "length ks"]
    by (intro lock_accounts_spec) (auto simp: has_room_def)
  moreover have "held t a + (length ks + n) < 2 ^ 64"
    using assms(2) unfolding has_room_def by blast
  ultimately show "held (lock_accounts t ks) a + n < 2 ^ 64"
    using count_list_le_length [of ks a] by simp
qed

definition conflict :: "key_lock list \<Rightarrow> key_lock list \<Rightarrow> bool" where
  "conflict ks ls = list_ex (\<lambda>(k, w). list_ex (\<lambda>(l, v). k = l \<and> (w \<or> v)) ls) ks"

lemma conflict_iff: "conflict ks ls \<longleftrightarrow> (\<exists>k w v. (k, w) \<in> set ks \<and> (k, v) \<in> set ls \<and> (w \<or> v))"
  by (auto simp: conflict_def list_ex_iff)

lemma conflict_sym: "conflict ks ls \<Longrightarrow> conflict ls ks"
  by (auto simp: conflict_iff)

lemma can_lock_no_conflict:
  assumes "can_lock_accounts t ls = Inr ()" "\<forall>a \<in> set ks. 0 < held t a"
  shows "\<not> conflict ks ls"
proof
  assume "conflict ks ls"
  then obtain k w v where kv: "(k, w) \<in> set ks" "(k, v) \<in> set ls" "w \<or> v" by (auto simp: conflict_iff)
  moreover have "held t (k, True) = 0" "v \<longrightarrow> held t (k, False) = 0"
    using assms(1) kv(2) by (auto simp: can_lock_accounts_iff)
  ultimately show False using assms(2) by (cases w; cases v) fastforce+
qed

text \<open>What can be locked after \<open>ks\<close> could be locked before them, and does not conflict with them.\<close>

lemma can_lock_after:
  assumes wf: "locks_wf t" and room: "has_room t (length ks)"
    and can: "can_lock_accounts (lock_accounts t ks) ls = Inr ()"
  shows "can_lock_accounts t ls = Inr ()" "\<not> conflict ks ls"
proof -
  have held: "held (lock_accounts t ks) a = held t a + count_list ks a" for a
    using wf room by (intro lock_accounts_spec) (auto simp: has_room_def)
  then show "can_lock_accounts t ls = Inr ()" using can by (auto simp: can_lock_accounts_iff)
  have "0 < count_list ks a" if "a \<in> set ks" for a
    using that count_list_0_iff_prelude [of ks a] by blast
  then show "\<not> conflict ks ls" using can_lock_no_conflict [OF can, of ks] by (simp add: held)
qed

lemma lock_available_results: "snd (lock_available t batch) = map (map_sum id (\<lambda>_. ())) batch"
  by (induction t batch rule: lock_available.induct) (auto split: prod.splits)

section \<open>Transactions in flight\<close>

text \<open>
  The table together with the batches that hold locks, each with the mode it was locked in. A
  step either locks a new batch, with relaxed intra-batch locks or without, or releases one
  of the batches in flight, in any order. Locking needs room for the keys of the batch in the
  64-bit counters.
\<close>

type_synonym batch = "(svm_message \<times> (transaction_error, unit) result) list"

definition batch_locks :: "batch \<Rightarrow> key_lock list list" where
  "batch_locks b = map (\<lambda>(tx, _). accounts_with_is_writable tx) (filter (\<lambda>(_, res). \<not> isl res) b)"

definition in_flight_locks :: "(bool \<times> batch) list \<Rightarrow> key_lock list list" where
  "in_flight_locks bs = concat (map (batch_locks \<circ> snd) bs)"

inductive lock_step ::
  "account_locks \<times> (bool \<times> batch) list \<Rightarrow> account_locks \<times> (bool \<times> batch) list \<Rightarrow> bool" where
  acquire: "accounts_lock_accounts t txs results lim relaxed = (t', results') \<Longrightarrow>
    length (concat (in_flight_locks bs)) + length (concat (map accounts_with_is_writable txs)) < 2 ^ 64 \<Longrightarrow>
    lock_step (t, bs) (t', (relaxed, zip txs results') # bs)"
| release: "lock_step (t, bs @ (relaxed, b) # bs') (accounts_unlock_accounts t b, bs @ bs')"

inductive lock_reachable :: "account_locks \<times> (bool \<times> batch) list \<Rightarrow> bool" where
  start: "lock_reachable (default_account_locks, [])"
| step: "lock_reachable s \<Longrightarrow> lock_step s s' \<Longrightarrow> lock_reachable s'"

text \<open>Every transaction that is locked was free to be locked before the batch.\<close>

lemma batch_locks_simps [simp]:
  "batch_locks [] = []"
  "batch_locks ((tx, r) # b) = (if isl r then [] else [accounts_with_is_writable tx]) @ batch_locks b"
  by (simp_all add: batch_locks_def)

lemma try_lock_each_free:
  "locks_wf t \<Longrightarrow> has_room t (length (concat (map accounts_with_is_writable txs))) \<Longrightarrow>
   try_lock_each t (validated_batch_keys txs rs lim) = (t', res) \<Longrightarrow>
   (\<forall>ls \<in> set (batch_locks (zip txs res)). can_lock_accounts t ls = Inr ()) \<and>
   sorted_wrt (\<lambda>ks ls. \<not> conflict ks ls) (batch_locks (zip txs res))"
proof (induction txs arbitrary: t t' rs res)
  case Nil
  then show ?case by simp
next
  case (Cons tx txs)
  have room: "has_room t (length (concat (map accounts_with_is_writable txs)))"
    using Cons.prems(2) by (rule has_room_mono) simp
  show ?case
  proof (cases rs)
    case Nil
    with Cons.prems show ?thesis by simp
  next
    case rs: (Cons r rs')
    show ?thesis
    proof (cases rule: validated_batch_keys_cases [of tx txs r rs' lim])
      case (error e)
      then show ?thesis
        using Cons.prems(3) Cons.IH [OF Cons.prems(1) room] rs by (auto split: prod.splits)
    next
      case ok
      let ?ks = "accounts_with_is_writable tx"
      show ?thesis
      proof (cases "can_lock_accounts t ?ks")
        case (Inl e)
        then show ?thesis
          using Cons.prems(3) Cons.IH [OF Cons.prems(1) room] rs ok(1)
          by (auto simp: try_lock_accounts_def split: prod.splits)
      next
        case (Inr u)
        have room1: "has_room t (length ?ks)"
          using Cons.prems(2) by (rule has_room_mono) simp
        have wf1: "locks_wf (lock_accounts t ?ks)"
          using Cons.prems(1) room1 by (intro lock_accounts_spec) (auto simp: has_room_def)
        have room2: "has_room (lock_accounts t ?ks) (length (concat (map accounts_with_is_writable txs)))"
          using Cons.prems(1,2) by (intro has_room_lock) simp_all
        obtain res' where res: "res = Inr () # res'"
          "try_lock_each (lock_accounts t ?ks) (validated_batch_keys txs rs' lim) = (t', res')"
          using Cons.prems(3) rs ok(1) Inr by (auto simp: try_lock_accounts_def split: prod.splits)
        show ?thesis
          using Cons.IH [OF wf1 room2 res(2)] can_lock_after [OF Cons.prems(1) room1] Inr by (simp add: res(1))
      qed
    qed
  qed
qed

lemma lock_available_free:
  "snd (lock_available t (check_batch t0 (validated_batch_keys txs rs lim))) = res \<Longrightarrow>
   \<forall>ls \<in> set (batch_locks (zip txs res)). can_lock_accounts t0 ls = Inr ()"
  unfolding lock_available_results
proof (induction txs arbitrary: rs res)
  case Nil
  then show ?case by simp
next
  case (Cons tx txs)
  show ?case
  proof (cases rs)
    case Nil
    with Cons.prems show ?thesis by (simp add: check_batch_def)
  next
    case rs: (Cons r rs')
    show ?thesis
      by (cases rule: validated_batch_keys_cases [of tx txs r rs' lim])
        (use Cons.prems Cons.IH [of rs'] rs in \<open>auto simp: check_batch_def split: sum.splits\<close>)
  qed
qed

lemma accounts_lock_free:
  assumes "locks_wf t" "has_room t (length (concat (map accounts_with_is_writable txs)))"
    "accounts_lock_accounts t txs rs lim relaxed = (t', res)"
  shows "\<forall>ls \<in> set (batch_locks (zip txs res)). can_lock_accounts t ls = Inr ()"
    "\<not> relaxed \<Longrightarrow> sorted_wrt (\<lambda>ks ls. \<not> conflict ks ls) (batch_locks (zip txs res))"
  using assms(3) try_lock_each_free [OF assms(1,2), of rs lim t' res]
    lock_available_free [of t t txs rs lim res]
  by (cases relaxed; simp add: accounts_lock_accounts_def try_lock_transaction_batch_def Let_def)+

lemma concat_batch_locks_zip: "concat (batch_locks (zip txs res)) = granted txs res"
  unfolding batch_locks_def granted_def by (induction txs res rule: list_induct2') auto

lemma batch_as_zip: "b = zip (map fst b) (map snd b)"
  by (simp add: zip_map_fst_snd)

lemma in_flight_locks_simps [simp]:
  "in_flight_locks [] = []"
  "in_flight_locks (b # bs) = batch_locks (snd b) @ in_flight_locks bs"
  "in_flight_locks (bs @ bs') = in_flight_locks bs @ in_flight_locks bs'"
  by (simp_all add: in_flight_locks_def)

definition batches_apart :: "bool \<times> batch \<Rightarrow> bool \<times> batch \<Rightarrow> bool" where
  "batches_apart b c \<longleftrightarrow>
     (\<forall>ks \<in> set (batch_locks (snd b)). \<forall>ls \<in> set (batch_locks (snd c)). \<not> conflict ks ls)"

definition flight_inv :: "account_locks \<times> (bool \<times> batch) list \<Rightarrow> bool" where
  "flight_inv s \<longleftrightarrow> locks_wf (fst s) \<and>
     (\<forall>a. held (fst s) a = count_list (concat (in_flight_locks (snd s))) a) \<and>
     sorted_wrt batches_apart (snd s) \<and>
     (\<forall>b. (False, b) \<in> set (snd s) \<longrightarrow> sorted_wrt (\<lambda>ks ls. \<not> conflict ks ls) (batch_locks b))"

lemma flight_inv_acquire:
  assumes inv: "flight_inv (t, bs)" and lock: "accounts_lock_accounts t txs results lim relaxed = (t', results')"
    and fits: "length (concat (in_flight_locks bs)) + length (concat (map accounts_with_is_writable txs)) < 2 ^ 64"
  shows "flight_inv (t', (relaxed, zip txs results') # bs)"
proof -
  let ?new = "concat (map accounts_with_is_writable txs)"
  have wf: "locks_wf t" and h: "\<And>a. held t a = count_list (concat (in_flight_locks bs)) a"
    using inv by (auto simp: flight_inv_def)
  have room: "has_room t (length ?new)"
    using fits count_list_le_length [of "concat (in_flight_locks bs)"]
    by (auto simp: has_room_def h intro: le_less_trans [OF add_right_mono])
  note free = accounts_lock_free [OF wf room lock]
  have t': "t' = lock_accounts t (granted txs results')"
    using lock by (rule accounts_lock_granted)
  have room': "\<And>a. held t a + length (granted txs results') < 2 ^ 64"
    using has_room_mono [OF room length_granted] by (auto simp: has_room_def)
  have "held t' a = held t a + count_list (granted txs results') a" for a
    unfolding t' using wf room' by (rule lock_accounts_spec)
  moreover have "locks_wf t'" unfolding t' using wf room' by (rule lock_accounts_spec)
  moreover have "batches_apart (relaxed, zip txs results') b" if b: "b \<in> set bs" for b
    unfolding batches_apart_def
  proof (intro ballI notI)
    fix ks ls assume ks: "ks \<in> set (batch_locks (snd (relaxed, zip txs results')))"
      and ls: "ls \<in> set (batch_locks (snd b))" and "conflict ks ls"
    have "a \<in> set (concat (in_flight_locks bs))" if "a \<in> set ls" for a
      using that ls b by (auto simp: in_flight_locks_def)
    then have "\<forall>a \<in> set ls. 0 < held t a"
      using count_list_0_iff_prelude [of "concat (in_flight_locks bs)"] unfolding h by blast
    then have "\<not> conflict ls ks" using free(1) ks by (intro can_lock_no_conflict) auto
    then show False using conflict_sym [OF \<open>conflict ks ls\<close>] by blast
  qed
  ultimately show ?thesis
    using inv free(2) by (auto simp: flight_inv_def concat_batch_locks_zip)
qed

lemma flight_inv_step:
  assumes "lock_step s s'" and "flight_inv s"
  shows "flight_inv s'"
  using assms
proof (induction rule: lock_step.induct)
  case (acquire t txs results lim relaxed t' results' bs)
  then show ?case by (blast intro: flight_inv_acquire)
next
  case (release t bs relaxed b bs')
  let ?ks = "concat (batch_locks b)"
  have wf: "locks_wf t"
    and h: "\<And>a. held t a = count_list (concat (in_flight_locks (bs @ (relaxed, b) # bs'))) a"
    using release.prems by (auto simp: flight_inv_def)
  have "accounts_unlock_accounts t b = unlock_accounts t ?ks"
    using accounts_unlock_granted [of t "map fst b" "map snd b"]
      concat_batch_locks_zip [of "map fst b" "map snd b"]
    by (simp add: batch_as_zip [symmetric])
  moreover have u: "locks_wf (unlock_accounts t ?ks)"
    "\<And>a. held (unlock_accounts t ?ks) a = held t a - count_list ?ks a"
    using al.unlock_all [OF wf, folded unlock_accounts_def] by auto
  ultimately show ?case
    using release.prems by (auto simp: flight_inv_def h sorted_wrt_append)
qed

lemma flight_inv_reachable: "lock_reachable s \<Longrightarrow> flight_inv s"
proof (induction rule: lock_reachable.induct)
  case start
  show ?case
    by (auto simp: flight_inv_def default_account_locks_def locks_wf_def no_zero_entries_def
        held_def entry_count_def entry_or_default_def)
next
  case (step s s')
  then show ?case by (blast intro: flight_inv_step)
qed

text \<open>The equations that run the table on concrete transactions.\<close>

lemmas lock_eval =
  accounts_lock_accounts_def validated_batch_keys_def validate_account_locks_def
  has_duplicates_def USE_ACCOUNT_LOCK_SET_SIZE_def accounts_with_is_writable_def
  try_lock_transaction_batch_def check_batch_def try_lock_accounts_def can_write_lock_def
  can_read_lock_def is_locked_write_def is_locked_readonly_def default_account_locks_def
  lock_accounts_def lock_key_def lock_write_def lock_readonly_def entry_incr_def
  entry_or_default_def

section \<open>Properties\<close>

text \<open>
  C5. Mutual exclusion: whatever batches are locked, in either mode, and released in whatever
  order, no two transactions of different batches that hold locks at the same time conflict,
  i.e. name the same account with one of them writing it. Two transactions of the same batch
  do not conflict either, unless the batch was locked with relaxed intra-batch locks. The
  keys in flight stay below 2^64.
\<close>

theorem locks_mutual_exclusion:
  assumes "lock_reachable (t, bs)"
  shows "(\<forall>i < length bs. \<forall>j < length bs. i \<noteq> j \<longrightarrow>
      (\<forall>ks \<in> set (batch_locks (snd (bs ! i))). \<forall>ls \<in> set (batch_locks (snd (bs ! j))). \<not> conflict ks ls)) \<and>
    (\<forall>b. (False, b) \<in> set bs \<longrightarrow>
      (\<forall>j < length (batch_locks b). \<forall>i < j. \<not> conflict (batch_locks b ! i) (batch_locks b ! j)))"
proof -
  have inv: "sorted_wrt batches_apart bs"
    "\<forall>b. (False, b) \<in> set bs \<longrightarrow> sorted_wrt (\<lambda>ks ls. \<not> conflict ks ls) (batch_locks b)"
    using flight_inv_reachable [OF assms] by (simp_all add: flight_inv_def)
  have "\<not> conflict ks ls" if "i < length bs" "j < length bs" "i \<noteq> j"
    "ks \<in> set (batch_locks (snd (bs ! i)))" "ls \<in> set (batch_locks (snd (bs ! j)))" for i j ks ls
  proof (cases "i < j")
    case True
    then show ?thesis
      using sorted_wrt_nth_less [OF inv(1) True] that(2,4,5) by (simp add: batches_apart_def)
  next
    case False
    then have "j < i" using that(3) by simp
    then show ?thesis
      using sorted_wrt_nth_less [OF inv(1) \<open>j < i\<close>] that(1,4,5) conflict_sym by (auto simp: batches_apart_def)
  qed
  then show ?thesis using inv(2) sorted_wrt_nth_less by blast
qed

theorem locks_mutual_exclusion_witness:
  "let writer = (\<lambda>k. \<lparr>account_keys = [k, 7], is_writable = (\<lambda>i. i = 0)\<rparr> :: svm_message);
       (t, res) = accounts_lock_accounts default_account_locks [writer 3, writer 3] [Inr (), Inr ()] 64 True;
       (t', res') = accounts_lock_accounts t [writer 1, writer 3, writer 2] [Inr (), Inr (), Inr ()] 64 False;
       bs = [(False, zip [writer 1, writer 3, writer 2] res'), (True, zip [writer 3, writer 3] res)]
   in lock_reachable (t', bs) \<and> res = [Inr (), Inr ()] \<and> res' = [Inr (), Inl AccountInUse, Inr ()] \<and>
      \<not> conflict (batch_locks (snd (bs ! 0)) ! 1) (batch_locks (snd (bs ! 1)) ! 0)"
proof -
  let ?writer = "\<lambda>k. \<lparr>account_keys = [k, 7], is_writable = (\<lambda>i. i = 0)\<rparr> :: svm_message"
  let ?run = "accounts_lock_accounts default_account_locks [?writer 3, ?writer 3] [Inr (), Inr ()] 64 True"
  let ?run' = "accounts_lock_accounts (fst ?run) [?writer 1, ?writer 3, ?writer 2] [Inr (), Inr (), Inr ()] 64 False"
  let ?bs = "[(False, zip [?writer 1, ?writer 3, ?writer 2] (snd ?run')), (True, zip [?writer 3, ?writer 3] (snd ?run))]"
  have res: "snd ?run = [Inr (), Inr ()]" by (simp add: lock_eval)
  have res': "snd ?run' = [Inr (), Inl AccountInUse, Inr ()]" by (simp add: lock_eval)
  have "lock_step (default_account_locks, []) (fst ?run, [(True, zip [?writer 3, ?writer 3] (snd ?run))])"
    by (rule lock_step.acquire [OF prod.collapse [symmetric]]) (simp add: accounts_with_is_writable_def)
  then have 1: "lock_reachable (fst ?run, [(True, zip [?writer 3, ?writer 3] (snd ?run))])"
    by (rule lock_reachable.step [OF lock_reachable.start])
  have "lock_step (fst ?run, [(True, zip [?writer 3, ?writer 3] (snd ?run))]) (fst ?run', ?bs)"
    by (rule lock_step.acquire [OF prod.collapse [symmetric]]) (simp add: accounts_with_is_writable_def res)
  then have 2: "lock_reachable (fst ?run', ?bs)" by (rule lock_reachable.step [OF 1])
  have "\<not> conflict (batch_locks (snd (?bs ! 0)) ! 1) (batch_locks (snd (?bs ! 1)) ! 0)"
    using locks_mutual_exclusion [OF 2, THEN conjunct1, rule_format, of 0 1] by (simp add: res res')
  then show ?thesis
    using 2 res res' by (simp add: Let_def split_beta)
qed

text \<open>
  C23. Releasing a batch undoes exactly what locking it did: with the results that
  \<open>Accounts::lock_accounts\<close> returned, \<open>Accounts::unlock_accounts\<close> gives back the table before,
  entry by entry, in both locking modes and whatever was locked before.
\<close>

theorem lock_unlock_batch_roundtrip:
  assumes "locks_wf t" and "has_room t (length (concat (map accounts_with_is_writable txs)))"
    and "accounts_lock_accounts t txs results lim relax = (t', results')"
  shows "accounts_unlock_accounts t' (zip txs results') = t"
proof -
  have "has_room t (length (granted txs results'))"
    using assms(2) length_granted by (rule has_room_mono)
  then show ?thesis
    unfolding accounts_unlock_granted accounts_lock_granted [OF assms(3)]
      lock_accounts_def unlock_accounts_def
    by (intro al.lock_unlock_all assms(1)) (auto simp: has_room_def)
qed

theorem lock_unlock_batch_roundtrip_witness:
  "let t = default_account_locks\<lparr>readonly_locks := [7 \<mapsto> 3]\<rparr>;
       txs = [\<lparr>account_keys = [1, 7], is_writable = (\<lambda>i. i = 0)\<rparr>,
              \<lparr>account_keys = [1, 2], is_writable = (\<lambda>i. True)\<rparr>];
       (t', results') = accounts_lock_accounts t txs [Inr (), Inr ()] 64 False
   in results' = [Inr (), Inl AccountInUse] \<and> accounts_unlock_accounts t' (zip txs results') = t"
proof -
  let ?t = "default_account_locks\<lparr>readonly_locks := [7 \<mapsto> 3]\<rparr>"
  let ?txs = "[\<lparr>account_keys = [1, 7], is_writable = (\<lambda>i. i = 0)\<rparr>,
    \<lparr>account_keys = [1, 2], is_writable = (\<lambda>i. True)\<rparr>] :: svm_message list"
  let ?run = "accounts_lock_accounts ?t ?txs [Inr (), Inr ()] 64 False"
  have wf: "locks_wf ?t"
    by (simp add: locks_wf_def no_zero_entries_def default_account_locks_def)
  have room: "has_room ?t (length (concat (map accounts_with_is_writable ?txs)))"
    by (simp add: has_room_def held_def entry_count_def entry_or_default_def
        default_account_locks_def accounts_with_is_writable_def)
  have res: "snd ?run = [Inr (), Inl AccountInUse]"
    by (simp add: lock_eval)
  have "accounts_unlock_accounts (fst ?run) (zip ?txs (snd ?run)) = ?t"
    by (rule lock_unlock_batch_roundtrip [OF wf room prod.collapse [symmetric]])
  then show ?thesis
    using res by (simp add: Let_def split_beta)
qed

text \<open>
  C24. With relaxed intra-batch locks a transaction of the batch is locked exactly when it came
  in without an error, its keys are distinct and within the limit, and no lock held before the
  batch conflicts with it; transactions of the same batch never exclude each other.
\<close>

theorem relaxed_batch_result:
  assumes "accounts_lock_accounts t txs results lim True = (t', results')"
    and "i < length txs" and "i < length results"
  shows "results' ! i = Inr () \<longleftrightarrow>
    results ! i = Inr () \<and> length (account_keys (txs ! i)) \<le> lim \<and> distinct (account_keys (txs ! i)) \<and>
    (\<forall>(key, writable) \<in> set (accounts_with_is_writable (txs ! i)).
       held t (key, True) = 0 \<and> (writable \<longrightarrow> held t (key, False) = 0))"
proof -
  let ?batch = "validated_batch_keys txs results lim"
  have "results' = map (map_sum id (\<lambda>_. ())) (check_batch t ?batch)"
    using assms(1) lock_available_results [of t "check_batch t ?batch"]
    by (simp add: accounts_lock_accounts_def try_lock_transaction_batch_def)
  moreover have "i < length ?batch" and "?batch ! i =
      (case results ! i of Inl e \<Rightarrow> Inl e | Inr _ \<Rightarrow>
        (case validate_account_locks (account_keys (txs ! i)) lim of
           Inl e \<Rightarrow> Inl e | Inr _ \<Rightarrow> Inr (accounts_with_is_writable (txs ! i))))"
    using assms(2,3) by (simp_all add: validated_batch_keys_def)
  ultimately show ?thesis
    using can_lock_accounts_iff [of t "accounts_with_is_writable (txs ! i)"]
    by (auto simp: check_batch_def validate_account_locks_def has_duplicates_iff split: sum.splits)
qed

theorem relaxed_batch_result_witness:
  "let t = default_account_locks\<lparr>readonly_locks := [7 \<mapsto> 3]\<rparr>;
       txs = [\<lparr>account_keys = [1, 7], is_writable = (\<lambda>i. i = 0)\<rparr>,
              \<lparr>account_keys = [1, 2], is_writable = (\<lambda>i. True)\<rparr>,
              \<lparr>account_keys = [3, 7], is_writable = (\<lambda>i. True)\<rparr>]
   in snd (accounts_lock_accounts t txs [Inr (), Inr (), Inr ()] 64 True) ! 1 = Inr () \<and>
      held t (1, True) = 0 \<and> held t (7, False) = 3"
proof -
  let ?t = "default_account_locks\<lparr>readonly_locks := [7 \<mapsto> 3]\<rparr>"
  let ?txs = "[\<lparr>account_keys = [1, 7], is_writable = (\<lambda>i. i = 0)\<rparr>,
    \<lparr>account_keys = [1, 2], is_writable = (\<lambda>i. True)\<rparr>,
    \<lparr>account_keys = [3, 7], is_writable = (\<lambda>i. True)\<rparr>] :: svm_message list"
  let ?run = "accounts_lock_accounts ?t ?txs [Inr (), Inr (), Inr ()] 64 True"
  have held: "held ?t (1, True) = 0" "held ?t (1, False) = 0" "held ?t (2, True) = 0"
    "held ?t (2, False) = 0" "held ?t (7, False) = 3"
    by (simp_all add: held_def entry_count_def entry_or_default_def default_account_locks_def)
  have "snd ?run ! 1 = Inr () \<longleftrightarrow> [Inr (), Inr (), Inr ()] ! 1 = (Inr () :: (transaction_error, unit) result) \<and>
      length (account_keys (?txs ! 1)) \<le> 64 \<and> distinct (account_keys (?txs ! 1)) \<and>
      (\<forall>(key, writable) \<in> set (accounts_with_is_writable (?txs ! 1)).
        held ?t (key, True) = 0 \<and> (writable \<longrightarrow> held ?t (key, False) = 0))"
    by (rule relaxed_batch_result [OF prod.collapse [symmetric]]) simp_all
  then have "snd ?run ! 1 = Inr ()"
    by (simp add: accounts_with_is_writable_def held)
  then show ?thesis
    by (simp add: Let_def held)
qed

text \<open>
  The two implementations behind \<open>has_duplicates\<close>, the hash set from 32 keys on and the
  quadratic scan below, both decide whether the keys are pairwise distinct.
\<close>

lemma has_duplicates_correct:
  "has_duplicates keys \<longleftrightarrow> (\<exists>i j. i < j \<and> j < length keys \<and> keys ! i = keys ! j)"
proof -
  have "has_duplicates keys \<longleftrightarrow> \<not> distinct keys" by (rule has_duplicates_iff)
  also have "\<dots> \<longleftrightarrow> (\<exists>i j. i < j \<and> j < length keys \<and> keys ! i = keys ! j)"
  proof
    assume "\<not> distinct keys"
    then obtain i j where "i < length keys" "j < length keys" "i \<noteq> j" "keys ! i = keys ! j"
      by (auto simp: distinct_conv_nth)
    then show "\<exists>i j. i < j \<and> j < length keys \<and> keys ! i = keys ! j"
      using linorder_neqE_nat [of i j] by auto metis
  next
    assume "\<exists>i j. i < j \<and> j < length keys \<and> keys ! i = keys ! j"
    then show "\<not> distinct keys"
      by (force simp: distinct_conv_nth)
  qed
  finally show ?thesis .
qed

end
