(* ===== verification/Bundle_Storage.thy ===== *)
theory Bundle_Storage
  imports Prelude "HOL-Library.Monad_Syntax"
begin

text \<open>
  The bundles a leader has received and not finished: \<open>BundleStorage\<close> of
  core/src/bundle_stage/bundle_storage.rs on top of the part of
  \<open>TransactionViewStateContainer\<close> it uses (core/src/banking_stage/transaction_scheduler/
  transaction_state_container.rs and transaction_state.rs).

  The container keeps its transaction states in a \<open>Slab\<close> of the slab crate. The slab is a
  parameter: a record of its operations, with the laws the code relies on as \<open>slab_laws\<close>.
  Beside the slab it has one preallocated byte buffer per key, an \<open>Arc\<close> that a stored
  transaction view shares; the model keeps the strong count of every buffer.
  The parsing and filtering of a packet (\<open>BundlePacketDeserializer::try_handle_packet\<close>) and
  the message hash of a transaction are parameters too.
\<close>

section \<open>The slab\<close>

record ('s, 'v) slab =
  slab_get :: "'s \<Rightarrow> nat \<Rightarrow> 'v option"
  slab_put :: "'s \<Rightarrow> nat \<Rightarrow> 'v \<Rightarrow> 's" \<comment> \<open>a write through \<open>get_mut\<close>\<close>
  slab_remove :: "'s \<Rightarrow> nat \<Rightarrow> 's option" \<comment> \<open>\<open>None\<close>: panics on a key that is not occupied\<close>
  slab_vacant_key :: "'s \<Rightarrow> nat"
  slab_insert :: "'s \<Rightarrow> 'v \<Rightarrow> 's" \<comment> \<open>\<open>vacant_entry().insert(v)\<close>\<close>
  slab_len :: "'s \<Rightarrow> nat"
  slab_capacity :: "'s \<Rightarrow> nat"

abbreviation occupied :: "('s, 'v) slab \<Rightarrow> 's \<Rightarrow> nat set" where
  "occupied S s \<equiv> dom (slab_get S s)"

text \<open>
  A slab hands out a key that is not occupied. Below its capacity an insertion does not
  reallocate, and the key is an index of the storage it already has.
\<close>

definition slab_laws :: "('s, 'v) slab \<Rightarrow> ('s \<Rightarrow> bool) \<Rightarrow> bool" where
  "slab_laws S ok \<longleftrightarrow> (\<forall>s. ok s \<longrightarrow>
     finite (occupied S s) \<and> slab_len S s = card (occupied S s) \<and>
     slab_vacant_key S s \<notin> occupied S s \<and>
     (\<forall>v. ok (slab_insert S s v) \<and>
        slab_get S (slab_insert S s v) = (slab_get S s)(slab_vacant_key S s \<mapsto> v) \<and>
        (slab_len S s < slab_capacity S s \<longrightarrow> slab_vacant_key S s < slab_capacity S s \<and>
          slab_capacity S (slab_insert S s v) = slab_capacity S s)) \<and>
     (\<forall>k v. k \<in> occupied S s \<longrightarrow> ok (slab_put S s k v) \<and>
        slab_get S (slab_put S s k v) = (slab_get S s)(k \<mapsto> v) \<and>
        slab_capacity S (slab_put S s k v) = slab_capacity S s) \<and>
     (\<forall>k. k \<in> occupied S s \<longrightarrow> (\<exists>s'. slab_remove S s k = Some s' \<and> ok s' \<and>
        slab_get S s' = (slab_get S s)(k := None) \<and> slab_capacity S s' = slab_capacity S s)))"

section \<open>Transaction states\<close>

record max_age =
  sanitized_epoch :: epoch
  alt_invalidation_slot :: slot

record 'tx transaction_state =
  transaction :: "'tx option"
  state_max_age :: max_age
  priority :: u64
  state_cost :: u64

definition take_transaction_for_scheduling ::
  "'tx transaction_state \<Rightarrow> (('tx \<times> max_age) \<times> 'tx transaction_state) option" where
  "take_transaction_for_scheduling self =
     (case transaction self of
        None \<Rightarrow> None
      | Some tx \<Rightarrow> Some ((tx, state_max_age self), self\<lparr>transaction := None\<rparr>))"

definition retry_transaction ::
  "'tx transaction_state \<Rightarrow> 'tx \<Rightarrow> 'tx transaction_state option" where
  "retry_transaction self tx =
     (if transaction self = None then Some (self\<lparr>transaction := Some tx\<rparr>) else None)"

section \<open>The storage\<close>

datatype packet_handling_error =
  Sanitization | LockValidation | ComputeBudget | ALTResolution | BlacklistedAccount

datatype bundle_storage_error =
    EmptyBatch
  | ContainerFull
  | PacketMarkedDiscard nat
  | PacketFilterError packet_handling_error nat
  | BundleTooLarge
  | DuplicateTransaction

record bundle_transaction_id =
  container_ids :: "nat list"
  intended_slot :: slot

record 'tx bundle_storage_entry =
  entry_container_ids :: "nat list"
  entry_transactions :: "'tx list"
  entry_max_ages :: "max_age list"
  entry_intended_slot :: slot

record 's bundle_storage =
  last_slot :: slot
  transaction_capacity :: nat
  container :: 's
  bytes_buffer :: "nat list" \<comment> \<open>the strong counts of the shared buffers, one per slab key\<close>
  unprocessed_bundles :: "bundle_transaction_id list"
  cost_model_buffered_bundles :: "bundle_transaction_id list"

record packet =
  discard :: bool
  packet_data :: "u8 list option"

definition MAX_PACKETS_PER_BUNDLE :: nat where
  "MAX_PACKETS_PER_BUNDLE = 5"

fun retry_transactions ::
  "('s, 'tx transaction_state) slab \<Rightarrow> 's \<Rightarrow> (nat \<times> 'tx) list \<Rightarrow> 's option" where
  "retry_transactions S c [] = Some c"
| "retry_transactions S c ((container_id, tx) # rest) =
     do {
       state \<leftarrow> slab_get S c container_id;
       state' \<leftarrow> retry_transaction state tx;
       retry_transactions S (slab_put S c container_id state') rest
     }"

definition retry_bundle ::
  "('s, 'tx transaction_state) slab \<Rightarrow> 's bundle_storage \<Rightarrow> 'tx bundle_storage_entry \<Rightarrow>
   's bundle_storage option" where
  "retry_bundle S self bundle =
     do {
       c \<leftarrow> retry_transactions S (container self)
         (zip (entry_container_ids bundle) (entry_transactions bundle));
       Some (self\<lparr>container := c, cost_model_buffered_bundles := cost_model_buffered_bundles self @
         [\<lparr>container_ids = entry_container_ids bundle, intended_slot = entry_intended_slot bundle\<rparr>]\<rparr>)
     }"

text \<open>
  The views that are dropped give up their reference to the buffer. A view that was stored
  under a key shares the buffer of that key: \<open>try_insert_map_only_with_data\<close> builds it from
  there, and taking it out and putting it back moves it without copying it.
\<close>

fun release_bytes :: "nat list \<Rightarrow> nat list \<Rightarrow> nat list" where
  "release_bytes [] counts = counts"
| "release_bytes (k # ks) counts = release_bytes ks (counts[k := counts ! k - 1])"

text \<open>\<open>remove_by_id\<close> for each key: the state is dropped, with its view unless that was taken.\<close>

fun remove_ids ::
  "('s, 'tx transaction_state) slab \<Rightarrow> 's \<times> nat list \<Rightarrow> nat list \<Rightarrow> ('s \<times> nat list) option" where
  "remove_ids S (c, counts) [] = Some (c, counts)"
| "remove_ids S (c, counts) (container_id # rest) =
     do {
       state \<leftarrow> slab_get S c container_id;
       c' \<leftarrow> slab_remove S c container_id;
       remove_ids S
         (c', release_bytes (if transaction state = None then [] else [container_id]) counts) rest
     }"

definition destroy_bundle ::
  "('s, 'tx transaction_state) slab \<Rightarrow> 's bundle_storage \<Rightarrow> 'tx bundle_storage_entry \<Rightarrow>
   's bundle_storage option" where
  "destroy_bundle S self bundle =
     do {
       (c, counts) \<leftarrow> remove_ids S (container self, bytes_buffer self) (entry_container_ids bundle);
       Some (self\<lparr>container := c, bytes_buffer :=
         release_bytes (map fst (zip (entry_container_ids bundle) (entry_transactions bundle))) counts\<rparr>)
     }"

text \<open>
  The loop of \<open>pop_bundle\<close> that, once per slot, pops the buffered bundles from the back and
  pushes them to the front of the unprocessed ones.
\<close>

function (sequential) drain_buffered :: "'b list \<Rightarrow> 'b list \<Rightarrow> 'b list" where
  "drain_buffered [] unprocessed = unprocessed"
| "drain_buffered buffered unprocessed =
     drain_buffered (butlast buffered) (last buffered # unprocessed)"
  by pat_completeness auto
termination
  by (relation "measure (\<lambda>(buffered, unprocessed). length buffered)") auto

fun take_transactions ::
  "('s, 'tx transaction_state) slab \<Rightarrow> 's \<Rightarrow> nat list \<Rightarrow> (('tx \<times> max_age) list \<times> 's) option" where
  "take_transactions S c [] = Some ([], c)"
| "take_transactions S c (container_id # rest) =
     do {
       state \<leftarrow> slab_get S c container_id;
       (taken, state') \<leftarrow> take_transaction_for_scheduling state;
       (others, c') \<leftarrow> take_transactions S (slab_put S c container_id state') rest;
       Some (taken # others, c')
     }"

definition refresh_for_slot :: "'s bundle_storage \<Rightarrow> slot \<Rightarrow> 's bundle_storage" where
  "refresh_for_slot self slot =
     (if slot \<noteq> last_slot self
      then self\<lparr>unprocessed_bundles :=
              drain_buffered (cost_model_buffered_bundles self) (unprocessed_bundles self),
             cost_model_buffered_bundles := [], last_slot := slot\<rparr>
      else self)"

definition pop_bundle ::
  "('s, 'tx transaction_state) slab \<Rightarrow> 's bundle_storage \<Rightarrow> slot \<Rightarrow>
   ('s bundle_storage \<times> 'tx bundle_storage_entry option) option" where
  "pop_bundle S self slot =
     (let self = refresh_for_slot self slot in
      case unprocessed_bundles self of
        [] \<Rightarrow> Some (self, None)
      | bundle # unprocessed \<Rightarrow>
          do {
            (taken, c) \<leftarrow> take_transactions S (container self) (container_ids bundle);
            Some (self\<lparr>unprocessed_bundles := unprocessed, container := c\<rparr>,
              Some \<lparr>entry_container_ids = container_ids bundle,
                entry_transactions = map fst taken, entry_max_ages = map snd taken,
                entry_intended_slot = intended_slot bundle\<rparr>)
          })"

fun find_discard :: "nat \<Rightarrow> packet list \<Rightarrow> nat option" where
  "find_discard idx [] = None"
| "find_discard idx (packet # rest) =
     (if discard packet then Some idx else find_discard (Suc idx) rest)"

text \<open>
  \<open>try_insert_map_only_with_data\<close>. It panics when the slab is at its capacity, when the key has
  no buffer, and when the buffer of the key is still shared with a view. The view that
  \<open>handle\<close> builds takes a reference to the buffer; on an error the reference is dropped.
\<close>

definition try_insert_map_only_with_data ::
  "('s, 'tx transaction_state) slab \<Rightarrow>
   (u8 list \<Rightarrow> (packet_handling_error, 'tx transaction_state) result) \<Rightarrow>
   's \<times> nat list \<Rightarrow> u8 list \<Rightarrow>
   (('s \<times> nat list) \<times> (packet_handling_error, nat) result) option" where
  "try_insert_map_only_with_data S handle self data =
     (let (c, counts) = self; transaction_id = slab_vacant_key S c in
      if \<not> slab_len S c < slab_capacity S c then None
      else if \<not> transaction_id < length counts then None
      else if counts ! transaction_id \<noteq> 1 then None
      else (case handle data of
              Inr state \<Rightarrow>
                Some ((slab_insert S c state, counts[transaction_id := counts ! transaction_id + 1]),
                  Inr transaction_id)
            | Inl e \<Rightarrow> Some ((c, counts), Inl e)))"

text \<open>
  The insertion loop of \<open>insert_bundle\<close>: a packet that is rejected rolls the earlier ones back.
\<close>

fun insert_packets ::
  "('s, 'tx transaction_state) slab \<Rightarrow>
   (u8 list \<Rightarrow> (packet_handling_error, 'tx transaction_state) result) \<Rightarrow>
   's \<times> nat list \<Rightarrow> nat list \<Rightarrow> nat \<Rightarrow> packet list \<Rightarrow>
   (('s \<times> nat list) \<times> (bundle_storage_error, nat list) result) option" where
  "insert_packets S handle self ids idx [] = Some (self, Inr ids)"
| "insert_packets S handle self ids idx (packet # rest) =
     (case packet_data packet of
        None \<Rightarrow> None
      | Some data \<Rightarrow>
          (case try_insert_map_only_with_data S handle self data of
             None \<Rightarrow> None
           | Some (self', Inr container_id) \<Rightarrow>
               insert_packets S handle self' (ids @ [container_id]) (Suc idx) rest
           | Some (self', Inl e) \<Rightarrow>
               (case remove_ids S self' ids of
                  None \<Rightarrow> None
                | Some self'' \<Rightarrow> Some (self'', Inl (PacketFilterError e idx)))))"

fun contains_duplicate_hashes ::
  "('s, 'tx transaction_state) slab \<Rightarrow> ('tx \<Rightarrow> hash) \<Rightarrow> 's \<Rightarrow> hash list \<Rightarrow> nat list \<Rightarrow> bool option" where
  "contains_duplicate_hashes S message_hash c seen [] = Some False"
| "contains_duplicate_hashes S message_hash c seen (container_id # rest) =
     do {
       state \<leftarrow> slab_get S c container_id;
       tx \<leftarrow> transaction state;
       if message_hash tx \<in> set seen then Some True
       else if length seen = MAX_PACKETS_PER_BUNDLE then None
       else contains_duplicate_hashes S message_hash c (seen @ [message_hash tx]) rest
     }"

definition insert_bundle ::
  "('s, 'tx transaction_state) slab \<Rightarrow> ('tx \<Rightarrow> hash) \<Rightarrow>
   (u8 list \<Rightarrow> (packet_handling_error, 'tx transaction_state) result) \<Rightarrow>
   's bundle_storage \<Rightarrow> packet list \<Rightarrow> slot \<Rightarrow>
   ('s bundle_storage \<times> (bundle_storage_error, unit) result) option" where
  "insert_bundle S message_hash handle self batch working_slot =
     (if batch = [] then Some (self, Inl EmptyBatch)
      else if length batch > MAX_PACKETS_PER_BUNDLE then Some (self, Inl BundleTooLarge)
      else case find_discard 0 batch of
        Some idx \<Rightarrow> Some (self, Inl (PacketMarkedDiscard idx))
      | None \<Rightarrow>
          if slab_len S (container self) + length batch > transaction_capacity self
          then Some (self, Inl ContainerFull)
          else do {
            ((c, counts), inserted) \<leftarrow>
              insert_packets S handle (container self, bytes_buffer self) [] 0 batch;
            case inserted of
              Inl e \<Rightarrow> Some (self\<lparr>container := c, bytes_buffer := counts\<rparr>, Inl e)
            | Inr ids \<Rightarrow>
                do {
                  duplicate \<leftarrow> contains_duplicate_hashes S message_hash c [] ids;
                  if duplicate
                  then do {
                    (c', counts') \<leftarrow> remove_ids S (c, counts) ids;
                    Some (self\<lparr>container := c', bytes_buffer := counts'\<rparr>, Inl DuplicateTransaction)
                  }
                  else Some (self\<lparr>container := c, bytes_buffer := counts, unprocessed_bundles := unprocessed_bundles self @
                      [\<lparr>container_ids = ids, intended_slot = working_slot\<rparr>]\<rparr>, Inr ())
                }
          })"

definition clear_bundles ::
  "('s, 'tx transaction_state) slab \<Rightarrow> 's bundle_storage \<Rightarrow> 's bundle_storage option" where
  "clear_bundles S self =
     do {
       c \<leftarrow> remove_ids S (container self, bytes_buffer self)
         (concat (map container_ids (unprocessed_bundles self)));
       c' \<leftarrow> remove_ids S c (concat (map container_ids (cost_model_buffered_bundles self)));
       Some (self\<lparr>container := fst c', bytes_buffer := snd c', unprocessed_bundles := [], cost_model_buffered_bundles := []\<rparr>)
     }"

section \<open>Laws of the slab, one operation at a time\<close>

lemma drain_buffered_eq [simp]: "drain_buffered buffered unprocessed = buffered @ unprocessed"
proof (induction buffered unprocessed rule: drain_buffered.induct)
  case (2 b bs us)
  have "butlast (b # bs) @ [last (b # bs)] = b # bs" by (rule append_butlast_last_id) simp
  with 2 show ?case by (metis append.assoc append_Cons append_Nil drain_buffered.simps(2))
qed simp

lemma slab_finite:
  assumes "slab_laws S ok" "ok s"
  shows "finite (occupied S s)" "slab_len S s = card (occupied S s)"
    "slab_vacant_key S s \<notin> occupied S s"
    "slab_len S s < slab_capacity S s \<Longrightarrow> slab_vacant_key S s < slab_capacity S s"
  using assms unfolding slab_laws_def by blast+

lemma slab_insertD:
  assumes "slab_laws S ok" "ok s"
  shows "ok (slab_insert S s v)"
    "slab_get S (slab_insert S s v) = (slab_get S s)(slab_vacant_key S s \<mapsto> v)"
    "slab_len S s < slab_capacity S s \<Longrightarrow> slab_capacity S (slab_insert S s v) = slab_capacity S s"
  using assms unfolding slab_laws_def by blast+

lemma slab_putD:
  assumes "slab_laws S ok" "ok s" "slab_get S s k = Some u"
  shows "ok (slab_put S s k v)" "slab_get S (slab_put S s k v) = (slab_get S s)(k \<mapsto> v)"
    "slab_capacity S (slab_put S s k v) = slab_capacity S s"
  using assms unfolding slab_laws_def by blast+

lemma slab_removeE:
  assumes "slab_laws S ok" "ok s" "k \<in> occupied S s"
  obtains s' where "slab_remove S s k = Some s'" "ok s'" "slab_get S s' = (slab_get S s)(k := None)"
    "slab_capacity S s' = slab_capacity S s"
  using assms unfolding slab_laws_def by blast

definition available :: "('s, 'tx transaction_state) slab \<Rightarrow> 's \<Rightarrow> nat \<Rightarrow> bool" where
  "available S c k \<longleftrightarrow> (\<exists>state. slab_get S c k = Some state \<and> transaction state \<noteq> None)"

definition pending :: "('s, 'tx transaction_state) slab \<Rightarrow> 's \<Rightarrow> nat \<Rightarrow> bool" where
  "pending S c k \<longleftrightarrow> (\<exists>state. slab_get S c k = Some state \<and> transaction state = None)"

lemma available_pending_occupied: "k \<in> occupied S c \<longleftrightarrow> available S c k \<or> pending S c k"
  by (auto simp: available_def pending_def)

lemma length_release_bytes [simp]: "length (release_bytes ks counts) = length counts"
  by (induction ks counts rule: release_bytes.induct) simp_all

lemma release_bytes_append: "release_bytes (ks @ ls) counts = release_bytes ls (release_bytes ks counts)"
  by (induction ks counts rule: release_bytes.induct) simp_all

lemma release_bytes_nth:
  "distinct ks \<Longrightarrow> k < length counts \<Longrightarrow>
   release_bytes ks counts ! k = (if k \<in> set ks then counts ! k - 1 else counts ! k)"
proof (induction ks counts rule: release_bytes.induct)
  case (2 l ks counts)
  then show ?case by (cases "k = l") simp_all
qed simp

lemma remove_ids_ok:
  assumes "slab_laws S ok"
  shows "ok c \<Longrightarrow> distinct ids \<Longrightarrow> set ids \<subseteq> occupied S c \<Longrightarrow>
    \<exists>c'. remove_ids S (c, counts) ids = Some (c', release_bytes (filter (available S c) ids) counts) \<and>
      ok c' \<and> slab_capacity S c' = slab_capacity S c \<and> slab_get S c' = slab_get S c |` (- set ids)"
proof (induction ids arbitrary: c counts)
  case Nil
  then show ?case by simp
next
  case (Cons k ids)
  obtain state where st: "slab_get S c k = Some state" using Cons.prems(3) by auto
  obtain c1 where c1: "slab_remove S c k = Some c1" "ok c1"
    "slab_get S c1 = (slab_get S c)(k := None)" "slab_capacity S c1 = slab_capacity S c"
    using slab_removeE [OF assms Cons.prems(1), of k] Cons.prems(3) by auto
  let ?n = "release_bytes (if transaction state = None then [] else [k]) counts"
  have "set ids \<subseteq> occupied S c1"
    using Cons.prems(2,3) by (auto simp: c1(3))
  then obtain c' where c': "remove_ids S (c1, ?n) ids = Some (c', release_bytes (filter (available S c1) ids) ?n)"
    "ok c'" "slab_capacity S c' = slab_capacity S c1" "slab_get S c' = slab_get S c1 |` (- set ids)"
    using Cons.IH [OF c1(2)] Cons.prems(2) by auto
  have "filter (available S c1) ids = filter (available S c) ids"
    using Cons.prems(2) by (intro filter_cong) (auto simp: available_def c1(3))
  then have "release_bytes (filter (available S c1) ids) ?n = release_bytes (filter (available S c) (k # ids)) counts"
    by (simp add: available_def st)
  then show ?case
    using c' c1 st by (auto simp: restrict_map_def fun_eq_iff)
qed

text \<open>
  Every buffer has one reference of its own, and one more when a view of its key is alive: in
  the slab, or in a bundle that was popped.
\<close>

definition buffer_ok :: "('s, 'v) slab \<Rightarrow> 's \<Rightarrow> nat list \<Rightarrow> bool" where
  "buffer_ok S c counts \<longleftrightarrow> length counts = slab_capacity S c \<and> occupied S c \<subseteq> {..<length counts} \<and>
     (\<forall>k < length counts. counts ! k = (if k \<in> occupied S c then 2 else 1))"

lemma buffer_ok_same:
  "buffer_ok S c counts \<Longrightarrow> occupied S c' = occupied S c \<Longrightarrow> slab_capacity S c' = slab_capacity S c \<Longrightarrow>
   buffer_ok S c' counts"
  unfolding buffer_ok_def by metis

lemma buffer_ok_release:
  assumes "buffer_ok S c counts" "distinct ids" "set ids \<subseteq> occupied S c"
    "slab_get S c' = slab_get S c |` (- set ids)" "slab_capacity S c' = slab_capacity S c"
  shows "buffer_ok S c' (release_bytes ids counts)"
proof -
  have "occupied S c' = occupied S c - set ids" using assms(4) by (auto simp del: domIff)
  then show ?thesis
    using assms(1,2,3,5) by (auto simp: buffer_ok_def release_bytes_nth simp del: domIff)
qed

lemma buffer_ok_insert:
  assumes laws: "slab_laws S ok" and c: "ok c" and buffer: "buffer_ok S c counts"
    and fits: "slab_len S c < slab_capacity S c"
  shows "slab_vacant_key S c < length counts" "counts ! slab_vacant_key S c = 1"
    "buffer_ok S (slab_insert S c v) (counts[slab_vacant_key S c := 2])"
proof -
  note ins = slab_insertD [OF laws c, of v]
  have occ: "occupied S (slab_insert S c v) = insert (slab_vacant_key S c) (occupied S c)"
    by (simp add: ins(2))
  have fresh: "slab_vacant_key S c \<notin> occupied S c" using slab_finite(3) [OF laws c] .
  show key: "slab_vacant_key S c < length counts" using buffer slab_finite(4) [OF laws c fits] by (simp add: buffer_ok_def)
  show "counts ! slab_vacant_key S c = 1" using buffer key fresh by (auto simp: buffer_ok_def)
  show "buffer_ok S (slab_insert S c v) (counts[slab_vacant_key S c := 2])"
    using buffer key ins(3) [OF fits] unfolding buffer_ok_def occ
    by (auto simp: nth_list_update simp del: domIff)
qed

lemma take_transactions_ok:
  assumes "slab_laws S ok"
  shows "ok c \<Longrightarrow> distinct ids \<Longrightarrow> \<forall>k \<in> set ids. available S c k \<Longrightarrow>
    \<exists>taken c'. take_transactions S c ids = Some (taken, c') \<and> length taken = length ids \<and> ok c' \<and>
      slab_capacity S c' = slab_capacity S c \<and> (\<forall>k \<in> set ids. pending S c' k) \<and>
      (\<forall>k. k \<notin> set ids \<longrightarrow> slab_get S c' k = slab_get S c k)"
proof (induction ids arbitrary: c)
  case Nil
  then show ?case by simp
next
  case (Cons k ids)
  obtain state tx where st: "slab_get S c k = Some state" "transaction state = Some tx"
    using Cons.prems(3) by (auto simp: available_def)
  let ?c = "slab_put S c k (state\<lparr>transaction := None\<rparr>)"
  note put = slab_putD [OF assms Cons.prems(1) st(1), of "state\<lparr>transaction := None\<rparr>"]
  have "\<forall>j \<in> set ids. available S ?c j"
    using Cons.prems(2,3) by (auto simp: available_def put(2))
  then obtain taken c' where rec: "take_transactions S ?c ids = Some (taken, c')"
    "length taken = length ids" "ok c'" "slab_capacity S c' = slab_capacity S ?c"
    "\<forall>k \<in> set ids. pending S c' k" "\<forall>k. k \<notin> set ids \<longrightarrow> slab_get S c' k = slab_get S ?c k"
    using Cons.IH [OF put(1)] Cons.prems(2) by auto
  have "pending S c' k"
    using rec(6) Cons.prems(2) by (auto simp: pending_def put(2))
  then show ?case
    using st rec put(2,3) by (auto simp: take_transaction_for_scheduling_def)
qed

lemma retry_transactions_ok:
  assumes "slab_laws S ok"
  shows "ok c \<Longrightarrow> distinct (map fst kts) \<Longrightarrow> \<forall>k \<in> fst ` set kts. pending S c k \<Longrightarrow>
    \<exists>c'. retry_transactions S c kts = Some c' \<and> ok c' \<and> slab_capacity S c' = slab_capacity S c \<and>
      (\<forall>k \<in> fst ` set kts. available S c' k) \<and>
      (\<forall>k. k \<notin> fst ` set kts \<longrightarrow> slab_get S c' k = slab_get S c k)"
proof (induction kts arbitrary: c)
  case Nil
  then show ?case by simp
next
  case (Cons kt kts)
  obtain k tx where kt: "kt = (k, tx)" by (cases kt)
  obtain state where st: "slab_get S c k = Some state" "transaction state = None"
    using Cons.prems(3) kt by (auto simp: pending_def)
  let ?c = "slab_put S c k (state\<lparr>transaction := Some tx\<rparr>)"
  note put = slab_putD [OF assms Cons.prems(1) st(1), of "state\<lparr>transaction := Some tx\<rparr>"]
  have "\<forall>j \<in> fst ` set kts. pending S ?c j"
    using Cons.prems(2,3) kt by (auto simp: pending_def put(2))
  then obtain c' where rec: "retry_transactions S ?c kts = Some c'"
    "ok c'" "slab_capacity S c' = slab_capacity S ?c" "\<forall>k \<in> fst ` set kts. available S c' k"
    "\<forall>k. k \<notin> fst ` set kts \<longrightarrow> slab_get S c' k = slab_get S ?c k"
    using Cons.IH [OF put(1)] Cons.prems(2) by auto
  have "available S c' k"
    using rec(5) Cons.prems(2) kt by (auto simp: available_def put(2))
  then show ?case
    using st rec put(2,3) kt by (auto simp: retry_transaction_def)
qed

section \<open>The invariant of the storage\<close>

text \<open>
  Every occupied slab entry belongs to exactly one bundle, which is queued, buffered or
  popped and not finished (\<open>out\<close>); the transactions of the former two are there, those of
  the popped ones are taken.
\<close>

definition queued_ids :: "'s bundle_storage \<Rightarrow> nat list" where
  "queued_ids st = concat (map container_ids (unprocessed_bundles st)) @
     concat (map container_ids (cost_model_buffered_bundles st))"

definition out_ids :: "'tx bundle_storage_entry list \<Rightarrow> nat list" where
  "out_ids out = concat (map entry_container_ids out)"

definition storage_inv ::
  "('s, 'tx transaction_state) slab \<Rightarrow> ('s \<Rightarrow> bool) \<Rightarrow> 's bundle_storage \<Rightarrow>
   'tx bundle_storage_entry list \<Rightarrow> bool" where
  "storage_inv S ok st out \<longleftrightarrow>
     ok (container st) \<and> distinct (queued_ids st @ out_ids out) \<and>
     occupied S (container st) = set (queued_ids st @ out_ids out) \<and>
     (\<forall>k \<in> set (queued_ids st). available S (container st) k) \<and>
     (\<forall>e \<in> set out. length (entry_transactions e) = length (entry_container_ids e)) \<and>
     (\<forall>k \<in> set (out_ids out). pending S (container st) k) \<and>
     transaction_capacity st \<le> slab_capacity S (container st) \<and>
     buffer_ok S (container st) (bytes_buffer st)"

lemma out_ids_simps [simp]:
  "out_ids [] = []" "out_ids (e # out) = entry_container_ids e @ out_ids out"
  "out_ids (out @ out') = out_ids out @ out_ids out'"
  by (simp_all add: out_ids_def)

lemma refresh_for_slot_inv [simp]:
  "storage_inv S ok (refresh_for_slot st slot) out \<longleftrightarrow> storage_inv S ok st out"
  by (auto simp: storage_inv_def refresh_for_slot_def queued_ids_def)

lemma pop_bundle_ok:
  assumes "slab_laws S ok" "storage_inv S ok st out"
  obtains (none) st' where "pop_bundle S st slot = Some (st', None)" "storage_inv S ok st' out"
      "st' = refresh_for_slot st slot" "unprocessed_bundles st' = []"
  | (some) st' e b bs where "pop_bundle S st slot = Some (st', Some e)" "storage_inv S ok st' (out @ [e])"
      "unprocessed_bundles (refresh_for_slot st slot) = b # bs"
      "entry_container_ids e = container_ids b" "entry_intended_slot e = intended_slot b"
      "unprocessed_bundles st' = bs" "last_slot st' = slot"
      "cost_model_buffered_bundles st' = cost_model_buffered_bundles (refresh_for_slot st slot)"
proof (cases "unprocessed_bundles (refresh_for_slot st slot)")
  case Nil
  then show ?thesis
    using none [of "refresh_for_slot st slot"] assms(2) by (simp add: pop_bundle_def)
next
  case (Cons b bs)
  let ?st = "refresh_for_slot st slot"
  have inv: "storage_inv S ok ?st out" using assms(2) by simp
  have q: "queued_ids ?st = container_ids b @
      (concat (map container_ids bs) @ concat (map container_ids (cost_model_buffered_bundles ?st)))"
    by (simp add: queued_ids_def Cons)
  have "ok (container ?st)" "distinct (container_ids b)"
    "\<forall>k \<in> set (container_ids b). available S (container ?st) k"
    using inv by (auto simp: storage_inv_def q)
  then obtain taken c' where t: "take_transactions S (container ?st) (container_ids b) = Some (taken, c')"
    "length taken = length (container_ids b)" "ok c'"
    "slab_capacity S c' = slab_capacity S (container ?st)" "\<forall>k \<in> set (container_ids b). pending S c' k"
    "\<forall>k. k \<notin> set (container_ids b) \<longrightarrow> slab_get S c' k = slab_get S (container ?st) k"
    using take_transactions_ok [OF assms(1)] by blast
  let ?st' = "?st\<lparr>unprocessed_bundles := bs, container := c'\<rparr>"
  let ?e = "\<lparr>entry_container_ids = container_ids b, entry_transactions = map fst taken,
    entry_max_ages = map snd taken, entry_intended_slot = intended_slot b\<rparr>"
  have pop: "pop_bundle S st slot = Some (?st', Some ?e)"
    by (simp add: pop_bundle_def Cons t(1))
  have same: "available S c' k \<longleftrightarrow> available S (container ?st) k"
    "pending S c' k \<longleftrightarrow> pending S (container ?st) k" if "k \<notin> set (container_ids b)" for k
    using t(6) that by (auto simp: available_def pending_def)
  have occ: "occupied S c' = occupied S (container ?st)"
    using t(5,6) \<open>\<forall>k \<in> set (container_ids b). available S (container ?st) k\<close>
    by (auto simp: set_eq_iff available_pending_occupied same simp del: domIff)
  have q': "queued_ids ?st = container_ids b @ queued_ids ?st'" by (simp add: queued_ids_def Cons)
  have dis: "k \<notin> set (container_ids b)" if "k \<in> set (queued_ids ?st') \<union> set (out_ids out)" for k
    using inv that by (auto simp: storage_inv_def q')
  have "buffer_ok S c' (bytes_buffer ?st)"
    using inv by (intro buffer_ok_same [OF _ occ t(4)]) (simp add: storage_inv_def)
  then have "storage_inv S ok ?st' (out @ [?e])"
    using inv t(2,3,4,5) dis unfolding storage_inv_def q'
    by (auto simp: occ same simp del: domIff)
  with pop show ?thesis
    by (rule some) (simp_all add: Cons, simp add: refresh_for_slot_def)
qed

lemma retry_bundle_ok:
  assumes "slab_laws S ok" "storage_inv S ok st (e # out)"
  obtains st' where "retry_bundle S st e = Some st'" "storage_inv S ok st' out"
    "unprocessed_bundles st' = unprocessed_bundles st" "last_slot st' = last_slot st"
    "cost_model_buffered_bundles st' = cost_model_buffered_bundles st @
      [\<lparr>container_ids = entry_container_ids e, intended_slot = entry_intended_slot e\<rparr>]"
proof -
  let ?kts = "zip (entry_container_ids e) (entry_transactions e)"
  have len: "length (entry_container_ids e) = length (entry_transactions e)"
    using assms(2) by (auto simp: storage_inv_def)
  have ids: "map fst ?kts = entry_container_ids e" by (simp add: len)
  then have ids': "fst ` set ?kts = set (entry_container_ids e)"
    by (metis set_map)
  have "ok (container st)" "distinct (map fst ?kts)" "\<forall>k \<in> fst ` set ?kts. pending S (container st) k"
    unfolding ids ids' using assms(2) by (auto simp: storage_inv_def)
  then obtain c' where c': "retry_transactions S (container st) ?kts = Some c'" "ok c'"
    "slab_capacity S c' = slab_capacity S (container st)"
    "\<forall>k \<in> set (entry_container_ids e). available S c' k"
    "\<forall>k. k \<notin> set (entry_container_ids e) \<longrightarrow> slab_get S c' k = slab_get S (container st) k"
    using retry_transactions_ok [OF assms(1), of "container st" ?kts] unfolding ids' by blast
  let ?st' = "st\<lparr>container := c', cost_model_buffered_bundles := cost_model_buffered_bundles st @
    [\<lparr>container_ids = entry_container_ids e, intended_slot = entry_intended_slot e\<rparr>]\<rparr>"
  have same: "available S c' k \<longleftrightarrow> available S (container st) k"
    "pending S c' k \<longleftrightarrow> pending S (container st) k" if "k \<notin> set (entry_container_ids e)" for k
    using c'(5) that by (auto simp: available_def pending_def)
  have pend: "\<forall>k \<in> set (entry_container_ids e). pending S (container st) k"
    using assms(2) by (auto simp: storage_inv_def)
  have occ: "occupied S c' = occupied S (container st)"
    using c'(4) pend by (auto simp: set_eq_iff available_pending_occupied same simp del: domIff)
  have dis: "k \<notin> set (entry_container_ids e)" if "k \<in> set (queued_ids st) \<union> set (out_ids out)" for k
    using assms(2) that by (auto simp: storage_inv_def)
  have "buffer_ok S c' (bytes_buffer st)"
    using assms(2) by (intro buffer_ok_same [OF _ occ c'(3)]) (simp add: storage_inv_def)
  moreover have "queued_ids ?st' = queued_ids st @ entry_container_ids e" by (simp add: queued_ids_def)
  ultimately have "storage_inv S ok ?st' out"
    using assms(2) c'(2,3,4) dis unfolding storage_inv_def
    by (auto simp: occ same simp del: domIff)
  moreover have "retry_bundle S st e = Some ?st'"
    by (simp add: retry_bundle_def c'(1))
  ultimately show ?thesis by (intro that [of ?st']) simp_all
qed

lemma available_restrict:
  assumes "slab_get S c' = slab_get S c |` (- A)" "k \<notin> A"
  shows "available S c' k \<longleftrightarrow> available S c k" "pending S c' k \<longleftrightarrow> pending S c k"
  using assms by (auto simp: available_def pending_def)

lemma destroy_bundle_ok:
  assumes "slab_laws S ok" "storage_inv S ok st (e # out)"
  obtains st' where "destroy_bundle S st e = Some st'" "storage_inv S ok st' out"
    "unprocessed_bundles st' = unprocessed_bundles st" "last_slot st' = last_slot st"
    "cost_model_buffered_bundles st' = cost_model_buffered_bundles st"
proof -
  have "ok (container st)" "distinct (entry_container_ids e)"
    "set (entry_container_ids e) \<subseteq> occupied S (container st)"
    using assms(2) by (auto simp: storage_inv_def)
  moreover have "pending S (container st) k" if "k \<in> set (entry_container_ids e)" for k
    using assms(2) that by (simp add: storage_inv_def)
  then have "\<not> available S (container st) k" if "k \<in> set (entry_container_ids e)" for k
    using that by (fastforce simp: available_def pending_def)
  ultimately obtain c' where c': "remove_ids S (container st, bytes_buffer st) (entry_container_ids e) =
      Some (c', bytes_buffer st)" "ok c'"
    "slab_capacity S c' = slab_capacity S (container st)"
    "slab_get S c' = slab_get S (container st) |` (- set (entry_container_ids e))"
    using remove_ids_ok [OF assms(1), of "container st" "entry_container_ids e" "bytes_buffer st"]
    by (auto simp: filter_empty_conv [THEN iffD2])
  have occ: "occupied S c' = occupied S (container st) - set (entry_container_ids e)"
    by (auto simp: c'(4) simp del: domIff)
  have dis: "k \<notin> set (entry_container_ids e)" if "k \<in> set (queued_ids st) \<union> set (out_ids out)" for k
    using assms(2) that by (auto simp: storage_inv_def)
  let ?n = "release_bytes (entry_container_ids e) (bytes_buffer st)"
  let ?st' = "st\<lparr>container := c', bytes_buffer := ?n\<rparr>"
  have "buffer_ok S c' ?n"
    using assms(2) by (intro buffer_ok_release [OF _ _ _ c'(4,3)]) (auto simp: storage_inv_def)
  moreover have "queued_ids ?st' = queued_ids st" by (simp add: queued_ids_def)
  ultimately have "storage_inv S ok ?st' out"
    using assms(2) c'(2,3) dis unfolding storage_inv_def
    by (auto simp: occ available_restrict [OF c'(4)] simp del: domIff)
  moreover have "length (entry_transactions e) = length (entry_container_ids e)"
    using assms(2) by (simp add: storage_inv_def)
  then have "destroy_bundle S st e = Some ?st'"
    by (simp add: destroy_bundle_def c'(1))
  ultimately show ?thesis by (intro that [of ?st']) simp_all
qed

lemma clear_bundles_ok:
  assumes "slab_laws S ok" "storage_inv S ok st out"
  obtains st' where "clear_bundles S st = Some st'" "storage_inv S ok st' out" "queued_ids st' = []"
    "last_slot st' = last_slot st" "occupied S (container st') = set (out_ids out)"
proof -
  let ?us = "concat (map container_ids (unprocessed_bundles st))"
  let ?bs = "concat (map container_ids (cost_model_buffered_bundles st))"
  have q: "queued_ids st = ?us @ ?bs" by (simp add: queued_ids_def)
  let ?n1 = "release_bytes ?us (bytes_buffer st)" and ?n2 = "release_bytes (?us @ ?bs) (bytes_buffer st)"
  have avail: "available S (container st) k" if "k \<in> set (queued_ids st)" for k
    using assms(2) that by (simp add: storage_inv_def)
  have "ok (container st)" "distinct ?us" "set ?us \<subseteq> occupied S (container st)"
    using assms(2) by (auto simp: storage_inv_def q)
  moreover have "filter (available S (container st)) ?us = ?us"
    using avail by (intro filter_True) (auto simp: q)
  ultimately obtain c1 where c1: "remove_ids S (container st, bytes_buffer st) ?us = Some (c1, ?n1)" "ok c1"
    "slab_capacity S c1 = slab_capacity S (container st)"
    "slab_get S c1 = slab_get S (container st) |` (- set ?us)"
    using remove_ids_ok [OF assms(1), of "container st" ?us "bytes_buffer st"] by auto
  have dis1: "k \<notin> set ?us" if "k \<in> set ?bs" for k
    using assms(2) that by (auto simp: storage_inv_def q)
  have "distinct ?bs" "set ?bs \<subseteq> occupied S c1"
    using assms(2) by (auto simp: storage_inv_def q c1(4))
  moreover have "filter (available S c1) ?bs = ?bs"
    using avail dis1 by (intro filter_True ballI) (simp add: available_restrict [OF c1(4)] q)
  ultimately obtain c2 where c2: "remove_ids S (c1, ?n1) ?bs = Some (c2, ?n2)" "ok c2"
    "slab_capacity S c2 = slab_capacity S c1" "slab_get S c2 = slab_get S c1 |` (- set ?bs)"
    using remove_ids_ok [OF assms(1) c1(2), of ?bs ?n1] by (auto simp: release_bytes_append)
  let ?st' = "st\<lparr>container := c2, bytes_buffer := ?n2, unprocessed_bundles := [], cost_model_buffered_bundles := []\<rparr>"
  have get: "slab_get S c2 = slab_get S (container st) |` (- set (queued_ids st))"
    by (auto simp: c2(4) c1(4) q restrict_map_def fun_eq_iff)
  have occ: "occupied S c2 = set (out_ids out)"
    using assms(2) by (auto simp: get storage_inv_def simp del: domIff)
  have dis: "k \<notin> set (queued_ids st)" if "k \<in> set (out_ids out)" for k
    using assms(2) that by (auto simp: storage_inv_def)
  have "buffer_ok S c2 ?n2"
    using assms(2) c2(3) c1(3) q get by (intro buffer_ok_release [of S "container st"]) (auto simp: storage_inv_def)
  then have "storage_inv S ok ?st' out"
    using assms(2) c2(2,3) c1(3) dis unfolding storage_inv_def
    by (auto simp: queued_ids_def [of ?st'] occ available_restrict [OF get] simp del: domIff)
  moreover have "clear_bundles S st = Some ?st'"
    by (simp add: clear_bundles_def c1(1) c2(1))
  ultimately show ?thesis
    using occ by (intro that [of ?st']) (simp_all add: queued_ids_def)
qed

text \<open>
  Inserting the packets of a batch: either all of them are in the slab under fresh keys, or
  the slab has the contents it had.
\<close>

lemma insert_packets_ok:
  assumes laws: "slab_laws S ok"
    and handled: "\<And>bytes state. handle bytes = Inr state \<Longrightarrow> transaction state \<noteq> None"
  shows "ok c \<Longrightarrow> buffer_ok S c counts \<Longrightarrow> distinct ids \<Longrightarrow> set ids \<inter> occupied S c0 = {} \<Longrightarrow>
    occupied S c = occupied S c0 \<union> set ids \<Longrightarrow> slab_get S c |` (- set ids) = slab_get S c0 \<Longrightarrow>
    \<forall>k \<in> set ids. available S c k \<Longrightarrow> \<forall>p \<in> set batch. packet_data p \<noteq> None \<Longrightarrow>
    card (occupied S c) + length batch \<le> cap \<Longrightarrow> cap \<le> slab_capacity S c \<Longrightarrow>
    \<exists>c' counts' res. insert_packets S handle (c, counts) ids idx batch = Some ((c', counts'), res) \<and> ok c' \<and>
      cap \<le> slab_capacity S c' \<and> buffer_ok S c' counts' \<and>
      (case res of
         Inl e \<Rightarrow> slab_get S c' = slab_get S c0
       | Inr ids' \<Rightarrow> length ids' = length ids + length batch \<and> distinct ids' \<and>
           set ids' \<inter> occupied S c0 = {} \<and> occupied S c' = occupied S c0 \<union> set ids' \<and>
           slab_get S c' |` (- set ids') = slab_get S c0 \<and> (\<forall>k \<in> set ids'. available S c' k))"
proof (induction batch arbitrary: c counts ids idx)
  case Nil
  then show ?case by simp
next
  case (Cons p batch)
  obtain bytes where bytes: "packet_data p = Some bytes" using Cons.prems(8) by auto
  have fits: "slab_len S c < slab_capacity S c"
    using Cons.prems(9,10) slab_finite(2) [OF laws Cons.prems(1)] by simp
  note buffer = buffer_ok_insert [OF laws Cons.prems(1,2) fits]
  note try_ok = try_insert_map_only_with_data_def fits buffer(1,2)
  show ?case
  proof (cases "handle bytes")
    case (Inl e)
    have avail: "filter (available S c) ids = ids" using Cons.prems(7) by simp
    obtain c' where c': "remove_ids S (c, counts) ids = Some (c', release_bytes ids counts)" "ok c'"
      "slab_capacity S c' = slab_capacity S c" "slab_get S c' = slab_get S c |` (- set ids)"
      using remove_ids_ok [OF laws Cons.prems(1,3), of counts] Cons.prems(5) avail by auto
    have "buffer_ok S c' (release_bytes ids counts)"
      using Cons.prems(5) by (intro buffer_ok_release [OF Cons.prems(2,3) _ c'(4,3)]) simp
    then show ?thesis
      using Cons.prems(6,10) c' by (simp add: bytes try_ok Inl)
  next
    case (Inr state)
    let ?k = "slab_vacant_key S c" and ?c = "slab_insert S c state"
    note ins = slab_insertD [OF laws Cons.prems(1), of state]
    have fresh: "?k \<notin> occupied S c" using slab_finite(3) [OF laws Cons.prems(1)] .
    have fin: "finite (occupied S c)" using slab_finite(1) [OF laws Cons.prems(1)] .
    have occ: "occupied S ?c = insert ?k (occupied S c)" by (simp add: ins(2))
    have len: "length (ids @ [?k]) + length batch = length ids + length (p # batch)" by simp
    have step: "insert_packets S handle (c, counts) ids idx (p # batch) =
      insert_packets S handle (?c, counts[?k := 2]) (ids @ [?k]) (Suc idx) batch"
      by (simp add: bytes try_ok Inr Let_def numeral_2_eq_2)
    show ?thesis
      unfolding step len [symmetric]
    proof (rule Cons.IH)
      show "ok ?c" by (rule ins(1))
      show "buffer_ok S ?c (counts[?k := 2])" by (rule buffer(3))
      show "distinct (ids @ [?k])" "set (ids @ [?k]) \<inter> occupied S c0 = {}"
        using Cons.prems(3,4,5) fresh by auto
      show "occupied S ?c = occupied S c0 \<union> set (ids @ [?k])"
        using Cons.prems(5) by (simp add: occ)
      have "slab_get S ?c |` (- set (ids @ [?k])) = slab_get S c |` (- set ids)"
        using fresh by (auto simp: ins(2) restrict_map_def fun_eq_iff domIff)
      then show "slab_get S ?c |` (- set (ids @ [?k])) = slab_get S c0"
        by (simp only: Cons.prems(6))
      show "\<forall>k \<in> set (ids @ [?k]). available S ?c k"
        using Cons.prems(7) handled [OF Inr] by (auto simp: available_def ins(2))
      show "\<forall>p \<in> set batch. packet_data p \<noteq> None" using Cons.prems(8) by simp
      show "card (occupied S ?c) + length batch \<le> cap"
        using Cons.prems(9) fresh fin by (simp add: occ)
      show "cap \<le> slab_capacity S ?c" using Cons.prems(10) ins(3) [OF fits] by simp
    qed
  qed
qed

text \<open>The duplicate check compares the message hashes of all transactions of the bundle.\<close>

definition stored_tx :: "('s, 'tx transaction_state) slab \<Rightarrow> 's \<Rightarrow> nat \<Rightarrow> 'tx" where
  "stored_tx S c k = the (Option.bind (slab_get S c k) transaction)"

lemma contains_duplicate_hashes_eq:
  "\<forall>k \<in> set ids. available S c k \<Longrightarrow> distinct seen \<Longrightarrow>
   length seen + length ids \<le> MAX_PACKETS_PER_BUNDLE \<Longrightarrow>
   contains_duplicate_hashes S message_hash c seen ids =
     Some (\<not> distinct (seen @ map (\<lambda>k. message_hash (stored_tx S c k)) ids))"
proof (induction ids arbitrary: seen)
  case Nil
  then show ?case by simp
next
  case (Cons k ids)
  obtain state tx where st: "slab_get S c k = Some state" "transaction state = Some tx"
    using Cons.prems(1) by (auto simp: available_def)
  then have tx: "stored_tx S c k = tx" by (simp add: stored_tx_def)
  have room: "length seen \<noteq> MAX_PACKETS_PER_BUNDLE" using Cons.prems(3) by simp
  show ?case
  proof (cases "message_hash tx \<in> set seen")
    case True
    then show ?thesis using st tx by auto
  next
    case False
    then show ?thesis
      using Cons.IH [of "seen @ [message_hash tx]"] Cons.prems st tx room by simp
  qed
qed

lemma find_discard_None: "find_discard idx batch = None \<longleftrightarrow> (\<forall>p \<in> set batch. \<not> discard p)"
  by (induction batch arbitrary: idx) auto

text \<open>
  What the storage relies on from its callers: a packet that is not marked to be discarded
  has data, and the deserializer returns states that hold their transaction.
\<close>

definition handles_transactions ::
  "(u8 list \<Rightarrow> (packet_handling_error, 'tx transaction_state) result) \<Rightarrow> bool" where
  "handles_transactions handle \<longleftrightarrow> (\<forall>bytes state. handle bytes = Inr state \<longrightarrow> transaction state \<noteq> None)"

definition packets_have_data :: "packet list \<Rightarrow> bool" where
  "packets_have_data batch \<longleftrightarrow> (\<forall>p \<in> set batch. \<not> discard p \<longrightarrow> packet_data p \<noteq> None)"

definition insert_effect ::
  "('s, 'tx transaction_state) slab \<Rightarrow> ('tx \<Rightarrow> hash) \<Rightarrow> 's bundle_storage \<Rightarrow> packet list \<Rightarrow> slot \<Rightarrow>
   's bundle_storage \<Rightarrow> (bundle_storage_error, unit) result \<Rightarrow> bool" where
  "insert_effect S message_hash st batch slot st' res \<longleftrightarrow>
     last_slot st' = last_slot st \<and> transaction_capacity st' = transaction_capacity st \<and>
     cost_model_buffered_bundles st' = cost_model_buffered_bundles st \<and>
     (case res of
        Inl e \<Rightarrow> slab_get S (container st') = slab_get S (container st) \<and>
          unprocessed_bundles st' = unprocessed_bundles st
      | Inr u \<Rightarrow> \<exists>ids. length ids = length batch \<and> distinct ids \<and> set ids \<inter> occupied S (container st) = {} \<and>
          occupied S (container st') = occupied S (container st) \<union> set ids \<and>
          slab_get S (container st') |` (- set ids) = slab_get S (container st) \<and>
          distinct (map (\<lambda>k. message_hash (stored_tx S (container st') k)) ids) \<and>
          unprocessed_bundles st' = unprocessed_bundles st @
            [\<lparr>container_ids = ids, intended_slot = slot\<rparr>])"

lemma storage_inv_same_contents:
  assumes "storage_inv S ok st out" "ok c'" "transaction_capacity st \<le> slab_capacity S c'"
    "buffer_ok S c' counts" "slab_get S c' = slab_get S (container st)"
  shows "storage_inv S ok (st\<lparr>container := c', bytes_buffer := counts\<rparr>) out"
  using assms by (auto simp: storage_inv_def queued_ids_def available_def pending_def)

lemma storage_inv_appended:
  assumes inv: "storage_inv S ok st out" and c': "ok c'" "transaction_capacity st \<le> slab_capacity S c'"
      "buffer_ok S c' counts"
    and ids: "distinct ids" "set ids \<inter> occupied S (container st) = {}"
      "occupied S c' = occupied S (container st) \<union> set ids"
      "slab_get S c' |` (- set ids) = slab_get S (container st)" "\<forall>k \<in> set ids. available S c' k"
  shows "storage_inv S ok (st\<lparr>container := c', bytes_buffer := counts, unprocessed_bundles := unprocessed_bundles st @
    [\<lparr>container_ids = ids, intended_slot = slot\<rparr>]\<rparr>) out"
proof -
  let ?st' = "st\<lparr>container := c', bytes_buffer := counts, unprocessed_bundles := unprocessed_bundles st @
    [\<lparr>container_ids = ids, intended_slot = slot\<rparr>]\<rparr>"
  have q: "set (queued_ids ?st') = set (queued_ids st) \<union> set ids"
    "distinct (queued_ids ?st') \<longleftrightarrow> distinct (queued_ids st @ ids)"
    by (auto simp: queued_ids_def)
  have dis: "k \<notin> set ids" if "k \<in> set (queued_ids st) \<union> set (out_ids out)" for k
    using inv ids(2) that by (auto simp: storage_inv_def)
  have "slab_get S c' k = slab_get S (container st) k" if "k \<notin> set ids" for k
    using ids(4) that by (metis ComplI restrict_in)
  then have same: "available S c' k \<longleftrightarrow> available S (container st) k"
    "pending S c' k \<longleftrightarrow> pending S (container st) k" if "k \<notin> set ids" for k
    using that by (simp_all add: available_def pending_def)
  show ?thesis
    using inv c' ids(1,3,5) dis unfolding storage_inv_def distinct_append
    by (auto simp: q same simp del: domIff)
qed

lemma insert_bundle_ok:
  assumes laws: "slab_laws S ok" and inv: "storage_inv S ok st out"
    and handle: "handles_transactions handle" and data: "packets_have_data batch"
  shows "\<exists>st' res. insert_bundle S message_hash handle st batch slot = Some (st', res) \<and>
    storage_inv S ok st' out \<and> insert_effect S message_hash st batch slot st' res"
proof (cases "batch = [] \<or> length batch > MAX_PACKETS_PER_BUNDLE \<or> find_discard 0 batch \<noteq> None \<or>
    slab_len S (container st) + length batch > transaction_capacity st")
  case True
  then show ?thesis
    using inv by (cases "find_discard 0 batch") (auto simp: insert_bundle_def insert_effect_def)
next
  case False
  then have some: "\<forall>p \<in> set batch. packet_data p \<noteq> None"
    using data by (auto simp: packets_have_data_def find_discard_None)
  have ok: "ok (container st)" "transaction_capacity st \<le> slab_capacity S (container st)"
    "buffer_ok S (container st) (bytes_buffer st)"
    using inv by (auto simp: storage_inv_def)
  have fit: "card (occupied S (container st)) + length batch \<le> transaction_capacity st"
    using False slab_finite(2) [OF laws ok(1)] by simp
  obtain c' counts' res where c':
    "insert_packets S handle (container st, bytes_buffer st) [] 0 batch = Some ((c', counts'), res)" "ok c'"
    "transaction_capacity st \<le> slab_capacity S c'" "buffer_ok S c' counts'"
    "case res of
         Inl e \<Rightarrow> slab_get S c' = slab_get S (container st)
       | Inr ids \<Rightarrow> length ids = length batch \<and> distinct ids \<and>
           set ids \<inter> occupied S (container st) = {} \<and> occupied S c' = occupied S (container st) \<union> set ids \<and>
           slab_get S c' |` (- set ids) = slab_get S (container st) \<and> (\<forall>k \<in> set ids. available S c' k)"
    using insert_packets_ok [OF laws, of handle "container st" "bytes_buffer st" "[]" "container st" batch
        "transaction_capacity st" 0, unfolded list.size add_0] handle some ok fit
    by (auto simp: handles_transactions_def restrict_map_def [of _ UNIV])
  show ?thesis
  proof (cases res)
    case (Inl e)
    then show ?thesis
      using False c' storage_inv_same_contents [OF inv c'(2,3,4)]
      by (auto simp: insert_bundle_def insert_effect_def)
  next
    case (Inr ids)
    note ids = c'(5) [unfolded Inr sum.case]
    let ?dup = "\<not> distinct (map (\<lambda>k. message_hash (stored_tx S c' k)) ids)"
    have dup: "contains_duplicate_hashes S message_hash c' [] ids = Some ?dup"
      using contains_duplicate_hashes_eq [of ids S c' "[]" message_hash] ids False by auto
    let ?n = "release_bytes ids counts'"
    have sub: "distinct ids" "set ids \<subseteq> occupied S c'" "filter (available S c') ids = ids" using ids by auto
    then obtain c2 where c2: "remove_ids S (c', counts') ids = Some (c2, ?n)" "ok c2"
      "slab_capacity S c2 = slab_capacity S c'" "slab_get S c2 = slab_get S c' |` (- set ids)"
      using remove_ids_ok [OF laws c'(2) sub(1,2), of counts'] by auto
    then have same: "slab_get S c2 = slab_get S (container st)" using ids by simp
    have buffer: "buffer_ok S c2 ?n" by (rule buffer_ok_release [OF c'(4) sub(1,2) c2(4,3)])
    show ?thesis
    proof (cases ?dup)
      case True
      then show ?thesis
        using False c'(1,3) Inr dup c2(1,3) same storage_inv_same_contents [OF inv c2(2) _ buffer same]
        by (auto simp: insert_bundle_def insert_effect_def)
    next
      case nodup: False
      then show ?thesis
        using False c'(1) Inr dup ids storage_inv_appended [OF inv c'(2,3,4)]
        by (auto simp: insert_bundle_def insert_effect_def)
    qed
  qed
qed

text \<open>Handing a bundle out and back restores the contents of the slab.\<close>

definition stored_max_age :: "('s, 'tx transaction_state) slab \<Rightarrow> 's \<Rightarrow> nat \<Rightarrow> max_age" where
  "stored_max_age S c k = state_max_age (the (slab_get S c k))"

lemma take_transactions_taken:
  assumes "slab_laws S ok"
  shows "ok c \<Longrightarrow> distinct ids \<Longrightarrow> take_transactions S c ids = Some (taken, c') \<Longrightarrow>
    taken = map (\<lambda>k. (stored_tx S c k, stored_max_age S c k)) ids \<and> ok c' \<and>
    (\<forall>k \<in> set ids. slab_get S c' k = map_option (transaction_update (\<lambda>_. None)) (slab_get S c k)) \<and>
    (\<forall>k. k \<notin> set ids \<longrightarrow> slab_get S c' k = slab_get S c k)"
proof (induction ids arbitrary: c taken)
  case Nil
  then show ?case by simp
next
  case (Cons k ids)
  obtain state tx rest where st: "slab_get S c k = Some state" "transaction state = Some tx"
    "take_transactions S (slab_put S c k (state\<lparr>transaction := None\<rparr>)) ids = Some (rest, c')"
    "taken = (tx, state_max_age state) # rest"
    using Cons.prems(3)
    by (auto simp: take_transaction_for_scheduling_def split: bind_splits option.splits prod.splits)
  note put = slab_putD [OF assms Cons.prems(1) st(1), of "state\<lparr>transaction := None\<rparr>"]
  note IH = Cons.IH [OF put(1) _ st(3)]
  show ?case
    using IH Cons.prems(2) st(1,2,4)
    by (auto simp: put(2) stored_tx_def stored_max_age_def)
qed

lemma retry_transactions_restores:
  assumes "slab_laws S ok"
  shows "ok c' \<Longrightarrow> distinct ids \<Longrightarrow> \<forall>k \<in> set ids. available S c k \<Longrightarrow>
    \<forall>k \<in> set ids. slab_get S c' k = map_option (transaction_update (\<lambda>_. None)) (slab_get S c k) \<Longrightarrow>
    \<exists>c''. retry_transactions S c' (zip ids (map (stored_tx S c) ids)) = Some c'' \<and> ok c'' \<and>
      (\<forall>k \<in> set ids. slab_get S c'' k = slab_get S c k) \<and>
      (\<forall>k. k \<notin> set ids \<longrightarrow> slab_get S c'' k = slab_get S c' k)"
proof (induction ids arbitrary: c')
  case Nil
  then show ?case by simp
next
  case (Cons k ids)
  obtain state tx where st: "slab_get S c k = Some state" "transaction state = Some tx"
    using Cons.prems(3) by (auto simp: available_def)
  have st': "slab_get S c' k = Some (state\<lparr>transaction := None\<rparr>)"
    using Cons.prems(4) st by simp
  have tx: "stored_tx S c k = tx" using st by (simp add: stored_tx_def)
  have same: "state\<lparr>transaction := Some tx\<rparr> = state" using st(2) by (cases state) simp
  let ?c = "slab_put S c' k state"
  note put = slab_putD [OF assms Cons.prems(1) st', of state]
  have "\<forall>j \<in> set ids. slab_get S ?c j = map_option (transaction_update (\<lambda>_. None)) (slab_get S c j)"
    using Cons.prems(2,4) by (auto simp: put(2))
  then obtain c'' where "retry_transactions S ?c (zip ids (map (stored_tx S c) ids)) = Some c''" "ok c''"
    "\<forall>j \<in> set ids. slab_get S c'' j = slab_get S c j" "\<forall>j. j \<notin> set ids \<longrightarrow> slab_get S c'' j = slab_get S ?c j"
    using Cons.IH [OF put(1)] Cons.prems(2,3) by auto
  then show ?case
    using Cons.prems(2) st st' tx by (auto simp: put(2) retry_transaction_def same)
qed

section \<open>A slab\<close>

text \<open>
  A slab as the crate lays it out: a vector of entries, the vacant ones reused before the
  vector grows. It satisfies \<open>slab_laws\<close>.
\<close>

fun first_vacant :: "'v option list \<Rightarrow> nat" where
  "first_vacant [] = 0"
| "first_vacant (None # es) = 0"
| "first_vacant (Some v # es) = Suc (first_vacant es)"

definition vec_slab :: "('v option list \<times> nat, 'v) slab" where
  "vec_slab = \<lparr>
     slab_get = \<lambda>(es, cap) k. if k < length es then es ! k else None,
     slab_put = \<lambda>(es, cap) k v. (es[k := Some v], cap),
     slab_remove = \<lambda>(es, cap) k. if k < length es \<and> es ! k \<noteq> None then Some (es[k := None], cap) else None,
     slab_vacant_key = \<lambda>(es, cap). first_vacant es,
     slab_insert = \<lambda>(es, cap) v.
       (if first_vacant es < length es then es[first_vacant es := Some v] else es @ [Some v],
        max cap (Suc (first_vacant es))),
     slab_len = \<lambda>(es, cap). length (filter (\<lambda>e. e \<noteq> None) es),
     slab_capacity = \<lambda>(es, cap). cap\<rparr>"

definition vec_slab_ok :: "'v option list \<times> nat \<Rightarrow> bool" where
  "vec_slab_ok s \<longleftrightarrow> length (fst s) \<le> snd s"

lemma first_vacant_le: "first_vacant es \<le> length es"
  by (induction es rule: first_vacant.induct) auto

lemma first_vacant_None: "first_vacant es < length es \<Longrightarrow> es ! first_vacant es = None"
  by (induction es rule: first_vacant.induct) auto

lemma first_vacant_full: "\<not> first_vacant es < length es \<Longrightarrow> filter (\<lambda>e. e \<noteq> None) es = es"
  by (induction es rule: first_vacant.induct) auto

lemma card_occupied_list:
  "card {k. k < length es \<and> es ! k \<noteq> None} = length (filter (\<lambda>e. e \<noteq> None) es)"
  by (simp add: length_filter_conv_card)

lemma vec_slab_laws: "slab_laws vec_slab vec_slab_ok"
proof -
  have dom: "occupied vec_slab (es, cap) = {k. k < length es \<and> es ! k \<noteq> None}" for es :: "'a option list" and cap
    by (auto simp: vec_slab_def split: if_splits)
  have fin: "finite (occupied vec_slab (es, cap))" for es :: "'a option list" and cap
    by (simp add: dom)
  have ins: "slab_get vec_slab (slab_insert vec_slab (es, cap) v) =
      (slab_get vec_slab (es, cap))(slab_vacant_key vec_slab (es, cap) \<mapsto> v)"
    for es :: "'a option list" and cap v
    using first_vacant_le [of es] by (auto simp: vec_slab_def fun_eq_iff nth_append nth_list_update)
  have len: "slab_len vec_slab (es, cap) = card (occupied vec_slab (es, cap))"
    for es :: "'a option list" and cap
    by (simp only: dom card_occupied_list) (simp add: vec_slab_def)
  have vac: "slab_vacant_key vec_slab (es, cap) \<notin> occupied vec_slab (es, cap)"
    for es :: "'a option list" and cap
    using first_vacant_None [of es] unfolding dom by (auto simp: vec_slab_def)
  have put: "slab_get vec_slab (slab_put vec_slab (es, cap) k v) = (slab_get vec_slab (es, cap))(k \<mapsto> v)"
    if "k \<in> occupied vec_slab (es, cap)" for es :: "'a option list" and cap k v
    using that unfolding dom by (auto simp: vec_slab_def fun_eq_iff nth_list_update)
  have rem: "\<exists>s. slab_remove vec_slab (es, cap) k = Some s \<and> vec_slab_ok s \<and>
      slab_get vec_slab s = (slab_get vec_slab (es, cap))(k := None) \<and>
      slab_capacity vec_slab s = slab_capacity vec_slab (es, cap)"
    if "vec_slab_ok (es, cap)" "k \<in> occupied vec_slab (es, cap)" for es :: "'a option list" and cap k
    using that unfolding dom by (auto simp: vec_slab_def vec_slab_ok_def fun_eq_iff nth_list_update)
  have cap: "slab_capacity vec_slab (slab_put vec_slab (es, cap) k v) = slab_capacity vec_slab (es, cap)"
    for es :: "'a option list" and cap k v
    by (simp add: vec_slab_def)
  have ok: "vec_slab_ok (slab_insert vec_slab (es, cap) v)" "vec_slab_ok (slab_put vec_slab (es, cap) k v)"
    if "vec_slab_ok (es, cap)" for es :: "'a option list" and cap k v
    using that by (auto simp: vec_slab_ok_def vec_slab_def)
  have room: "slab_vacant_key vec_slab (es, cap) < slab_capacity vec_slab (es, cap)"
      "slab_capacity vec_slab (slab_insert vec_slab (es, cap) v) = slab_capacity vec_slab (es, cap)"
    if "vec_slab_ok (es, cap)" "slab_len vec_slab (es, cap) < slab_capacity vec_slab (es, cap)"
    for es :: "'a option list" and cap v
    using that first_vacant_le [of es] first_vacant_full [of es]
    by (cases "first_vacant es < length es"; simp add: vec_slab_ok_def vec_slab_def)+
  show ?thesis
    unfolding slab_laws_def split_paired_All
    by (intro allI impI conjI fin len vac ins put ok cap room rem; assumption)
qed

section \<open>Runs of the storage\<close>

text \<open>
  The states a storage goes through, with the bundles that are popped and not yet handed
  back: \<open>retry_bundle\<close> and \<open>destroy_bundle\<close> are called with one of those.
\<close>

inductive storage_reachable ::
  "('s, 'tx transaction_state) slab \<Rightarrow> ('s \<Rightarrow> bool) \<Rightarrow> ('tx \<Rightarrow> hash) \<Rightarrow>
   (u8 list \<Rightarrow> (packet_handling_error, 'tx transaction_state) result) \<Rightarrow>
   's bundle_storage \<Rightarrow> 'tx bundle_storage_entry list \<Rightarrow> bool"
  for S ok message_hash handle where
  new: "ok c \<Longrightarrow> slab_get S c = Map.empty \<Longrightarrow> n \<le> slab_capacity S c \<Longrightarrow>
     storage_reachable S ok message_hash handle
       \<lparr>last_slot = 0, transaction_capacity = n, container = c,
        bytes_buffer = replicate (slab_capacity S c) 1, unprocessed_bundles = [],
        cost_model_buffered_bundles = []\<rparr> []"
| insert: "storage_reachable S ok message_hash handle st out \<Longrightarrow> packets_have_data batch \<Longrightarrow>
     insert_bundle S message_hash handle st batch slot = Some (st', res) \<Longrightarrow>
     storage_reachable S ok message_hash handle st' out"
| pop: "storage_reachable S ok message_hash handle st out \<Longrightarrow> pop_bundle S st slot = Some (st', e) \<Longrightarrow>
     storage_reachable S ok message_hash handle st' (out @ (case e of None \<Rightarrow> [] | Some e \<Rightarrow> [e]))"
| retry: "storage_reachable S ok message_hash handle st (xs @ e # ys) \<Longrightarrow> retry_bundle S st e = Some st' \<Longrightarrow>
     storage_reachable S ok message_hash handle st' (xs @ ys)"
| destroy: "storage_reachable S ok message_hash handle st (xs @ e # ys) \<Longrightarrow> destroy_bundle S st e = Some st' \<Longrightarrow>
     storage_reachable S ok message_hash handle st' (xs @ ys)"
| clear: "storage_reachable S ok message_hash handle st out \<Longrightarrow> clear_bundles S st = Some st' \<Longrightarrow>
     storage_reachable S ok message_hash handle st' out"

lemma storage_inv_move_front:
  "storage_inv S ok st (xs @ e # ys) \<Longrightarrow> storage_inv S ok st (e # xs @ ys)"
  by (auto simp: storage_inv_def)

lemma storage_reachable_inv:
  assumes "slab_laws S ok" "handles_transactions handle"
  shows "storage_reachable S ok message_hash handle st out \<Longrightarrow> storage_inv S ok st out"
proof (induction rule: storage_reachable.induct)
  case (new c n)
  then show ?case by (simp add: storage_inv_def queued_ids_def buffer_ok_def)
next
  case (insert st out batch slot st' res)
  then show ?case
    using insert_bundle_ok [OF assms(1) insert.IH assms(2), of batch message_hash slot] by auto
next
  case (pop st out slot st' e)
  show ?case
    by (rule pop_bundle_ok [OF assms(1) pop.IH, of slot]) (use pop.hyps in auto)
next
  case (retry st xs e ys st')
  show ?case
    by (rule retry_bundle_ok [OF assms(1) storage_inv_move_front [OF retry.IH]]) (use retry.hyps in auto)
next
  case (destroy st xs e ys st')
  show ?case
    by (rule destroy_bundle_ok [OF assms(1) storage_inv_move_front [OF destroy.IH]])
      (use destroy.hyps in auto)
next
  case (clear st out st')
  show ?case
    by (rule clear_bundles_ok [OF assms(1) clear.IH]) (use clear.hyps in auto)
qed

section \<open>Popping and handing back several bundles\<close>

fun pop_bundles ::
  "('s, 'tx transaction_state) slab \<Rightarrow> 's bundle_storage \<Rightarrow> slot \<Rightarrow> nat \<Rightarrow>
   ('s bundle_storage \<times> 'tx bundle_storage_entry list) option" where
  "pop_bundles S st slot 0 = Some (st, [])"
| "pop_bundles S st slot (Suc n) =
     (case pop_bundle S st slot of
        None \<Rightarrow> None
      | Some (st', None) \<Rightarrow> Some (st', [])
      | Some (st', Some e) \<Rightarrow> map_option (apsnd (Cons e)) (pop_bundles S st' slot n))"

fun retry_bundles ::
  "('s, 'tx transaction_state) slab \<Rightarrow> 's bundle_storage \<Rightarrow> 'tx bundle_storage_entry list \<Rightarrow>
   's bundle_storage option" where
  "retry_bundles S st [] = Some st"
| "retry_bundles S st (e # es) = do { st' \<leftarrow> retry_bundle S st e; retry_bundles S st' es }"

definition bundle_id :: "'tx bundle_storage_entry \<Rightarrow> bundle_transaction_id" where
  "bundle_id e = \<lparr>container_ids = entry_container_ids e, intended_slot = entry_intended_slot e\<rparr>"

definition entry_of :: "('s, 'tx transaction_state) slab \<Rightarrow> 's \<Rightarrow> bundle_transaction_id \<Rightarrow> 'tx bundle_storage_entry" where
  "entry_of S c b = \<lparr>entry_container_ids = container_ids b,
     entry_transactions = map (stored_tx S c) (container_ids b),
     entry_max_ages = map (stored_max_age S c) (container_ids b), entry_intended_slot = intended_slot b\<rparr>"

abbreviation bundles_ids :: "bundle_transaction_id list \<Rightarrow> nat set" where
  "bundles_ids bs \<equiv> set (concat (map container_ids bs))"

lemma entry_of_simps [simp]:
  "entry_container_ids (entry_of S c b) = container_ids b"
  "entry_intended_slot (entry_of S c b) = intended_slot b" "bundle_id (entry_of S c b) = b"
  by (simp_all add: entry_of_def bundle_id_def)

lemma entry_of_cong:
  "\<forall>k \<in> set (container_ids b). slab_get S c' k = slab_get S c k \<Longrightarrow> entry_of S c' b = entry_of S c b"
  by (simp add: entry_of_def stored_tx_def stored_max_age_def)

lemma refresh_for_slot_simps [simp]:
  "last_slot (refresh_for_slot st slot) = slot" "container (refresh_for_slot st slot) = container st"
  "refresh_for_slot (refresh_for_slot st slot) slot = refresh_for_slot st slot"
  by (simp_all add: refresh_for_slot_def)

lemma pop_bundle_refresh: "pop_bundle S (refresh_for_slot st slot) slot = pop_bundle S st slot"
  by (simp add: pop_bundle_def)

lemma pop_bundles_refresh:
  "0 < n \<Longrightarrow> pop_bundles S (refresh_for_slot st slot) slot n = pop_bundles S st slot n"
  by (cases n) (simp_all add: pop_bundle_refresh)

text \<open>A popped bundle has the contents of the slab, and leaves its states without a transaction.\<close>

definition taken_from :: "('s, 'tx transaction_state) slab \<Rightarrow> 's \<Rightarrow> 's \<Rightarrow> nat set \<Rightarrow> bool" where
  "taken_from S c c' K \<longleftrightarrow>
     (\<forall>k. slab_get S c' k = (if k \<in> K then map_option (transaction_update (\<lambda>_. None)) (slab_get S c k)
        else slab_get S c k))"

lemma pop_bundle_entry:
  assumes laws: "slab_laws S ok" and inv: "storage_inv S ok st out" and st: "last_slot st = slot"
    "unprocessed_bundles st = b # bs"
  obtains st' where "pop_bundle S st slot = Some (st', Some (entry_of S (container st) b))"
    "storage_inv S ok st' (out @ [entry_of S (container st) b])" "unprocessed_bundles st' = bs"
    "cost_model_buffered_bundles st' = cost_model_buffered_bundles st" "last_slot st' = slot"
    "taken_from S (container st) (container st') (set (container_ids b))"
proof -
  have r: "refresh_for_slot st slot = st" using st by (simp add: refresh_for_slot_def)
  obtain st' e where pop: "pop_bundle S st slot = Some (st', Some e)" "storage_inv S ok st' (out @ [e])"
    "unprocessed_bundles st' = bs" "cost_model_buffered_bundles st' = cost_model_buffered_bundles st"
    "last_slot st' = slot"
    by (rule pop_bundle_ok [OF laws inv, of slot]) (use st(2) in \<open>auto simp: r\<close>)
  have c: "ok (container st)" "distinct (container_ids b)"
    using inv by (auto simp: storage_inv_def queued_ids_def st(2))
  obtain taken c' where take: "take_transactions S (container st) (container_ids b) = Some (taken, c')"
    and e: "e = \<lparr>entry_container_ids = container_ids b, entry_transactions = map fst taken,
        entry_max_ages = map snd taken, entry_intended_slot = intended_slot b\<rparr>" "container st' = c'"
    using pop(1) by (auto simp: pop_bundle_def r st(2) split: bind_splits prod.splits)
  note t = take_transactions_taken [OF laws c take]
  have "e = entry_of S (container st) b" using t by (simp add: e entry_of_def)
  moreover have "taken_from S (container st) (container st') (set (container_ids b))"
    using t by (simp add: taken_from_def e(2))
  ultimately show ?thesis using that pop by blast
qed

lemma pop_bundles_entries:
  assumes laws: "slab_laws S ok"
  shows "storage_inv S ok st out \<Longrightarrow> last_slot st = slot \<Longrightarrow> bs = take n (unprocessed_bundles st) \<Longrightarrow>
    \<exists>st'. pop_bundles S st slot n = Some (st', map (entry_of S (container st)) bs) \<and>
      storage_inv S ok st' (out @ map (entry_of S (container st)) bs) \<and>
      unprocessed_bundles st' = drop n (unprocessed_bundles st) \<and>
      cost_model_buffered_bundles st' = cost_model_buffered_bundles st \<and> last_slot st' = slot \<and>
      taken_from S (container st) (container st') (bundles_ids bs)"
proof (induction n arbitrary: st out bs)
  case 0
  then show ?case by (simp add: taken_from_def)
next
  case (Suc n)
  show ?case
  proof (cases "unprocessed_bundles st")
    case Nil
    then show ?thesis
      using Suc.prems by (auto simp: pop_bundle_def refresh_for_slot_def taken_from_def)
  next
    case (Cons b us)
    obtain st' where pop: "pop_bundle S st slot = Some (st', Some (entry_of S (container st) b))"
      and inv': "storage_inv S ok st' (out @ [entry_of S (container st) b])"
      and st': "unprocessed_bundles st' = us" "cost_model_buffered_bundles st' = cost_model_buffered_bundles st"
        "last_slot st' = slot" "taken_from S (container st) (container st') (set (container_ids b))"
      by (rule pop_bundle_entry [OF laws Suc.prems(1,2) Cons])
    let ?bs = "take n us"
    have bs: "bs = b # ?bs" using Suc.prems(3) Cons by simp
    obtain st'' where rec: "pop_bundles S st' slot n = Some (st'', map (entry_of S (container st')) ?bs)"
      "storage_inv S ok st'' ((out @ [entry_of S (container st) b]) @ map (entry_of S (container st')) ?bs)"
      "unprocessed_bundles st'' = drop n us" "last_slot st'' = slot"
      "cost_model_buffered_bundles st'' = cost_model_buffered_bundles st"
      "taken_from S (container st') (container st'') (bundles_ids ?bs)"
      using Suc.IH [OF inv' st'(3), of ?bs] unfolding st'(1,2) by blast
    have dis: "set (container_ids b) \<inter> bundles_ids us = {}"
      using Suc.prems(1) by (auto simp: storage_inv_def queued_ids_def Cons)
    have "entry_of S (container st') a = entry_of S (container st) a" if "a \<in> set ?bs" for a
      using st'(4) dis in_set_takeD [OF that] by (intro entry_of_cong) (auto simp: taken_from_def)
    then have same: "map (entry_of S (container st')) ?bs = map (entry_of S (container st)) ?bs"
      by simp
    have "taken_from S (container st) (container st'') (bundles_ids bs)"
      using st'(4) rec(6) dis by (auto simp: taken_from_def bs option.map_comp o_def)
    then show ?thesis
      using rec(1-5) pop by (simp add: bs same Cons)
  qed
qed

lemma retry_bundle_entry:
  assumes laws: "slab_laws S ok" and inv: "storage_inv S ok st (entry_of S c b # out)"
    and c: "\<forall>k \<in> set (container_ids b). available S c k \<and>
      slab_get S (container st) k = map_option (transaction_update (\<lambda>_. None)) (slab_get S c k)"
  obtains st' where "retry_bundle S st (entry_of S c b) = Some st'" "storage_inv S ok st' out"
    "unprocessed_bundles st' = unprocessed_bundles st" "last_slot st' = last_slot st"
    "cost_model_buffered_bundles st' = cost_model_buffered_bundles st @ [b]"
    "\<forall>k \<in> set (container_ids b). slab_get S (container st') k = slab_get S c k"
    "\<forall>k. k \<notin> set (container_ids b) \<longrightarrow> slab_get S (container st') k = slab_get S (container st) k"
proof -
  obtain st' where st': "retry_bundle S st (entry_of S c b) = Some st'" "storage_inv S ok st' out"
    "unprocessed_bundles st' = unprocessed_bundles st" "last_slot st' = last_slot st"
    "cost_model_buffered_bundles st' = cost_model_buffered_bundles st @ [b]"
    by (rule retry_bundle_ok [OF laws inv]) simp
  have "ok (container st)" "distinct (container_ids b)" using inv by (auto simp: storage_inv_def)
  then obtain c' where c': "retry_transactions S (container st) (zip (container_ids b)
      (map (stored_tx S c) (container_ids b))) = Some c'"
    "\<forall>k \<in> set (container_ids b). slab_get S c' k = slab_get S c k"
    "\<forall>k. k \<notin> set (container_ids b) \<longrightarrow> slab_get S c' k = slab_get S (container st) k"
    using retry_transactions_restores [OF laws, of "container st" "container_ids b" c] c by blast
  then have "container st' = c'" using st'(1) by (auto simp: retry_bundle_def entry_of_def)
  then show ?thesis using that st' c' by blast
qed

lemma retry_bundles_entries:
  assumes laws: "slab_laws S ok"
  shows "storage_inv S ok st (map (entry_of S c) bs @ out) \<Longrightarrow>
    \<forall>k \<in> bundles_ids bs. available S c k \<and>
      slab_get S (container st) k = map_option (transaction_update (\<lambda>_. None)) (slab_get S c k) \<Longrightarrow>
    \<exists>st'. retry_bundles S st (map (entry_of S c) bs) = Some st' \<and> storage_inv S ok st' out \<and>
      unprocessed_bundles st' = unprocessed_bundles st \<and> last_slot st' = last_slot st \<and>
      cost_model_buffered_bundles st' = cost_model_buffered_bundles st @ bs \<and>
      (\<forall>k \<in> bundles_ids bs. slab_get S (container st') k = slab_get S c k) \<and>
      (\<forall>k. k \<notin> bundles_ids bs \<longrightarrow> slab_get S (container st') k = slab_get S (container st) k)"
proof (induction bs arbitrary: st)
  case Nil
  then show ?case by simp
next
  case (Cons b bs)
  obtain st1 where st1: "retry_bundle S st (entry_of S c b) = Some st1"
    "storage_inv S ok st1 (map (entry_of S c) bs @ out)" "unprocessed_bundles st1 = unprocessed_bundles st"
    "last_slot st1 = last_slot st" "cost_model_buffered_bundles st1 = cost_model_buffered_bundles st @ [b]"
    "\<forall>k \<in> set (container_ids b). slab_get S (container st1) k = slab_get S c k"
    "\<forall>k. k \<notin> set (container_ids b) \<longrightarrow> slab_get S (container st1) k = slab_get S (container st) k"
    by (rule retry_bundle_entry [OF laws, of st c b "map (entry_of S c) bs @ out"]) (use Cons.prems in auto)
  have dis: "k \<notin> set (container_ids b)" if "k \<in> bundles_ids bs" for k
    using Cons.prems(1) that by (auto simp: storage_inv_def out_ids_def)
  then have "\<forall>k \<in> bundles_ids bs. available S c k \<and>
      slab_get S (container st1) k = map_option (transaction_update (\<lambda>_. None)) (slab_get S c k)"
    using Cons.prems(2) st1(7) by simp
  then obtain st2 where st2: "retry_bundles S st1 (map (entry_of S c) bs) = Some st2" "storage_inv S ok st2 out"
      "unprocessed_bundles st2 = unprocessed_bundles st1" "last_slot st2 = last_slot st1"
      "cost_model_buffered_bundles st2 = cost_model_buffered_bundles st1 @ bs"
      "\<forall>k \<in> bundles_ids bs. slab_get S (container st2) k = slab_get S c k"
      "\<forall>k. k \<notin> bundles_ids bs \<longrightarrow> slab_get S (container st2) k = slab_get S (container st1) k"
    using Cons.IH [OF st1(2)] by blast
  have "slab_get S (container st2) k = slab_get S c k" if "k \<in> bundles_ids (b # bs)" for k
    using that st2(6,7) st1(6) by (cases "k \<in> bundles_ids bs") auto
  then show ?case
    using st1(1,3,4,5,7) st2(1-5,7) by auto
qed

lemma storage_inv_swap: "storage_inv S ok st (xs @ ys) \<Longrightarrow> storage_inv S ok st (ys @ xs)"
  by (auto simp: storage_inv_def)

lemma pop_bundles_buffered:
  assumes laws: "slab_laws S ok" and inv: "storage_inv S ok st out" and slot: "last_slot st \<noteq> slot"
  obtains st' where "pop_bundles S st slot (length (cost_model_buffered_bundles st)) =
      Some (st', map (entry_of S (container st)) (cost_model_buffered_bundles st))"
    "unprocessed_bundles st' = unprocessed_bundles st"
proof (cases "cost_model_buffered_bundles st = []")
  case True
  then show ?thesis using that by simp
next
  case False
  let ?r = "refresh_for_slot st slot" and ?n = "length (cost_model_buffered_bundles st)"
  have r: "unprocessed_bundles ?r = cost_model_buffered_bundles st @ unprocessed_bundles st"
    using slot by (simp add: refresh_for_slot_def)
  have pos: "0 < ?n" using False by simp
  show ?thesis
    using that pop_bundles_entries [OF laws, of ?r out slot "cost_model_buffered_bundles st" ?n] inv
    by (auto simp: r pop_bundles_refresh [OF pos])
qed

section \<open>Properties\<close>

text \<open>
  C14. The storage never panics and never leaks an entry: in every state it can reach, none of
  its operations hits a missing slab entry, a transaction that was already taken or returned,
  the capacity assertion, a key without a byte buffer, or the assertion that the buffer of a
  new transaction is not shared with a live view. The occupied entries are exactly those of
  the bundles that are queued, buffered for the next slot, or popped and not yet handed back,
  each once. The storage is a \<open>with_capacity\<close> one, packets that are not marked to be
  discarded have data, and \<open>retry_bundle\<close> and \<open>destroy_bundle\<close> are given popped bundles.
\<close>

theorem storage_never_panics:
  assumes "slab_laws S ok" "handles_transactions handle"
    "storage_reachable S ok message_hash handle st out"
  shows "pop_bundle S st slot \<noteq> None \<and> clear_bundles S st \<noteq> None \<and>
    (\<forall>e \<in> set out. retry_bundle S st e \<noteq> None \<and> destroy_bundle S st e \<noteq> None) \<and>
    (\<forall>batch. packets_have_data batch \<longrightarrow> insert_bundle S message_hash handle st batch slot \<noteq> None) \<and>
    distinct (queued_ids st @ out_ids out) \<and>
    occupied S (container st) = set (queued_ids st) \<union> set (out_ids out)"
proof -
  have inv: "storage_inv S ok st out" by (rule storage_reachable_inv [OF assms])
  have out: "retry_bundle S st e \<noteq> None \<and> destroy_bundle S st e \<noteq> None" if el: "e \<in> set out" for e
  proof -
    obtain xs ys where "out = xs @ e # ys" using el by (meson split_list)
    then have front: "storage_inv S ok st (e # xs @ ys)" using inv storage_inv_move_front by blast
    show ?thesis
      by (rule retry_bundle_ok [OF assms(1) front], rule destroy_bundle_ok [OF assms(1) front]) auto
  qed
  have "pop_bundle S st slot \<noteq> None" by (rule pop_bundle_ok [OF assms(1) inv, of slot]) auto
  moreover have "clear_bundles S st \<noteq> None" by (rule clear_bundles_ok [OF assms(1) inv]) auto
  moreover have "insert_bundle S message_hash handle st batch slot \<noteq> None" if "packets_have_data batch" for batch
    using insert_bundle_ok [OF assms(1) inv assms(2) that, of message_hash slot] by auto
  ultimately show ?thesis
    using out inv unfolding storage_inv_def set_append by blast
qed

definition sample_handle :: "u8 list \<Rightarrow> (packet_handling_error, u8 list transaction_state) result" where
  "sample_handle bytes =
     (if bytes = [] then Inl Sanitization
      else Inr \<lparr>transaction = Some bytes, state_max_age = \<lparr>sanitized_epoch = 1, alt_invalidation_slot = 9\<rparr>,
        priority = 3, state_cost = 4\<rparr>)"

definition sample_hash :: "u8 list \<Rightarrow> hash" where
  "sample_hash bytes = of_nat (length bytes)"

definition sample_batch :: "packet list" where
  "sample_batch = [\<lparr>discard = False, packet_data = Some [1]\<rparr>, \<lparr>discard = False, packet_data = Some [1, 2]\<rparr>]"

definition sample_storage :: "(u8 list transaction_state option list \<times> nat) bundle_storage" where
  "sample_storage = \<lparr>last_slot = 0, transaction_capacity = 8, container = ([], 8),
     bytes_buffer = replicate 8 1, unprocessed_bundles = [], cost_model_buffered_bundles = []\<rparr>"

definition sample_inserted :: "(u8 list transaction_state option list \<times> nat) bundle_storage" where
  "sample_inserted = fst (the (insert_bundle vec_slab sample_hash sample_handle sample_storage sample_batch 7))"

definition sample_popped ::
  "(u8 list transaction_state option list \<times> nat) bundle_storage \<times> u8 list bundle_storage_entry option" where
  "sample_popped = the (pop_bundle vec_slab sample_inserted 7)"

lemmas storage_eval = sample_handle_def sample_hash_def sample_batch_def sample_storage_def
  vec_slab_def insert_bundle_def try_insert_map_only_with_data_def pop_bundle_def refresh_for_slot_def
  MAX_PACKETS_PER_BUNDLE_def take_transaction_for_scheduling_def retry_transaction_def

lemma sample_inserted_eq:
  "insert_bundle vec_slab sample_hash sample_handle sample_storage sample_batch 7 = Some (sample_inserted, Inr ())"
  unfolding sample_inserted_def by (simp add: storage_eval)

lemma sample_popped_eq:
  "pop_bundle vec_slab sample_inserted 7 = Some (fst sample_popped, Some (the (snd sample_popped)))"
  unfolding sample_popped_def sample_inserted_def by (simp add: storage_eval)

lemma sample_reachable:
  "storage_reachable vec_slab vec_slab_ok sample_hash sample_handle sample_storage []"
  "storage_reachable vec_slab vec_slab_ok sample_hash sample_handle sample_inserted []"
  "storage_reachable vec_slab vec_slab_ok sample_hash sample_handle (fst sample_popped) [the (snd sample_popped)]"
proof -
  show 1: "storage_reachable vec_slab vec_slab_ok sample_hash sample_handle sample_storage []"
    using storage_reachable.new [of vec_slab_ok "([], 8)" vec_slab 8 sample_hash sample_handle]
    by (simp add: sample_storage_def vec_slab_ok_def vec_slab_def)
  show 2: "storage_reachable vec_slab vec_slab_ok sample_hash sample_handle sample_inserted []"
    by (rule storage_reachable.insert [OF 1 _ sample_inserted_eq])
      (simp add: packets_have_data_def sample_batch_def)
  show "storage_reachable vec_slab vec_slab_ok sample_hash sample_handle (fst sample_popped) [the (snd sample_popped)]"
    using storage_reachable.pop [OF 2 sample_popped_eq] by simp
qed

lemma sample_handles: "handles_transactions sample_handle"
  by (auto simp: handles_transactions_def sample_handle_def split: if_splits)

theorem storage_never_panics_witness:
  "storage_reachable vec_slab vec_slab_ok sample_hash sample_handle (fst sample_popped) [the (snd sample_popped)] \<and>
   retry_bundle vec_slab (fst sample_popped) (the (snd sample_popped)) \<noteq> None \<and>
   occupied vec_slab (container (fst sample_popped)) = set (entry_container_ids (the (snd sample_popped)))"
  using storage_never_panics [OF vec_slab_laws sample_handles sample_reachable(3)] sample_reachable(3)
  by (auto simp: queued_ids_def sample_popped_def sample_inserted_def storage_eval)

text \<open>
  C26. \<open>insert_bundle\<close> is atomic: whatever packet it stops at, an error leaves the queues and
  every slab entry as they were, and a success appends one bundle, at the back of the
  unprocessed ones, with a fresh entry per packet and no two transactions of the same
  message hash.
\<close>

theorem insert_bundle_atomic:
  assumes "slab_laws S ok" "handles_transactions handle"
    "storage_reachable S ok message_hash handle st out" "packets_have_data batch"
  shows "\<exists>st' res. insert_bundle S message_hash handle st batch slot = Some (st', res) \<and>
    insert_effect S message_hash st batch slot st' res"
  using insert_bundle_ok [OF assms(1) storage_reachable_inv [OF assms(1-3)] assms(2,4)] by blast

theorem insert_bundle_atomic_witness:
  "\<exists>st' res. insert_bundle vec_slab sample_hash sample_handle sample_inserted
       (sample_batch @ [\<lparr>discard = False, packet_data = Some []\<rparr>]) 8 = Some (st', res) \<and>
     insert_effect vec_slab sample_hash sample_inserted
       (sample_batch @ [\<lparr>discard = False, packet_data = Some []\<rparr>]) 8 st' res"
  by (rule insert_bundle_atomic [OF vec_slab_laws sample_handles sample_reachable(2)])
    (simp add: packets_have_data_def sample_batch_def)

text \<open>
  C27. Bundles that exceed the cost model are not lost, changed or reordered: handing popped
  bundles back with \<open>retry_bundle\<close> keeps them out of the current slot's queue, and in the next
  slot the bundles that were handed back are popped before all others, in the order they were
  handed back (those of earlier calls first), with the same entries, transactions, ages and
  intended slots. The bundles of \<open>es\<close> are popped one after the other and handed back in that
  order.
\<close>

theorem pop_retry_pop:
  assumes laws: "slab_laws S ok" and handle: "handles_transactions handle"
    and reach: "storage_reachable S ok message_hash handle st out"
    and n: "0 < n" and pop: "pop_bundles S st slot n = Some (st1, es)" and new_slot: "slot' \<noteq> slot"
  shows "\<exists>st2 st3 earlier. retry_bundles S st1 es = Some st2 \<and>
    unprocessed_bundles st2 = unprocessed_bundles st1 \<and>
    map bundle_id earlier = cost_model_buffered_bundles st1 \<and>
    pop_bundles S st2 slot' (length (earlier @ es)) = Some (st3, earlier @ es) \<and>
    unprocessed_bundles st3 = unprocessed_bundles st1"
proof -
  let ?r = "refresh_for_slot st slot" and ?e = "entry_of S (container st)"
  define bs where "bs = take n (unprocessed_bundles ?r)"
  have inv: "storage_inv S ok ?r out" using storage_reachable_inv [OF laws handle reach] by simp
  have avail: "\<forall>k \<in> bundles_ids bs. available S (container st) k"
    using inv by (auto simp: storage_inv_def queued_ids_def bs_def dest!: in_set_takeD)
  have st1: "es = map ?e bs" "storage_inv S ok st1 (out @ map ?e bs)" "last_slot st1 = slot"
    "taken_from S (container st) (container st1) (bundles_ids bs)"
    using pop_bundles_entries [OF laws inv, of slot bs n] pop by (auto simp: bs_def pop_bundles_refresh [OF n])
  have inv1: "storage_inv S ok st1 (map ?e bs @ out)" by (rule storage_inv_swap [OF st1(2)])
  obtain st2 where st2: "retry_bundles S st1 es = Some st2" "storage_inv S ok st2 out"
    "unprocessed_bundles st2 = unprocessed_bundles st1" "last_slot st2 = slot"
    "cost_model_buffered_bundles st2 = cost_model_buffered_bundles st1 @ bs"
    "\<forall>k \<in> bundles_ids bs. slab_get S (container st2) k = slab_get S (container st) k"
    using retry_bundles_entries [OF laws inv1] avail st1(3,4) unfolding st1(1) taken_from_def by auto
  let ?earlier = "map (entry_of S (container st2)) (cost_model_buffered_bundles st1)"
  have same: "map (entry_of S (container st2)) bs = es"
    unfolding st1(1) using st2(6) by (intro map_cong refl entry_of_cong) auto
  obtain st3 where st3: "pop_bundles S st2 slot' (length (?earlier @ es)) = Some (st3, ?earlier @ es)"
    "unprocessed_bundles st3 = unprocessed_bundles st1"
    by (rule pop_bundles_buffered [OF laws st2(2), of slot']) (use new_slot st2 same st1(1) in auto)
  show ?thesis
    using st2(1,3) st3 by (intro exI [of _ st2] exI [of _ st3] exI [of _ ?earlier]) (simp add: comp_def)
qed

definition sample_batch_2 :: "packet list" where
  "sample_batch_2 = [\<lparr>discard = False, packet_data = Some [7]\<rparr>]"

definition sample_inserted_2 :: "(u8 list transaction_state option list \<times> nat) bundle_storage" where
  "sample_inserted_2 = fst (the (insert_bundle vec_slab sample_hash sample_handle sample_inserted sample_batch_2 7))"

lemma sample_reachable_2: "storage_reachable vec_slab vec_slab_ok sample_hash sample_handle sample_inserted_2 []"
proof (rule storage_reachable.insert [OF sample_reachable(2)])
  show "insert_bundle vec_slab sample_hash sample_handle sample_inserted sample_batch_2 7 =
      Some (sample_inserted_2, Inr ())"
    unfolding sample_inserted_2_def sample_inserted_def by (simp add: storage_eval sample_batch_2_def)
qed (simp add: packets_have_data_def sample_batch_2_def)

definition sample_popped_2 ::
  "(u8 list transaction_state option list \<times> nat) bundle_storage \<times> u8 list bundle_storage_entry list" where
  "sample_popped_2 = the (pop_bundles vec_slab sample_inserted_2 7 2)"

theorem pop_retry_pop_witness:
  "map entry_transactions (snd sample_popped_2) = [[[1], [1, 2]], [[7]]] \<and>
   (\<exists>st2 st3 earlier. retry_bundles vec_slab (fst sample_popped_2) (snd sample_popped_2) = Some st2 \<and>
     unprocessed_bundles st2 = unprocessed_bundles (fst sample_popped_2) \<and>
     map bundle_id earlier = cost_model_buffered_bundles (fst sample_popped_2) \<and>
     pop_bundles vec_slab st2 8 (length (earlier @ snd sample_popped_2)) =
       Some (st3, earlier @ snd sample_popped_2) \<and>
     unprocessed_bundles st3 = unprocessed_bundles (fst sample_popped_2))"
proof
  have two: "pop_bundles vec_slab sample_inserted_2 7 2 = Some (fst sample_popped_2, snd sample_popped_2) \<and>
      map entry_transactions (snd sample_popped_2) = [[[1], [1, 2]], [[7]]]"
    unfolding sample_popped_2_def sample_inserted_2_def sample_inserted_def
    by (simp add: storage_eval sample_batch_2_def numeral_2_eq_2)
  then show "map entry_transactions (snd sample_popped_2) = [[[1], [1, 2]], [[7]]]" by blast
  show "\<exists>st2 st3 earlier. retry_bundles vec_slab (fst sample_popped_2) (snd sample_popped_2) = Some st2 \<and>
     unprocessed_bundles st2 = unprocessed_bundles (fst sample_popped_2) \<and>
     map bundle_id earlier = cost_model_buffered_bundles (fst sample_popped_2) \<and>
     pop_bundles vec_slab st2 8 (length (earlier @ snd sample_popped_2)) =
       Some (st3, earlier @ snd sample_popped_2) \<and>
     unprocessed_bundles st3 = unprocessed_bundles (fst sample_popped_2)"
    by (rule pop_retry_pop [OF vec_slab_laws sample_handles sample_reachable_2 _ two [THEN conjunct1]]) simp_all
qed

end
