(* ===== verification/Bundle_Account_Locker.thy ===== *)
theory Bundle_Account_Locker
  imports Account_Locks
begin

text \<open>
  The pre-locks of the bundle stage: \<open>BundleAccountLocks\<close> and \<open>BundleAccountLocker\<close> of
  core/src/bundle_stage/bundle_account_locker.rs. A bundle is a list of transactions; all the
  accounts it mentions are counted as locked from before its first transaction runs until the
  bundle is finished. The table is a second instance of \<open>lock_table\<close>.
\<close>

record bundle_account_locks =
  read_locks :: "pubkey \<rightharpoonup> u64"
  bundle_write_locks :: "pubkey \<rightharpoonup> u64"

datatype bundle_account_locker_error = LockingError

definition default_bundle_locks :: bundle_account_locks where
  "default_bundle_locks = \<lparr>read_locks = Map.empty, bundle_write_locks = Map.empty\<rparr>"

section \<open>Operations\<close>

definition bundle_lock_key :: "bundle_account_locks \<Rightarrow> key_lock \<Rightarrow> bundle_account_locks" where
  "bundle_lock_key self = (\<lambda>(acc, writable).
     if writable then self\<lparr>bundle_write_locks := entry_incr (bundle_write_locks self) acc\<rparr>
     else self\<lparr>read_locks := entry_incr (read_locks self) acc\<rparr>)"

text \<open>
  An occupied entry is decremented with \<open>saturating_sub\<close> and removed once it is zero; a
  vacant one is left alone.
\<close>

definition entry_release :: "(pubkey \<rightharpoonup> u64) \<Rightarrow> pubkey \<Rightarrow> (pubkey \<rightharpoonup> u64)" where
  "entry_release m acc =
     (case m acc of
        Some count \<Rightarrow>
          (let count' = sat_sub count 1 in
           m(acc := (if count' = 0 then None else Some count')))
      | None \<Rightarrow> m)"

definition bundle_unlock_key :: "bundle_account_locks \<Rightarrow> key_lock \<Rightarrow> bundle_account_locks" where
  "bundle_unlock_key self = (\<lambda>(acc, writable).
     if writable then self\<lparr>bundle_write_locks := entry_release (bundle_write_locks self) acc\<rparr>
     else self\<lparr>read_locks := entry_release (read_locks self) acc\<rparr>)"

definition bundle_lock_accounts ::
  "bundle_account_locks \<Rightarrow> key_lock list list \<Rightarrow> bundle_account_locks" where
  "bundle_lock_accounts self transaction_locks =
     foldl (\<lambda>self transaction_lock. foldl bundle_lock_key self transaction_lock)
       self transaction_locks"

definition bundle_unlock_accounts ::
  "bundle_account_locks \<Rightarrow> key_lock list list \<Rightarrow> bundle_account_locks" where
  "bundle_unlock_accounts self transaction_locks =
     foldl (\<lambda>self transaction_lock. foldl bundle_unlock_key self transaction_lock)
       self transaction_locks"

text \<open>
  \<open>lock_limit\<close> is what \<open>bank.get_transaction_account_lock_limit()\<close> returns.
\<close>

definition get_transaction_locks ::
  "('a) svm_message_scheme list \<Rightarrow> nat \<Rightarrow> (bundle_account_locker_error, key_lock list list) result" where
  "get_transaction_locks transactions lock_limit =
     (let transaction_locks =
        List.map_filter (\<lambda>tx.
          if \<not> isl (validate_account_locks (account_keys tx) lock_limit)
          then Some (accounts_with_is_writable tx) else None) transactions
      in if length transaction_locks \<noteq> length transactions then Inl LockingError
         else Inr transaction_locks)"

definition lock_bundle ::
  "bundle_account_locks \<Rightarrow> ('a) svm_message_scheme list \<Rightarrow> nat \<Rightarrow>
   bundle_account_locks \<times> (bundle_account_locker_error, unit) result" where
  "lock_bundle self transactions lock_limit =
     (case get_transaction_locks transactions lock_limit of
        Inl e \<Rightarrow> (self, Inl e)
      | Inr transaction_locks \<Rightarrow> (bundle_lock_accounts self transaction_locks, Inr ()))"

definition unlock_bundle ::
  "bundle_account_locks \<Rightarrow> ('a) svm_message_scheme list \<Rightarrow> nat \<Rightarrow>
   bundle_account_locks \<times> (bundle_account_locker_error, unit) result" where
  "unlock_bundle self transactions lock_limit =
     (case get_transaction_locks transactions lock_limit of
        Inl e \<Rightarrow> (self, Inl e)
      | Inr transaction_locks \<Rightarrow> (bundle_unlock_accounts self transaction_locks, Inr ()))"

section \<open>The table as a lock table\<close>

definition bundle_held :: "bundle_account_locks \<Rightarrow> key_lock \<Rightarrow> nat" where
  "bundle_held self kw =
     (if snd kw then entry_count (bundle_write_locks self) (fst kw)
      else entry_count (read_locks self) (fst kw))"

definition bundle_locks_wf :: "bundle_account_locks \<Rightarrow> bool" where
  "bundle_locks_wf self \<longleftrightarrow>
     no_zero_entries (bundle_write_locks self) \<and> no_zero_entries (read_locks self)"

lemma entry_release_count:
  "entry_count (entry_release m k) j = entry_count m j - (if j = k then 1 else 0)"
  by (auto simp: entry_release_def entry_count_def entry_or_default_def Let_def unat_sat_sub
      unat_0_iff [symmetric] split: option.splits)

lemma no_zero_entries_release: "no_zero_entries m \<Longrightarrow> no_zero_entries (entry_release m k)"
  by (auto simp: entry_release_def no_zero_entries_def Let_def split: option.splits)

interpretation bl: lock_table bundle_lock_key bundle_unlock_key bundle_held bundle_locks_wf "2 ^ 64"
proof
  fix t :: bundle_account_locks and a b :: key_lock
  assume "bundle_locks_wf t" and "bundle_held t a + 1 < 2 ^ 64"
  then show "bundle_locks_wf (bundle_lock_key t a)"
    by (auto simp: bundle_lock_key_def bundle_locks_wf_def bundle_held_def
        intro: no_zero_entries_incr split: prod.splits)
  from \<open>bundle_held t a + 1 < 2 ^ 64\<close>
  show "bundle_held (bundle_lock_key t a) b = bundle_held t b + (if b = a then 1 else 0)"
    by (cases a; cases b)
      (auto simp: bundle_lock_key_def bundle_held_def entry_count_incr split: if_splits)
next
  fix t :: bundle_account_locks and a b :: key_lock
  assume "bundle_locks_wf t"
  then show "bundle_locks_wf (bundle_unlock_key t a)"
    by (auto simp: bundle_unlock_key_def bundle_locks_wf_def
        intro: no_zero_entries_release split: prod.splits)
  show "bundle_held (bundle_unlock_key t a) b = bundle_held t b - (if b = a then 1 else 0)"
    by (cases a; cases b) (auto simp: bundle_unlock_key_def bundle_held_def entry_release_count)
next
  fix t t' :: bundle_account_locks
  assume wf: "bundle_locks_wf t" "bundle_locks_wf t'" and eq: "\<And>a. bundle_held t a = bundle_held t' a"
  have "bundle_write_locks t = bundle_write_locks t'"
    using wf eq [of "(_, True)"]
    by (intro entry_count_inject) (auto simp: bundle_locks_wf_def bundle_held_def)
  moreover have "read_locks t = read_locks t'"
    using wf eq [of "(_, False)"]
    by (intro entry_count_inject) (auto simp: bundle_locks_wf_def bundle_held_def)
  ultimately show "t = t'" by simp
qed

section \<open>Bundles\<close>

text \<open>
  A bundle can be locked when every transaction passes validation; then all its keys are
  taken, transaction by transaction.
\<close>

definition bundle_keys :: "('a) svm_message_scheme list \<Rightarrow> key_lock list" where
  "bundle_keys transactions = concat (map accounts_with_is_writable transactions)"

definition bundle_lockable :: "('a) svm_message_scheme list \<Rightarrow> nat \<Rightarrow> bool" where
  "bundle_lockable transactions lock_limit \<longleftrightarrow>
     (\<forall>tx \<in> set transactions. length (account_keys tx) \<le> lock_limit \<and> distinct (account_keys tx))"

definition bundle_room :: "bundle_account_locks \<Rightarrow> nat \<Rightarrow> bool" where
  "bundle_room t n \<longleftrightarrow> (\<forall>a. bundle_held t a + n < 2 ^ 64)"

lemma foldl_foldl_concat: "foldl (foldl f) s xss = foldl f s (concat xss)"
  by (induction xss arbitrary: s) simp_all

lemma validate_ok_iff:
  "\<not> isl (validate_account_locks keys lim) \<longleftrightarrow> length keys \<le> lim \<and> distinct keys"
  by (auto simp: validate_account_locks_def has_duplicates_iff)

lemma get_transaction_locks_eq:
  "get_transaction_locks transactions lim =
     (if bundle_lockable transactions lim then Inr (map accounts_with_is_writable transactions)
      else Inl LockingError)"
proof -
  let ?ok = "\<lambda>tx. length (account_keys tx) \<le> lim \<and> distinct (account_keys tx)"
  have mf: "List.map_filter (\<lambda>tx. if ?ok tx then Some (accounts_with_is_writable tx) else None) transactions
      = map accounts_with_is_writable (filter ?ok transactions)"
    by (induction transactions) (auto simp: List.map_filter_def)
  have "length (filter ?ok transactions) = length transactions \<longleftrightarrow> bundle_lockable transactions lim"
    by (auto simp: bundle_lockable_def length_filter_eq_iff)
  moreover have "filter ?ok transactions = transactions" if "bundle_lockable transactions lim"
    using that by (auto simp: bundle_lockable_def filter_id_conv)
  ultimately show ?thesis
    unfolding get_transaction_locks_def validate_ok_iff mf Let_def by auto
qed

lemma lock_bundle_eq:
  "lock_bundle t transactions lim =
     (if bundle_lockable transactions lim
      then (foldl bundle_lock_key t (bundle_keys transactions), Inr ())
      else (t, Inl LockingError))"
  by (simp add: lock_bundle_def get_transaction_locks_eq bundle_lock_accounts_def bundle_keys_def
      foldl_foldl_concat [of bundle_lock_key, symmetric])

lemma unlock_bundle_eq:
  "unlock_bundle t transactions lim =
     (if bundle_lockable transactions lim
      then (foldl bundle_unlock_key t (bundle_keys transactions), Inr ())
      else (t, Inl LockingError))"
  by (simp add: unlock_bundle_def get_transaction_locks_eq bundle_unlock_accounts_def bundle_keys_def
      foldl_foldl_concat [of bundle_unlock_key, symmetric])

lemma bundle_lock_room:
  assumes "bundle_locks_wf t" "bundle_room t (length (bundle_keys txs) + n)"
  shows "bundle_locks_wf (fst (lock_bundle t txs lim))" "bundle_room (fst (lock_bundle t txs lim)) n"
proof -
  have room: "\<And>a. bundle_held t a + (length (bundle_keys txs) + n) < 2 ^ 64"
    using assms(2) unfolding bundle_room_def by blast
  then have room1: "\<And>a. bundle_held t a + length (bundle_keys txs) < 2 ^ 64"
    by (metis add.assoc add_lessD1)
  note all = bl.lock_all [OF assms(1) room1]
  show "bundle_locks_wf (fst (lock_bundle t txs lim))"
    using all assms(1) by (simp add: lock_bundle_eq)
  show "bundle_room (fst (lock_bundle t txs lim)) n"
    unfolding bundle_room_def
  proof
    fix a
    show "bundle_held (fst (lock_bundle t txs lim)) a + n < 2 ^ 64"
      using all [of a] room [of a] count_list_le_length [of "bundle_keys txs" a]
      by (simp add: lock_bundle_eq)
  qed
qed

lemma bundle_lock_unlock:
  assumes "bundle_locks_wf t" "bundle_room t (length (bundle_keys txs))"
  shows "fst (unlock_bundle (fst (lock_bundle t txs lim)) txs lim) = t"
  using assms by (auto simp: lock_bundle_eq unlock_bundle_eq bundle_room_def intro: bl.lock_unlock_all)

section \<open>Properties\<close>

text \<open>
  C25. Bundles do not disturb each other's pre-locks: after locking a first and then a second
  bundle, unlocking the first one, whether or not its validation passed, leaves the table as
  if only the second one had ever been locked, accounts they share included.
\<close>

theorem bundles_release_independent:
  assumes "bundle_locks_wf t" "bundle_room t (length (bundle_keys b1) + length (bundle_keys b2))"
  shows "fst (unlock_bundle (fst (lock_bundle (fst (lock_bundle t b1 lim)) b2 lim)) b1 lim) =
    fst (lock_bundle t b2 lim)"
proof -
  have room: "bundle_held t a + length (bundle_keys b1) + length (bundle_keys b2) < 2 ^ 64" for a
    using assms(2) unfolding bundle_room_def by (metis add.assoc)
  then have "bundle_held t a + length (bundle_keys b1) < 2 ^ 64" for a by (metis add_lessD1)
  then have "foldl bundle_unlock_key (foldl bundle_lock_key t (bundle_keys b1)) (bundle_keys b1) = t"
    by (intro bl.lock_unlock_all [OF assms(1)]) auto
  moreover have "foldl bundle_unlock_key (foldl bundle_lock_key (foldl bundle_lock_key t (bundle_keys b1))
      (bundle_keys b2)) (bundle_keys b1) = foldl bundle_lock_key t (bundle_keys b2)"
    by (rule bl.lock_two_release_first [OF assms(1) room])
  ultimately show ?thesis by (simp add: lock_bundle_eq unlock_bundle_eq)
qed

theorem bundles_release_independent_witness:
  "fst (unlock_bundle (fst (lock_bundle (fst (lock_bundle default_bundle_locks
       [\<lparr>account_keys = [1, 2], is_writable = \<lambda>i. i = 0\<rparr>] 64))
       [\<lparr>account_keys = [1, 3], is_writable = \<lambda>i. True\<rparr>] 64))
       [\<lparr>account_keys = [1, 2], is_writable = \<lambda>i. i = 0\<rparr>] 64) =
   fst (lock_bundle default_bundle_locks [\<lparr>account_keys = [1, 3], is_writable = \<lambda>i. True\<rparr>] 64)"
  by (rule bundles_release_independent)
    (auto simp: default_bundle_locks_def bundle_locks_wf_def no_zero_entries_def bundle_room_def
      bundle_held_def entry_count_def entry_or_default_def bundle_keys_def accounts_with_is_writable_def)

end
