(* ===== verification/Bundle_Stage.thy ===== *)
theory Bundle_Stage
  imports Bundle_Storage Bundle_Account_Locker "HOL-Library.Sublist"
begin

text \<open>
  The loop that executes bundles while the node is leader: \<open>process_buffered_bundles\<close>,
  \<open>consume_bundles\<close>, \<open>process_bundle\<close> and the handling of the tip programs of
  core/src/bundle_stage.rs, on top of the bundle storage and the bundle account locker.

  What the loop calls outside the stage is a record of functions on a state \<open>'w\<close> of the rest
  of the validator: the completeness of the bank, the consumer that executes and records a
  bundle, and the tip manager. They are arbitrary; in particular the bank may complete
  between any two bundles.
\<close>

section \<open>The state of the stage\<close>

datatype bundle_execution_error = TipError | ErrorRetryable | ErrorNonRetryable

datatype commit_transaction_details =
    Committed "(transaction_error, unit) result"
  | NotCommitted transaction_error

record 'p process_output =
  cost_model_throttled_transactions_count :: u64
  commit_transactions_result :: "('p, commit_transaction_details list) result"

record ('w, 'p) bank_env =
  bank_slot :: slot
  bank_epoch :: epoch
  account_lock_limit :: nat
  is_complete :: "'w \<Rightarrow> bool \<times> 'w"
  process_and_record :: "'w \<Rightarrow> svm_message list \<Rightarrow> max_age list \<Rightarrow> 'p process_output \<times> 'w"
  get_initialize_bundle :: "'w \<Rightarrow> (unit, svm_message list) result \<times> 'w"
  get_crank_bundle :: "'w \<Rightarrow> (unit, svm_message list) result \<times> 'w"

record ('s, 'w, 'p) bundle_stage =
  stage_storage :: "'s bundle_storage"
  locker :: bundle_account_locks
  world :: 'w
  last_tip_update_slot :: slot
  consume_updates :: "'p process_output list" \<comment> \<open>the calls of \<open>update_for_consume\<close>\<close>
  bundles_processed :: nat
  bundle_lock_errors :: nat
  tip_programs_errors :: nat

datatype buffered_packets_decision = Consume | Forward | ForwardAndHold | Hold

definition BUNDLE_WINDOW_SIZE :: nat where
  "BUNDLE_WINDOW_SIZE = 10"

section \<open>Operations\<close>

definition to_bundle_result :: "'p process_output \<Rightarrow> (bundle_execution_error, unit) result" where
  "to_bundle_result output =
     (case commit_transactions_result output of
        Inr details \<Rightarrow>
          if list_all (\<lambda>r. case r of Committed (Inr u) \<Rightarrow> True | _ \<Rightarrow> False) details then Inr ()
          else if cost_model_throttled_transactions_count output > 0 \<or>
                  list_ex (\<lambda>r. r = NotCommitted AccountInUse) details then Inl ErrorRetryable
          else Inl ErrorNonRetryable
      | Inl e \<Rightarrow> Inl ErrorRetryable)"

definition process_bundle ::
  "('s, svm_message transaction_state) slab \<Rightarrow> ('w, 'p) bank_env \<Rightarrow> ('s, 'w, 'p) bundle_stage \<Rightarrow>
   svm_message bundle_storage_entry \<Rightarrow> (('s, 'w, 'p) bundle_stage \<times> 'p process_output option) option" where
  "process_bundle S bank st bundle =
     (let (complete, w) = is_complete bank (world st) in
      if complete
      then do {
        sto \<leftarrow> retry_bundle S (stage_storage st) bundle;
        Some (st\<lparr>world := w, stage_storage := sto,
          locker := fst (unlock_bundle (locker st) (entry_transactions bundle) (account_lock_limit bank))\<rparr>, None)
      }
      else
        let (output, w) = process_and_record bank w (entry_transactions bundle) (entry_max_ages bundle);
            st = st\<lparr>world := w,
              locker := fst (unlock_bundle (locker st) (entry_transactions bundle) (account_lock_limit bank)),
              consume_updates := consume_updates st @ [output]\<rparr>
        in case to_bundle_result output of
             Inl ErrorRetryable \<Rightarrow>
               do { sto \<leftarrow> retry_bundle S (stage_storage st) bundle;
                    Some (st\<lparr>stage_storage := sto\<rparr>, Some output) }
           | Inl TipError \<Rightarrow> Some (st, None)
           | _ \<Rightarrow>
               do { sto \<leftarrow> destroy_bundle S (stage_storage st) bundle;
                    Some (st\<lparr>stage_storage := sto\<rparr>, Some output) })"

text \<open>One call of \<open>process_bundle\<close> in the loops of \<open>consume_bundles\<close>, with the metrics around it.\<close>

definition process_and_count ::
  "('s, svm_message transaction_state) slab \<Rightarrow> ('w, 'p) bank_env \<Rightarrow> ('s, 'w, 'p) bundle_stage \<Rightarrow>
   svm_message bundle_storage_entry \<Rightarrow> ('s, 'w, 'p) bundle_stage option" where
  "process_and_count S bank st bundle =
     do {
       (st, output) \<leftarrow> process_bundle S bank st bundle;
       case output of
         Some output \<Rightarrow>
           Some (st\<lparr>consume_updates := consume_updates st @ [output],
             bundles_processed := bundles_processed st + 1\<rparr>)
       | None \<Rightarrow> Some st
     }"

lemma retry_bundle_queue:
  "retry_bundle S sto e = Some sto' \<Longrightarrow>
   unprocessed_bundles sto' = unprocessed_bundles sto \<and> last_slot sto' = last_slot sto"
  by (auto simp: retry_bundle_def split: bind_splits)

lemma destroy_bundle_queue:
  "destroy_bundle S sto e = Some sto' \<Longrightarrow>
   unprocessed_bundles sto' = unprocessed_bundles sto \<and> last_slot sto' = last_slot sto"
  by (auto simp: destroy_bundle_def split: bind_splits)

lemma process_bundle_cases:
  assumes "is_complete bank (world st) = (complete, w)"
    "process_and_record bank w (entry_transactions e) (entry_max_ages e) = (output, w')"
  shows "process_bundle S bank st e =
    (let l = fst (unlock_bundle (locker st) (entry_transactions e) (account_lock_limit bank)) in
     if complete
     then map_option (\<lambda>sto. (st\<lparr>world := w, stage_storage := sto, locker := l\<rparr>, None))
       (retry_bundle S (stage_storage st) e)
     else map_option (\<lambda>sto. (st\<lparr>world := w', locker := l, consume_updates := consume_updates st @ [output],
         stage_storage := sto\<rparr>, Some output))
       ((if to_bundle_result output = Inl ErrorRetryable then retry_bundle else destroy_bundle)
         S (stage_storage st) e))"
proof -
  have "to_bundle_result output = Inr () \<or> to_bundle_result output = Inl ErrorRetryable \<or>
      to_bundle_result output = Inl ErrorNonRetryable"
    by (simp add: to_bundle_result_def split: sum.split)
  moreover have "retry_bundle S (stage_storage st) e = None \<or> (\<exists>x. retry_bundle S (stage_storage st) e = Some x)"
    "destroy_bundle S (stage_storage st) e = None \<or> (\<exists>x. destroy_bundle S (stage_storage st) e = Some x)"
    by auto
  ultimately show ?thesis
    using assms by (elim disjE exE) (simp_all add: process_bundle_def)
qed

lemma process_and_count_queue:
  assumes "process_and_count S bank st e = Some st'"
  shows "unprocessed_bundles (stage_storage st') = unprocessed_bundles (stage_storage st) \<and>
    last_slot (stage_storage st') = last_slot (stage_storage st)"
proof -
  obtain complete w where c: "is_complete bank (world st) = (complete, w)" by fastforce
  obtain out w' where o: "process_and_record bank w (entry_transactions e) (entry_max_ages e) = (out, w')"
    by fastforce
  show ?thesis
    using assms
    unfolding process_and_count_def process_bundle_cases [OF c o] Let_def
    by (auto split: if_splits bind_splits dest!: retry_bundle_queue destroy_bundle_queue)
qed

definition queue_measure :: "'s bundle_storage \<Rightarrow> slot \<Rightarrow> nat" where
  "queue_measure sto slot = length (unprocessed_bundles (refresh_for_slot sto slot))"

lemma refresh_for_slot_idem:
  "last_slot sto = slot \<Longrightarrow> refresh_for_slot sto slot = sto"
  "last_slot (refresh_for_slot sto slot) = slot"
  by (simp_all add: refresh_for_slot_def)

lemma pop_bundle_measure:
  assumes "pop_bundle S sto slot = Some (sto', Some e)"
  shows "last_slot sto' = slot \<and> Suc (length (unprocessed_bundles sto')) = queue_measure sto slot"
proof (cases "unprocessed_bundles (refresh_for_slot sto slot)")
  case Nil
  then show ?thesis using assms by (simp add: pop_bundle_def)
next
  case (Cons b bs)
  then obtain c where "sto' = (refresh_for_slot sto slot)\<lparr>unprocessed_bundles := bs, container := c\<rparr>"
    using assms by (auto simp: pop_bundle_def Let_def split: bind_splits)
  then show ?thesis using Cons by (simp add: queue_measure_def refresh_for_slot_idem(2))
qed

lemma queue_measure_cong:
  assumes "last_slot sto = slot" "last_slot sto' = last_slot sto"
    "unprocessed_bundles sto' = unprocessed_bundles sto"
  shows "queue_measure sto' slot = length (unprocessed_bundles sto)"
  using assms by (simp add: queue_measure_def refresh_for_slot_idem(1))

text \<open>
  The first loop of \<open>consume_bundles\<close>: pop, pre-lock, and process the oldest bundle of the
  window once the window is full. It ends because retried bundles wait for the next slot.
\<close>

function (domintros) consume_loop ::
  "('s, svm_message transaction_state) slab \<Rightarrow> ('w, 'p) bank_env \<Rightarrow>
   svm_message bundle_storage_entry list \<Rightarrow> ('s, 'w, 'p) bundle_stage \<Rightarrow>
   (svm_message bundle_storage_entry list \<times> ('s, 'w, 'p) bundle_stage) option" where
  "consume_loop S bank bundles st =
     (case pop_bundle S (stage_storage st) (bank_slot bank) of
        None \<Rightarrow> None
      | Some (sto, None) \<Rightarrow> Some (bundles, st\<lparr>stage_storage := sto\<rparr>)
      | Some (sto, Some bundle) \<Rightarrow>
          (case lock_bundle (locker st) (entry_transactions bundle) (account_lock_limit bank) of
             (l, Inl e) \<Rightarrow>
               (case destroy_bundle S sto bundle of
                  None \<Rightarrow> None
                | Some sto' \<Rightarrow>
                    consume_loop S bank bundles
                      (st\<lparr>stage_storage := sto', locker := l, bundle_lock_errors := bundle_lock_errors st + 1\<rparr>))
           | (l, Inr u) \<Rightarrow>
               let bundles' = bundles @ [bundle]; st' = st\<lparr>stage_storage := sto, locker := l\<rparr> in
               if length bundles' = BUNDLE_WINDOW_SIZE
               then (case process_and_count S bank st' (hd bundles') of
                       None \<Rightarrow> None
                     | Some st'' \<Rightarrow> consume_loop S bank (tl bundles') st'')
               else consume_loop S bank bundles' st'))"
  by pat_completeness auto
termination
proof (relation "measure (\<lambda>(S, bank, bundles, st). queue_measure (stage_storage st) (bank_slot bank))", goal_cases)
  case 1
  then show ?case by simp
next
  case (2 S bank bundles st p sto b bu l r e sto')
  then have pop: "pop_bundle S (stage_storage st) (bank_slot bank) = Some (sto, Some bu)" by simp
  note m = pop_bundle_measure [OF pop]
  have "destroy_bundle S sto bu = Some sto'" using 2 by simp
  then show ?case
    using m destroy_bundle_queue [of S sto bu sto'] queue_measure_cong [of sto "bank_slot bank" sto'] by simp
next
  case (3 S bank bundles st p sto b bu l r u bundles' st' st'')
  then have pop: "pop_bundle S (stage_storage st) (bank_slot bank) = Some (sto, Some bu)" by simp
  note m = pop_bundle_measure [OF pop]
  have "process_and_count S bank st' (hd bundles') = Some st''" "stage_storage st' = sto" using 3 by simp_all
  then show ?case
    using m process_and_count_queue [of S bank st' "hd bundles'" st'']
      queue_measure_cong [of sto "bank_slot bank" "stage_storage st''"] by simp
next
  case (4 S bank bundles st p sto b bu l r u bundles' st')
  then have pop: "pop_bundle S (stage_storage st) (bank_slot bank) = Some (sto, Some bu)" by simp
  note m = pop_bundle_measure [OF pop]
  have "stage_storage st' = sto" using 4 by simp
  then show ?case using m queue_measure_cong [of sto "bank_slot bank" sto] by simp
qed

declare consume_loop.simps [simp del]

text \<open>The second loop: process what is left in the window.\<close>

fun drain_loop ::
  "('s, svm_message transaction_state) slab \<Rightarrow> ('w, 'p) bank_env \<Rightarrow>
   svm_message bundle_storage_entry list \<Rightarrow> ('s, 'w, 'p) bundle_stage \<Rightarrow> ('s, 'w, 'p) bundle_stage option" where
  "drain_loop S bank [] st = Some st"
| "drain_loop S bank (bundle # bundles) st =
     (case process_and_count S bank st bundle of
        None \<Rightarrow> None
      | Some st' \<Rightarrow> drain_loop S bank bundles st')"

text \<open>
  \<open>handle_initialize_tip_programs\<close> and \<open>handle_crank_tip_programs\<close> differ only in the bundle
  they ask the tip manager for.
\<close>

definition handle_tip_bundle ::
  "('w, 'p) bank_env \<Rightarrow> (unit, svm_message list) result \<times> 'w \<Rightarrow> ('s, 'w, 'p) bundle_stage \<Rightarrow>
   ('s, 'w, 'p) bundle_stage \<times> (bundle_execution_error, unit) result" where
  "handle_tip_bundle bank got st =
     (case got of
        (Inl e, w) \<Rightarrow> (st\<lparr>world := w\<rparr>, Inl TipError)
      | (Inr transactions, w) \<Rightarrow>
          if transactions = [] then (st\<lparr>world := w\<rparr>, Inr ())
          else
            let max_ages = replicate (length transactions)
                  \<lparr>sanitized_epoch = bank_epoch bank, alt_invalidation_slot = bank_slot bank\<rparr>;
                l = fst (lock_bundle (locker st) transactions (account_lock_limit bank));
                (output, w) = process_and_record bank w transactions max_ages;
                l = fst (unlock_bundle l transactions (account_lock_limit bank))
            in (st\<lparr>world := w, locker := l, consume_updates := consume_updates st @ [output]\<rparr>,
                to_bundle_result output))"

definition handle_tip_programs ::
  "('w, 'p) bank_env \<Rightarrow> ('s, 'w, 'p) bundle_stage \<Rightarrow>
   ('s, 'w, 'p) bundle_stage \<times> (bundle_execution_error, unit) result" where
  "handle_tip_programs bank st =
     (case handle_tip_bundle bank (get_initialize_bundle bank (world st)) st of
        (st, Inl e) \<Rightarrow> (st, Inl e)
      | (st, Inr u) \<Rightarrow> handle_tip_bundle bank (get_crank_bundle bank (world st)) st)"

definition consume_bundles ::
  "('s, svm_message transaction_state) slab \<Rightarrow> ('w, 'p) bank_env \<Rightarrow> ('s, 'w, 'p) bundle_stage \<Rightarrow>
   ('s, 'w, 'p) bundle_stage option" where
  "consume_bundles S bank st =
     (let (st, tips) =
        (if bank_slot bank \<noteq> last_tip_update_slot st
         then (case handle_tip_programs bank st of
                 (st, Inl e) \<Rightarrow> (st\<lparr>tip_programs_errors := tip_programs_errors st + 1\<rparr>, False)
               | (st, Inr u) \<Rightarrow> (st\<lparr>last_tip_update_slot := bank_slot bank\<rparr>, True))
         else (st, True))
      in if \<not> tips then Some st
         else do {
           (bundles, st) \<leftarrow> consume_loop S bank [] st;
           drain_loop S bank bundles st
         })"

definition process_buffered_bundles ::
  "('s, svm_message transaction_state) slab \<Rightarrow> ('w, 'p) bank_env \<Rightarrow> buffered_packets_decision \<Rightarrow>
   ('s, 'w, 'p) bundle_stage \<Rightarrow> ('s, 'w, 'p) bundle_stage option" where
  "process_buffered_bundles S bank decision st =
     (case decision of
        Consume \<Rightarrow> consume_bundles S bank st
      | Forward \<Rightarrow> do { sto \<leftarrow> clear_bundles S (stage_storage st); Some (st\<lparr>stage_storage := sto\<rparr>) }
      | ForwardAndHold \<Rightarrow> Some st
      | Hold \<Rightarrow> Some st)"

section \<open>Sizes of the stored bundles\<close>

definition bundles_small :: "'s bundle_storage \<Rightarrow> 'tx bundle_storage_entry list \<Rightarrow> bool" where
  "bundles_small sto out \<longleftrightarrow>
     (\<forall>b \<in> set (unprocessed_bundles sto) \<union> set (cost_model_buffered_bundles sto).
        length (container_ids b) \<le> MAX_PACKETS_PER_BUNDLE) \<and>
     (\<forall>e \<in> set out. length (entry_container_ids e) \<le> MAX_PACKETS_PER_BUNDLE)"

lemma refresh_small [simp]: "bundles_small (refresh_for_slot sto slot) out \<longleftrightarrow> bundles_small sto out"
  by (auto simp: bundles_small_def refresh_for_slot_def)

lemma insert_bundle_small:
  assumes "insert_bundle S message_hash handle sto batch slot = Some (sto', res)"
    "insert_effect S message_hash sto batch slot sto' res" "bundles_small sto out"
  shows "bundles_small sto' out"
proof (cases res)
  case (Inl e)
  then show ?thesis using assms by (auto simp: insert_effect_def bundles_small_def)
next
  case (Inr u)
  then have "length batch \<le> MAX_PACKETS_PER_BUNDLE"
    using assms(1) by (auto simp: insert_bundle_def split: if_splits)
  then show ?thesis using assms Inr by (auto simp: insert_effect_def bundles_small_def)
qed

lemma storage_reachable_small:
  assumes "slab_laws S ok" "handles_transactions handle"
  shows "storage_reachable S ok message_hash handle sto out \<Longrightarrow> bundles_small sto out"
proof (induction rule: storage_reachable.induct)
  case (new c n)
  then show ?case by (simp add: bundles_small_def)
next
  case (insert sto out batch slot sto' res)
  then show ?case
    using insert_bundle_ok [OF assms(1) storage_reachable_inv [OF assms insert.hyps(1)] assms(2) insert.hyps(2),
        of message_hash slot]
    by (auto intro: insert_bundle_small)
next
  case (pop sto out slot sto' e)
  show ?case
  proof (rule pop_bundle_ok [OF assms(1) storage_reachable_inv [OF assms pop.hyps(1)], of slot], goal_cases)
    case (1 sto1)
    then show ?case using pop by (simp add: bundles_small_def refresh_for_slot_def)
  next
    case (2 sto1 e1 b bs)
    have "bundles_small (refresh_for_slot sto slot) out" using pop.IH by simp
    then show ?case using 2 pop.hyps(2) by (simp add: bundles_small_def)
  qed
next
  case (retry sto xs e ys sto')
  show ?case
    by (rule retry_bundle_ok [OF assms(1)
          storage_inv_move_front [OF storage_reachable_inv [OF assms retry.hyps(1)]]])
      (use retry in \<open>auto simp: bundles_small_def\<close>)
next
  case (destroy sto xs e ys sto')
  show ?case
    by (rule destroy_bundle_ok [OF assms(1)
          storage_inv_move_front [OF storage_reachable_inv [OF assms destroy.hyps(1)]]])
      (use destroy in \<open>auto simp: bundles_small_def\<close>)
next
  case (clear sto out sto')
  then show ?case by (auto simp: clear_bundles_def bundles_small_def split: bind_splits)
qed

section \<open>The pre-locks of the window\<close>

definition entry_keys :: "svm_message bundle_storage_entry \<Rightarrow> key_lock list" where
  "entry_keys e = bundle_keys (entry_transactions e)"

definition window_locks ::
  "bundle_account_locks \<Rightarrow> bundle_account_locks \<Rightarrow> nat \<Rightarrow> svm_message bundle_storage_entry list \<Rightarrow> bool" where
  "window_locks l0 l lim bundles \<longleftrightarrow>
     bundle_locks_wf l \<and>
     (\<forall>a. bundle_held l a = bundle_held l0 a + count_list (concat (map entry_keys bundles)) a) \<and>
     (\<forall>e \<in> set bundles. bundle_lockable (entry_transactions e) lim)"

lemma bundle_keys_length:
  "bundle_lockable txs lim \<Longrightarrow> length (bundle_keys txs) \<le> length txs * lim"
  by (induction txs)
    (auto simp: bundle_keys_def bundle_lockable_def accounts_with_is_writable_def intro: add_mono)

lemma window_keys_length:
  assumes "\<forall>e \<in> set bundles. bundle_lockable (entry_transactions e) lim \<and> length (entry_transactions e) \<le> n"
  shows "length (concat (map entry_keys bundles)) \<le> length bundles * (n * lim)"
  using assms
proof (induction bundles)
  case (Cons e bundles)
  have "length (entry_keys e) \<le> length (entry_transactions e) * lim"
    using Cons.prems bundle_keys_length [of "entry_transactions e" lim] by (simp add: entry_keys_def)
  also have "\<dots> \<le> n * lim" using Cons.prems by (intro mult_right_mono) auto
  finally show ?case using Cons by simp
qed simp

lemma window_locks_lock:
  assumes "window_locks l0 l lim bundles" "bundle_lockable (entry_transactions e) lim"
    and room: "bundle_room l0 (length (concat (map entry_keys (bundles @ [e]))))"
  shows "window_locks l0 (fst (lock_bundle l (entry_transactions e) lim)) lim (bundles @ [e])"
proof -
  have held: "bundle_held l a + length (entry_keys e) < 2 ^ 64" for a
  proof -
    have "bundle_held l0 a + length (concat (map entry_keys (bundles @ [e]))) < 2 ^ 64"
      using room unfolding bundle_room_def by blast
    moreover have "bundle_held l a = bundle_held l0 a + count_list (concat (map entry_keys bundles)) a"
      using assms(1) unfolding window_locks_def by blast
    ultimately show ?thesis using count_list_le_length [of "concat (map entry_keys bundles)" a] by simp
  qed
  have "bundle_locks_wf l" using assms(1) by (simp add: window_locks_def)
  note all = bl.lock_all [OF this held]
  show ?thesis
    using assms(1,2) all unfolding window_locks_def
    by (simp add: lock_bundle_eq entry_keys_def)
qed

lemma window_locks_unlock:
  assumes "window_locks l0 l lim (e # bundles)"
  shows "window_locks l0 (fst (unlock_bundle l (entry_transactions e) lim)) lim bundles"
proof -
  have "bundle_locks_wf l" "bundle_lockable (entry_transactions e) lim" using assms by (simp_all add: window_locks_def)
  note all = bl.unlock_all [OF this(1), of "entry_keys e"] and ok = this(2)
  show ?thesis
    using assms all ok unfolding window_locks_def by (simp add: unlock_bundle_eq entry_keys_def)
qed

lemma window_locks_done:
  assumes "window_locks l0 l lim []" "bundle_locks_wf l0"
  shows "l = l0"
  using assms unfolding window_locks_def by (intro bl.held_inject) auto

section \<open>The window\<close>

definition entry_id :: "'tx bundle_storage_entry \<Rightarrow> bundle_transaction_id" where
  "entry_id e = \<lparr>container_ids = entry_container_ids e, intended_slot = entry_intended_slot e\<rparr>"

text \<open>
  The invariant of the loops. \<open>l0\<close> is the table of pre-locks they started with, \<open>B0\<close> and \<open>Q0\<close>
  are the buffered and the queued bundles they started with: what is buffered since, the
  window and the rest of the queue are, in this order, what is left of the queue.
\<close>

definition window_inv ::
  "('s, svm_message transaction_state) slab \<Rightarrow> ('s \<Rightarrow> bool) \<Rightarrow> ('w, 'p) bank_env \<Rightarrow> bundle_account_locks \<Rightarrow>
   bundle_transaction_id list \<Rightarrow> bundle_transaction_id list \<Rightarrow> ('s, 'w, 'p) bundle_stage \<Rightarrow>
   svm_message bundle_storage_entry list \<Rightarrow> bool" where
  "window_inv S ok bank l0 B0 Q0 st bundles \<longleftrightarrow>
     storage_inv S ok (stage_storage st) bundles \<and> bundles_small (stage_storage st) bundles \<and>
     window_locks l0 (locker st) (account_lock_limit bank) bundles \<and>
     (\<exists>kept. cost_model_buffered_bundles (refresh_for_slot (stage_storage st) (bank_slot bank)) = B0 @ kept \<and>
        subseq (kept @ map entry_id bundles @
          unprocessed_bundles (refresh_for_slot (stage_storage st) (bank_slot bank))) Q0)"

definition window_room :: "('w, 'p) bank_env \<Rightarrow> bundle_account_locks \<Rightarrow> bool" where
  "window_room bank l0 \<longleftrightarrow> bundle_locks_wf l0 \<and>
     bundle_room l0 (BUNDLE_WINDOW_SIZE * (MAX_PACKETS_PER_BUNDLE * account_lock_limit bank))"

lemma subseq_drop_middle: "subseq (xs @ y # zs) ws \<Longrightarrow> subseq (xs @ zs) ws"
  by (meson list_emb_append_mono subseq_Cons' subseq_order.order_refl subseq_order.trans)

lemma process_and_count_ok:
  assumes laws: "slab_laws S ok" and inv: "window_inv S ok bank l0 B0 Q0 st (e # bundles)"
    and slot: "last_slot (stage_storage st) = bank_slot bank"
  shows "\<exists>st'. process_and_count S bank st e = Some st' \<and> window_inv S ok bank l0 B0 Q0 st' bundles"
proof -
  let ?sto = "stage_storage st"
  obtain complete w where c: "is_complete bank (world st) = (complete, w)" by fastforce
  obtain out w' where o: "process_and_record bank w (entry_transactions e) (entry_max_ages e) = (out, w')"
    by fastforce
  have sto: "storage_inv S ok ?sto (e # bundles)" "bundles_small ?sto (e # bundles)"
    using inv by (simp_all add: window_inv_def)
  have locks: "window_locks l0 (fst (unlock_bundle (locker st) (entry_transactions e) (account_lock_limit bank)))
      (account_lock_limit bank) bundles"
    using inv by (auto simp: window_inv_def intro: window_locks_unlock)
  obtain kept where kept: "cost_model_buffered_bundles ?sto = B0 @ kept"
    "subseq (kept @ map entry_id (e # bundles) @ unprocessed_bundles ?sto) Q0"
    using inv slot by (auto simp: window_inv_def refresh_for_slot_idem(1))
  obtain r where r: "retry_bundle S ?sto e = Some r" "storage_inv S ok r bundles"
    "unprocessed_bundles r = unprocessed_bundles ?sto" "last_slot r = last_slot ?sto"
    "cost_model_buffered_bundles r = cost_model_buffered_bundles ?sto @ [entry_id e]"
    unfolding entry_id_def by (rule retry_bundle_ok [OF laws sto(1)])
  obtain d where d: "destroy_bundle S ?sto e = Some d" "storage_inv S ok d bundles"
    "unprocessed_bundles d = unprocessed_bundles ?sto" "last_slot d = last_slot ?sto"
    "cost_model_buffered_bundles d = cost_model_buffered_bundles ?sto"
    by (rule destroy_bundle_ok [OF laws sto(1)])
  have small: "bundles_small r bundles" "bundles_small d bundles"
    using sto(2) by (auto simp: bundles_small_def r(3,5) d(3,5) entry_id_def)
  have queue: "\<exists>kept'. cost_model_buffered_bundles r = B0 @ kept' \<and>
      subseq (kept' @ map entry_id bundles @ unprocessed_bundles r) Q0"
    "\<exists>kept'. cost_model_buffered_bundles d = B0 @ kept' \<and>
      subseq (kept' @ map entry_id bundles @ unprocessed_bundles d) Q0"
    using kept subseq_drop_middle [of kept "entry_id e"] by (auto simp: r(3,5) d(3,5))
  have "process_and_count S bank st e \<noteq> None \<and>
    (\<forall>st'. process_and_count S bank st e = Some st' \<longrightarrow>
       locker st' = fst (unlock_bundle (locker st) (entry_transactions e) (account_lock_limit bank)) \<and>
       (stage_storage st' = r \<or> stage_storage st' = d))"
    unfolding process_and_count_def process_bundle_cases [OF c o] Let_def
    by (simp add: r(1) d(1))
  then obtain st' where st': "process_and_count S bank st e = Some st'"
    "locker st' = fst (unlock_bundle (locker st) (entry_transactions e) (account_lock_limit bank))"
    "stage_storage st' = r \<or> stage_storage st' = d" by auto
  have "window_inv S ok bank l0 B0 Q0 st' bundles"
    using st'(3)
  proof
    assume s: "stage_storage st' = r"
    show ?thesis
      unfolding window_inv_def s st'(2) refresh_for_slot_idem(1) [OF trans [OF r(4) slot]]
      using r(2) small(1) locks queue(1) by blast
  next
    assume s: "stage_storage st' = d"
    show ?thesis
      unfolding window_inv_def s st'(2) refresh_for_slot_idem(1) [OF trans [OF d(4) slot]]
      using d(2) small(2) locks queue(2) by blast
  qed
  then show ?thesis using st'(1) by blast
qed

lemma drain_loop_ok:
  assumes laws: "slab_laws S ok"
  shows "window_inv S ok bank l0 B0 Q0 st bundles \<Longrightarrow> last_slot (stage_storage st) = bank_slot bank \<Longrightarrow>
    unprocessed_bundles (stage_storage st) = [] \<Longrightarrow>
    \<exists>st'. drain_loop S bank bundles st = Some st' \<and> window_inv S ok bank l0 B0 Q0 st' [] \<and>
      last_slot (stage_storage st') = bank_slot bank \<and> unprocessed_bundles (stage_storage st') = []"
proof (induction bundles arbitrary: st)
  case Nil
  then show ?case by simp
next
  case (Cons e bundles)
  obtain st1 where st1: "process_and_count S bank st e = Some st1" "window_inv S ok bank l0 B0 Q0 st1 bundles"
    using process_and_count_ok [OF laws Cons.prems(1,2)] by blast
  then show ?case
    using Cons.IH [of st1] process_and_count_queue [OF st1(1)] Cons.prems(2,3) by simp
qed

lemma window_room_lock:
  assumes "window_room bank l0" "storage_inv S ok sto bundles" "bundles_small sto bundles"
    "\<forall>e \<in> set bundles. bundle_lockable (entry_transactions e) (account_lock_limit bank)"
    "length bundles \<le> BUNDLE_WINDOW_SIZE"
  shows "bundle_room l0 (length (concat (map entry_keys bundles)))"
proof -
  let ?lim = "account_lock_limit bank"
  have "\<forall>e \<in> set bundles. bundle_lockable (entry_transactions e) ?lim \<and>
      length (entry_transactions e) \<le> MAX_PACKETS_PER_BUNDLE"
    using assms(2-4) by (simp add: storage_inv_def bundles_small_def)
  then have "length (concat (map entry_keys bundles)) \<le> length bundles * (MAX_PACKETS_PER_BUNDLE * ?lim)"
    by (rule window_keys_length)
  also have "\<dots> \<le> BUNDLE_WINDOW_SIZE * (MAX_PACKETS_PER_BUNDLE * ?lim)"
    using assms(5) by (intro mult_right_mono) auto
  finally have le: "length (concat (map entry_keys bundles)) \<le>
    BUNDLE_WINDOW_SIZE * (MAX_PACKETS_PER_BUNDLE * ?lim)" .
  show ?thesis
    unfolding bundle_room_def
  proof
    fix a
    have "bundle_held l0 a + BUNDLE_WINDOW_SIZE * (MAX_PACKETS_PER_BUNDLE * ?lim) < 2 ^ 64"
      using assms(1) unfolding window_room_def bundle_room_def by blast
    then show "bundle_held l0 a + length (concat (map entry_keys bundles)) < 2 ^ 64" using le by linarith
  qed
qed

text \<open>What one iteration of the first loop does with the bundle it popped.\<close>

lemma popped_window:
  assumes laws: "slab_laws S ok" and inv: "window_inv S ok bank l0 B0 Q0 st bundles"
    and pop: "pop_bundle S (stage_storage st) (bank_slot bank) = Some (sto, Some e)"
  shows "storage_inv S ok sto (bundles @ [e])" "bundles_small sto (bundles @ [e])"
    "last_slot sto = bank_slot bank"
    "\<exists>kept. cost_model_buffered_bundles sto = B0 @ kept \<and>
      subseq (kept @ map entry_id bundles @ entry_id e # unprocessed_bundles sto) Q0"
proof -
  let ?r = "refresh_for_slot (stage_storage st) (bank_slot bank)"
  have sto: "storage_inv S ok (stage_storage st) bundles" "bundles_small ?r bundles"
    using inv by (simp_all add: window_inv_def)
  obtain b bs where p: "storage_inv S ok sto (bundles @ [e])" "unprocessed_bundles ?r = b # bs"
    "entry_container_ids e = container_ids b" "entry_intended_slot e = intended_slot b"
    "unprocessed_bundles sto = bs" "last_slot sto = bank_slot bank"
    "cost_model_buffered_bundles sto = cost_model_buffered_bundles ?r"
    by (rule pop_bundle_ok [OF laws sto(1), of "bank_slot bank"]) (use pop in auto)
  have b: "b = entry_id e" by (simp add: entry_id_def p(3,4))
  show "storage_inv S ok sto (bundles @ [e])" "last_slot sto = bank_slot bank" by (rule p)+
  show "bundles_small sto (bundles @ [e])" using sto(2) p by (simp add: bundles_small_def)
  show "\<exists>kept. cost_model_buffered_bundles sto = B0 @ kept \<and>
      subseq (kept @ map entry_id bundles @ entry_id e # unprocessed_bundles sto) Q0"
    using inv unfolding window_inv_def p(2,5,7) b by blast
qed

lemma window_inv_I:
  assumes "storage_inv S ok (stage_storage st) bundles" "bundles_small (stage_storage st) bundles"
    "last_slot (stage_storage st) = bank_slot bank" "window_locks l0 (locker st) (account_lock_limit bank) bundles"
    "\<exists>kept. cost_model_buffered_bundles (stage_storage st) = B0 @ kept \<and>
      subseq (kept @ map entry_id bundles @ unprocessed_bundles (stage_storage st)) Q0"
  shows "window_inv S ok bank l0 B0 Q0 st bundles"
  unfolding window_inv_def refresh_for_slot_idem(1) [OF assms(3)] using assms by blast

lemma popped_not_lockable:
  assumes laws: "slab_laws S ok" and inv: "window_inv S ok bank l0 B0 Q0 st bundles"
    and pop: "pop_bundle S (stage_storage st) (bank_slot bank) = Some (sto, Some e)"
  obtains sto' where "destroy_bundle S sto e = Some sto'"
    "window_inv S ok bank l0 B0 Q0 (st\<lparr>stage_storage := sto', locker := locker st, bundle_lock_errors := n\<rparr>) bundles"
proof -
  note p = popped_window [OF laws inv pop]
  obtain kept where kept: "cost_model_buffered_bundles sto = B0 @ kept"
    "subseq (kept @ map entry_id bundles @ entry_id e # unprocessed_bundles sto) Q0" using p(4) by blast
  have front: "storage_inv S ok sto (e # bundles)"
    using storage_inv_move_front [of S ok sto bundles e "[]"] p(1) by simp
  show ?thesis
  proof (rule destroy_bundle_ok [OF laws front])
    fix sto'
    assume d: "destroy_bundle S sto e = Some sto'" "storage_inv S ok sto' bundles"
      "unprocessed_bundles sto' = unprocessed_bundles sto" "last_slot sto' = last_slot sto"
      "cost_model_buffered_bundles sto' = cost_model_buffered_bundles sto"
    have "subseq ((kept @ map entry_id bundles) @ unprocessed_bundles sto') Q0"
      unfolding d(3) by (rule subseq_drop_middle [of _ "entry_id e"]) (simp add: kept(2))
    then have "window_inv S ok bank l0 B0 Q0 (st\<lparr>stage_storage := sto', locker := locker st, bundle_lock_errors := n\<rparr>) bundles"
      using d p(2,3) kept(1) inv
      by (intro window_inv_I) (auto simp: window_inv_def bundles_small_def)
    with d(1) show ?thesis by (rule that)
  qed
qed

lemma popped_lockable:
  assumes laws: "slab_laws S ok" and inv: "window_inv S ok bank l0 B0 Q0 st bundles"
    and pop: "pop_bundle S (stage_storage st) (bank_slot bank) = Some (sto, Some e)"
    and room: "window_room bank l0" "length bundles < BUNDLE_WINDOW_SIZE"
    and lockable: "bundle_lockable (entry_transactions e) (account_lock_limit bank)"
  shows "window_inv S ok bank l0 B0 Q0 (st\<lparr>stage_storage := sto,
    locker := fst (lock_bundle (locker st) (entry_transactions e) (account_lock_limit bank))\<rparr>) (bundles @ [e])"
proof -
  note p = popped_window [OF laws inv pop]
  have locks: "window_locks l0 (locker st) (account_lock_limit bank) bundles" using inv by (simp add: window_inv_def)
  have "\<forall>x \<in> set (bundles @ [e]). bundle_lockable (entry_transactions x) (account_lock_limit bank)"
    using locks lockable by (simp add: window_locks_def)
  then have "bundle_room l0 (length (concat (map entry_keys (bundles @ [e]))))"
    using window_room_lock [OF room(1) p(1,2)] room(2) by simp
  from window_locks_lock [OF locks lockable this] show ?thesis
    using p by (intro window_inv_I) simp_all
qed

lemma consume_loop_ok:
  assumes laws: "slab_laws S ok" and room: "window_room bank l0"
  shows "window_inv S ok bank l0 B0 Q0 st bundles \<Longrightarrow> length bundles < BUNDLE_WINDOW_SIZE \<Longrightarrow>
    \<exists>bundles' st'. consume_loop S bank bundles st = Some (bundles', st') \<and>
      window_inv S ok bank l0 B0 Q0 st' bundles' \<and>
      last_slot (stage_storage st') = bank_slot bank \<and> unprocessed_bundles (stage_storage st') = []"
proof (induction "queue_measure (stage_storage st) (bank_slot bank)" arbitrary: bundles st rule: less_induct)
  case less
  let ?lim = "account_lock_limit bank"
  have sto: "storage_inv S ok (stage_storage st) bundles" using less.prems(1) by (simp add: window_inv_def)
  show ?case
  proof (rule pop_bundle_ok [OF laws sto, of "bank_slot bank"], goal_cases)
    case (1 sto)
    then have "window_inv S ok bank l0 B0 Q0 (st\<lparr>stage_storage := sto\<rparr>) bundles"
      using less.prems(1) by (simp add: window_inv_def refresh_for_slot_idem)
    then show ?case using 1 by (subst consume_loop.simps) (simp add: refresh_for_slot_idem(2))
  next
    case (2 sto e b bs)
    note pop = 2(1)
    note small = pop_bundle_measure [OF pop]
    show ?case
    proof (cases "bundle_lockable (entry_transactions e) ?lim")
      case False
      obtain sto' where d: "destroy_bundle S sto e = Some sto'"
        "window_inv S ok bank l0 B0 Q0 (st\<lparr>stage_storage := sto',
           locker := locker st, bundle_lock_errors := bundle_lock_errors st + 1\<rparr>) bundles"
        by (rule popped_not_lockable [OF laws less.prems(1) pop])
      have "queue_measure sto' (bank_slot bank) < queue_measure (stage_storage st) (bank_slot bank)"
        using small destroy_bundle_queue [OF d(1)] queue_measure_cong [of sto "bank_slot bank" sto'] by simp
      then show ?thesis
        using less.hyps [OF _ d(2)] less.prems(2) pop False d(1)
        by (subst consume_loop.simps) (simp add: lock_bundle_eq)
    next
      case True
      let ?st = "st\<lparr>stage_storage := sto, locker := fst (lock_bundle (locker st) (entry_transactions e) ?lim)\<rparr>"
      have inv: "window_inv S ok bank l0 B0 Q0 ?st (bundles @ [e])"
        by (rule popped_lockable [OF laws less.prems(1) pop room less.prems(2) True])
      have slot: "last_slot (stage_storage ?st) = bank_slot bank" using small by simp
      show ?thesis
      proof (cases "length (bundles @ [e]) = BUNDLE_WINDOW_SIZE")
        case full: True
        obtain f fs where f: "bundles @ [e] = f # fs" by (cases "bundles @ [e]") auto
        obtain st1 where st1: "process_and_count S bank ?st f = Some st1" "window_inv S ok bank l0 B0 Q0 st1 fs"
          using process_and_count_ok [OF laws inv [unfolded f] slot] by blast
        have "queue_measure (stage_storage st1) (bank_slot bank) < queue_measure (stage_storage st) (bank_slot bank)"
          using small process_and_count_queue [OF st1(1)]
            queue_measure_cong [of sto "bank_slot bank" "stage_storage st1"] by simp
        moreover have len: "length bundles = length fs" using arg_cong [OF f, of length] by simp
        ultimately have "\<exists>bundles' st'. consume_loop S bank fs st1 = Some (bundles', st') \<and>
            window_inv S ok bank l0 B0 Q0 st' bundles' \<and>
            last_slot (stage_storage st') = bank_slot bank \<and> unprocessed_bundles (stage_storage st') = []"
          using less.hyps [OF _ st1(2)] less.prems(2) by simp
        then show ?thesis
          using pop True full st1(1) len
          by (subst consume_loop.simps) (simp add: lock_bundle_eq f Let_def)
      next
        case part: False
        have "queue_measure (stage_storage ?st) (bank_slot bank) < queue_measure (stage_storage st) (bank_slot bank)"
          using small queue_measure_cong [of sto "bank_slot bank" sto] by simp
        then show ?thesis
          using less.hyps [OF _ inv] less.prems(2) pop True part
          by (subst consume_loop.simps) (simp add: lock_bundle_eq)
      qed
    qed
  qed
qed

section \<open>Tip programs\<close>

text \<open>The bundles of the tip manager are small enough to be counted by the locker.\<close>

definition tip_bundles_fit :: "('w, 'p) bank_env \<Rightarrow> bundle_account_locks \<Rightarrow> bool" where
  "tip_bundles_fit bank l \<longleftrightarrow>
     (\<forall>w txs w'. get_initialize_bundle bank w = (Inr txs, w') \<or> get_crank_bundle bank w = (Inr txs, w') \<longrightarrow>
        bundle_room l (length (bundle_keys txs)))"

lemma handle_tip_bundle_keeps:
  assumes "bundle_locks_wf (locker st)"
    "\<And>txs w. got = (Inr txs, w) \<Longrightarrow> bundle_room (locker st) (length (bundle_keys txs))"
  shows "locker (fst (handle_tip_bundle bank got st)) = locker st \<and>
    stage_storage (fst (handle_tip_bundle bank got st)) = stage_storage st \<and>
    tip_programs_errors (fst (handle_tip_bundle bank got st)) = tip_programs_errors st"
proof -
  obtain r w where got: "got = (r, w)" by fastforce
  show ?thesis
  proof (cases r)
    case (Inl e)
    then show ?thesis by (simp add: handle_tip_bundle_def got)
  next
    case (Inr txs)
    have "fst (unlock_bundle (fst (lock_bundle (locker st) txs (account_lock_limit bank))) txs
        (account_lock_limit bank)) = locker st"
      using bundle_lock_unlock [OF assms(1)] assms(2) got Inr by blast
    then show ?thesis
      using Inr by (cases "process_and_record bank w txs (replicate (length txs)
        \<lparr>sanitized_epoch = bank_epoch bank, alt_invalidation_slot = bank_slot bank\<rparr>)")
        (simp add: handle_tip_bundle_def got)
  qed
qed

lemma handle_tip_programs_keeps:
  assumes "bundle_locks_wf (locker st)" "tip_bundles_fit bank (locker st)"
  shows "locker (fst (handle_tip_programs bank st)) = locker st \<and>
    stage_storage (fst (handle_tip_programs bank st)) = stage_storage st \<and>
    tip_programs_errors (fst (handle_tip_programs bank st)) = tip_programs_errors st"
proof -
  let ?got = "get_initialize_bundle bank (world st)"
  have 1: "locker (fst (handle_tip_bundle bank ?got st)) = locker st \<and>
    stage_storage (fst (handle_tip_bundle bank ?got st)) = stage_storage st \<and>
    tip_programs_errors (fst (handle_tip_bundle bank ?got st)) = tip_programs_errors st"
    using assms by (intro handle_tip_bundle_keeps) (auto simp: tip_bundles_fit_def)
  obtain st1 r where h: "handle_tip_bundle bank ?got st = (st1, r)" by fastforce
  then have st1: "locker st1 = locker st" "stage_storage st1 = stage_storage st"
    "tip_programs_errors st1 = tip_programs_errors st" using 1 by simp_all
  have 2: "locker (fst (handle_tip_bundle bank (get_crank_bundle bank (world st1)) st1)) = locker st1 \<and>
    stage_storage (fst (handle_tip_bundle bank (get_crank_bundle bank (world st1)) st1)) = stage_storage st1 \<and>
    tip_programs_errors (fst (handle_tip_bundle bank (get_crank_bundle bank (world st1)) st1)) =
      tip_programs_errors st1"
    using assms st1 by (intro handle_tip_bundle_keeps) (auto simp: tip_bundles_fit_def)
  show ?thesis
    using 2 st1 by (cases r) (simp_all add: handle_tip_programs_def h)
qed

section \<open>Properties\<close>

lemma consume_window_ok:
  assumes laws: "slab_laws S ok" and inv: "storage_inv S ok (stage_storage st) []"
    and small: "bundles_small (stage_storage st) ([] :: svm_message bundle_storage_entry list)" and room: "window_room bank (locker st)"
  defines "r \<equiv> refresh_for_slot (stage_storage st) (bank_slot bank)"
  shows "\<exists>bundles st1 st'. consume_loop S bank [] st = Some (bundles, st1) \<and> drain_loop S bank bundles st1 = Some st' \<and>
    locker st' = locker st \<and> storage_inv S ok (stage_storage st') [] \<and>
    unprocessed_bundles (stage_storage st') = [] \<and>
    (\<exists>kept. cost_model_buffered_bundles (stage_storage st') = cost_model_buffered_bundles r @ kept \<and>
      subseq kept (unprocessed_bundles r))"
proof -
  let ?inv = "window_inv S ok bank (locker st) (cost_model_buffered_bundles r) (unprocessed_bundles r)"
  have wf: "bundle_locks_wf (locker st)" using room by (simp add: window_room_def)
  then have "?inv st []"
    using inv small by (auto simp: window_inv_def window_locks_def r_def)
  then obtain bundles st1 where st1: "consume_loop S bank [] st = Some (bundles, st1)" "?inv st1 bundles"
    "last_slot (stage_storage st1) = bank_slot bank" "unprocessed_bundles (stage_storage st1) = []"
    using consume_loop_ok [OF laws room, of "cost_model_buffered_bundles r" "unprocessed_bundles r" st "[]"]
    by (auto simp: BUNDLE_WINDOW_SIZE_def)
  then obtain st' where st': "drain_loop S bank bundles st1 = Some st'" "?inv st' []"
    "last_slot (stage_storage st') = bank_slot bank" "unprocessed_bundles (stage_storage st') = []"
    using drain_loop_ok [OF laws] by blast
  have "locker st' = locker st"
    using st'(2) wf window_locks_done by (auto simp: window_inv_def)
  then show ?thesis
    using st1(1) st' by (auto simp: window_inv_def refresh_for_slot_idem(1))
qed

text \<open>
  C11. A round of the bundle stage always comes back with everything put away. Whatever the
  consumer, the bank and the tip manager do, \<open>consume_bundles\<close> terminates without a panic,
  every popped bundle has been destroyed or handed back, the pre-locks are exactly those
  there were before (none, when there were none), and when the tip programs were fine the
  queue is empty and the bundles kept for the next slot are, in their order, some of the
  queued ones.
\<close>

theorem consume_bundles_puts_away:
  assumes laws: "slab_laws S ok" and handle: "handles_transactions handle"
    and reach: "storage_reachable S ok message_hash handle (stage_storage st) []"
    and room: "window_room bank (locker st)" and tips: "tip_bundles_fit bank (locker st)"
  shows "\<exists>st'. consume_bundles S bank st = Some st' \<and> locker st' = locker st \<and>
    storage_inv S ok (stage_storage st') [] \<and>
    (tip_programs_errors st' = tip_programs_errors st \<longrightarrow>
      unprocessed_bundles (stage_storage st') = [] \<and>
      (\<exists>kept. cost_model_buffered_bundles (stage_storage st') =
          cost_model_buffered_bundles (refresh_for_slot (stage_storage st) (bank_slot bank)) @ kept \<and>
        subseq kept (unprocessed_bundles (refresh_for_slot (stage_storage st) (bank_slot bank)))))"
proof -
  have inv: "storage_inv S ok (stage_storage st) []" by (rule storage_reachable_inv [OF laws handle reach])
  have small: "bundles_small (stage_storage st) ([] :: svm_message bundle_storage_entry list)"
    by (rule storage_reachable_small [OF laws handle reach])
  have wf: "bundle_locks_wf (locker st)" using room by (simp add: window_room_def)
  obtain st1 r where tip: "handle_tip_programs bank st = (st1, r)" by fastforce
  then have st1: "locker st1 = locker st" "stage_storage st1 = stage_storage st"
    "tip_programs_errors st1 = tip_programs_errors st"
    using handle_tip_programs_keeps [OF wf tips] by simp_all
  let ?st2 = "st1\<lparr>last_tip_update_slot := bank_slot bank\<rparr>"
  show ?thesis
  proof (cases "bank_slot bank = last_tip_update_slot st")
    case True
    show ?thesis
      using consume_window_ok [OF laws inv small room] True
      by (auto simp: consume_bundles_def)
  next
    case False
    show ?thesis
    proof (cases r)
      case (Inl e)
      then show ?thesis
        using False tip st1 inv by (simp add: consume_bundles_def)
    next
      case (Inr u)
      have "window_room bank (locker ?st2)" "storage_inv S ok (stage_storage ?st2) []"
        "bundles_small (stage_storage ?st2) ([] :: svm_message bundle_storage_entry list)"
        using room inv small st1 by simp_all
      from consume_window_ok [OF laws this(2,3,1)] show ?thesis
        using False tip st1 Inr by (auto simp: consume_bundles_def)
    qed
  qed
qed

definition sample_message :: "pubkey \<Rightarrow> svm_message" where
  "sample_message k = \<lparr>account_keys = [k, 7], is_writable = \<lambda>i. i = 0\<rparr>"

definition sample_packet_handle :: "u8 list \<Rightarrow> (packet_handling_error, svm_message transaction_state) result" where
  "sample_packet_handle bytes =
     (if bytes = [] then Inl Sanitization
      else Inr \<lparr>transaction = Some (sample_message (ucast (hd bytes))),
        state_max_age = \<lparr>sanitized_epoch = 1, alt_invalidation_slot = 9\<rparr>, priority = 3, state_cost = 4\<rparr>)"

text \<open>A bank whose consumer fails every bundle with a PoH error, and whose tips are cranked.\<close>

definition sample_bank :: "(nat, unit) bank_env" where
  "sample_bank = \<lparr>bank_slot = 5, bank_epoch = 1, account_lock_limit = 64, is_complete = \<lambda>w. (False, Suc w),
     process_and_record = \<lambda>w txs ages.
       (\<lparr>cost_model_throttled_transactions_count = 0, commit_transactions_result =
          (if w = 0 then Inr (map (\<lambda>tx. Committed (Inr ())) txs) else Inl ())\<rparr>, w),
     get_initialize_bundle = \<lambda>w. (Inr [], w), get_crank_bundle = \<lambda>w. (Inr [sample_message 3], w)\<rparr>"

definition sample_stage :: "(svm_message transaction_state option list \<times> nat, nat, unit) bundle_stage" where
  "sample_stage = \<lparr>stage_storage = fst (the (insert_bundle vec_slab (\<lambda>tx. ucast (hd (account_keys tx)))
       sample_packet_handle
       \<lparr>last_slot = 0, transaction_capacity = 8, container = ([], 8), bytes_buffer = replicate 8 1, unprocessed_bundles = [],
        cost_model_buffered_bundles = []\<rparr> sample_batch 5)),
     locker = default_bundle_locks, world = 0, last_tip_update_slot = 0, consume_updates = [],
     bundles_processed = 0, bundle_lock_errors = 0, tip_programs_errors = 0\<rparr>"

lemma sample_stage_reachable:
  "storage_reachable vec_slab vec_slab_ok (\<lambda>tx. ucast (hd (account_keys tx))) sample_packet_handle
     (stage_storage sample_stage) []"
proof -
  let ?new = "\<lparr>last_slot = 0, transaction_capacity = 8, container = ([], 8), bytes_buffer = replicate 8 1, unprocessed_bundles = [],
    cost_model_buffered_bundles = []\<rparr> :: (svm_message transaction_state option list \<times> nat) bundle_storage"
  have new: "storage_reachable vec_slab vec_slab_ok (\<lambda>tx. ucast (hd (account_keys tx))) sample_packet_handle ?new []"
    using storage_reachable.new [of vec_slab_ok "([], 8)" vec_slab 8] by (simp add: vec_slab_ok_def vec_slab_def)
  have data: "packets_have_data sample_batch" by (simp add: packets_have_data_def sample_batch_def)
  have h: "handles_transactions sample_packet_handle"
    by (auto simp: handles_transactions_def sample_packet_handle_def split: if_splits)
  obtain st' res where "insert_bundle vec_slab (\<lambda>tx. ucast (hd (account_keys tx))) sample_packet_handle ?new sample_batch 5 =
      Some (st', res)"
    using insert_bundle_ok [OF vec_slab_laws storage_reachable_inv [OF vec_slab_laws h new] h data] by blast
  with storage_reachable.insert [OF new data this] show ?thesis
    unfolding sample_stage_def by simp
qed

theorem consume_bundles_puts_away_witness:
  "\<exists>st'. consume_bundles vec_slab sample_bank sample_stage = Some st' \<and> locker st' = default_bundle_locks \<and>
     storage_inv vec_slab vec_slab_ok (stage_storage st') []"
proof -
  have "handles_transactions sample_packet_handle"
    by (auto simp: handles_transactions_def sample_packet_handle_def split: if_splits)
  moreover have l: "locker sample_stage = default_bundle_locks" by (simp add: sample_stage_def)
  moreover have "window_room sample_bank default_bundle_locks"
    by (simp add: window_room_def bundle_room_def bundle_locks_wf_def bundle_held_def no_zero_entries_def
        default_bundle_locks_def entry_count_def entry_or_default_def sample_bank_def BUNDLE_WINDOW_SIZE_def
        MAX_PACKETS_PER_BUNDLE_def)
  moreover have "tip_bundles_fit sample_bank default_bundle_locks"
    by (auto simp: tip_bundles_fit_def bundle_room_def bundle_held_def entry_count_def
        entry_or_default_def default_bundle_locks_def sample_bank_def bundle_keys_def sample_message_def
        accounts_with_is_writable_def)
  ultimately show ?thesis
    using consume_bundles_puts_away [OF vec_slab_laws _ sample_stage_reachable, of sample_bank] by auto
qed

text \<open>
  Every output of \<open>process_bundle\<close> is counted twice in the metrics of the consume worker: once
  inside \<open>process_bundle\<close> and once by its caller.
\<close>

lemma processed_bundle_counted_twice:
  assumes "process_bundle S bank st e = Some (st1, Some out)"
  shows "\<exists>st'. process_and_count S bank st e = Some st' \<and>
    consume_updates st' = consume_updates st @ [out, out] \<and> bundles_processed st' = bundles_processed st + 1"
proof -
  obtain complete w where c: "is_complete bank (world st) = (complete, w)" by fastforce
  obtain o' w' where o: "process_and_record bank w (entry_transactions e) (entry_max_ages e) = (o', w')"
    by fastforce
  show ?thesis
    using assms unfolding process_and_count_def process_bundle_cases [OF c o] Let_def
    by (auto split: if_splits)
qed

end
