(* ===== verification/Cost_Tracker.thy ===== *)
theory Cost_Tracker
  imports Prelude "HOL-Library.Monad_Syntax"
begin

text \<open>
  Block cost accounting: the cost of a transaction (cost-model/src/transaction_cost.rs), its estimate
  (cost-model/src/cost_model.rs), and the tracker that keeps a block within its limits
  (cost-model/src/cost_tracker.rs, with the constants of cost-model/src/block_cost_limits.rs).

  The shared block cost is an atomic that wraps around; the other totals saturate.  A transaction is
  what the cost model reads of it.
\<close>

section \<open>Limits\<close>

definition COMPUTE_UNIT_TO_US_RATIO :: u64 where "COMPUTE_UNIT_TO_US_RATIO = 30"
definition SIGNATURE_COST :: u64 where "SIGNATURE_COST = COMPUTE_UNIT_TO_US_RATIO * 24"
definition SECP256K1_VERIFY_COST :: u64 where "SECP256K1_VERIFY_COST = COMPUTE_UNIT_TO_US_RATIO * 223"
definition ED25519_VERIFY_COST :: u64 where "ED25519_VERIFY_COST = COMPUTE_UNIT_TO_US_RATIO * 76"
definition ED25519_VERIFY_STRICT_COST :: u64 where "ED25519_VERIFY_STRICT_COST = COMPUTE_UNIT_TO_US_RATIO * 80"
definition SECP256R1_VERIFY_COST :: u64 where "SECP256R1_VERIFY_COST = COMPUTE_UNIT_TO_US_RATIO * 160"
definition WRITE_LOCK_UNITS :: u64 where "WRITE_LOCK_UNITS = COMPUTE_UNIT_TO_US_RATIO * 10"
definition INSTRUCTION_DATA_BYTES_COST :: u64 where "INSTRUCTION_DATA_BYTES_COST = 140 div COMPUTE_UNIT_TO_US_RATIO"
definition MAX_BLOCK_UNITS :: u64 where "MAX_BLOCK_UNITS = 60000000"
definition MAX_WRITABLE_ACCOUNT_UNITS :: u64 where "MAX_WRITABLE_ACCOUNT_UNITS = 12000000"
definition MAX_VOTE_UNITS :: u64 where "MAX_VOTE_UNITS = 36000000"
definition MAX_BLOCK_ACCOUNTS_DATA_SIZE_DELTA :: u64 where "MAX_BLOCK_ACCOUNTS_DATA_SIZE_DELTA = 100000000"
definition SIMPLE_VOTE_USAGE_COST :: u64 where "SIMPLE_VOTE_USAGE_COST = 3428"
definition DEFAULT_COMPUTE_UNITS :: u64 where "DEFAULT_COMPUTE_UNITS = 2100"

lemmas cost_constants = COMPUTE_UNIT_TO_US_RATIO_def SIGNATURE_COST_def SECP256K1_VERIFY_COST_def ED25519_VERIFY_COST_def
  ED25519_VERIFY_STRICT_COST_def SECP256R1_VERIFY_COST_def WRITE_LOCK_UNITS_def INSTRUCTION_DATA_BYTES_COST_def
  MAX_BLOCK_UNITS_def MAX_WRITABLE_ACCOUNT_UNITS_def MAX_VOTE_UNITS_def MAX_BLOCK_ACCOUNTS_DATA_SIZE_DELTA_def
  SIMPLE_VOTE_USAGE_COST_def DEFAULT_COMPUTE_UNITS_def

section \<open>The cost of a transaction\<close>

record cost_message =
  cm_account_keys :: "pubkey list"
  cm_is_writable :: "nat \<Rightarrow> bool"
  cm_is_simple_vote_transaction :: bool
  cm_num_transaction_signatures :: u64
  cm_num_secp256k1_signatures :: u64
  cm_num_ed25519_signatures :: u64
  cm_num_secp256r1_signatures :: u64
  cm_instruction_data_len :: u16
  cm_num_write_locks :: u64

record usage_cost_details =
  uc_transaction :: cost_message
  uc_signature_cost :: u64
  uc_write_lock_cost :: u64
  uc_data_bytes_cost :: u16
  uc_programs_execution_cost :: u64
  uc_loaded_accounts_data_size_cost :: u64
  uc_allocated_accounts_data_size :: u64

datatype transaction_cost = SimpleVote cost_message | Transaction usage_cost_details

definition usage_cost_sum :: "usage_cost_details \<Rightarrow> u64" where
  "usage_cost_sum uc =
     sat_add (sat_add (sat_add (sat_add (uc_signature_cost uc) (uc_write_lock_cost uc)) (ucast (uc_data_bytes_cost uc)))
       (uc_programs_execution_cost uc)) (uc_loaded_accounts_data_size_cost uc)"

fun cost_sum :: "transaction_cost \<Rightarrow> u64" where
  "cost_sum (SimpleVote _) = SIMPLE_VOTE_USAGE_COST"
| "cost_sum (Transaction uc) = usage_cost_sum uc"

fun programs_execution_cost :: "transaction_cost \<Rightarrow> u64" where
  "programs_execution_cost (SimpleVote _) = DEFAULT_COMPUTE_UNITS"
| "programs_execution_cost (Transaction uc) = uc_programs_execution_cost uc"

fun is_simple_vote :: "transaction_cost \<Rightarrow> bool" where
  "is_simple_vote (SimpleVote _) = True"
| "is_simple_vote (Transaction _) = False"

fun allocated_accounts_data_size :: "transaction_cost \<Rightarrow> u64" where
  "allocated_accounts_data_size (SimpleVote _) = 0"
| "allocated_accounts_data_size (Transaction uc) = uc_allocated_accounts_data_size uc"

fun loaded_accounts_data_size_cost :: "transaction_cost \<Rightarrow> u64" where
  "loaded_accounts_data_size_cost (SimpleVote _) = 8"
| "loaded_accounts_data_size_cost (Transaction uc) = uc_loaded_accounts_data_size_cost uc"

fun signature_cost :: "transaction_cost \<Rightarrow> u64" where
  "signature_cost (SimpleVote _) = SIGNATURE_COST"
| "signature_cost (Transaction uc) = uc_signature_cost uc"

fun write_lock_cost :: "transaction_cost \<Rightarrow> u64" where
  "write_lock_cost (SimpleVote _) = sat_mul WRITE_LOCK_UNITS 2"
| "write_lock_cost (Transaction uc) = uc_write_lock_cost uc"

fun data_bytes_cost :: "transaction_cost \<Rightarrow> u16" where
  "data_bytes_cost (SimpleVote _) = 0"
| "data_bytes_cost (Transaction uc) = uc_data_bytes_cost uc"

fun cost_transaction :: "transaction_cost \<Rightarrow> cost_message" where
  "cost_transaction (SimpleVote tx) = tx"
| "cost_transaction (Transaction uc) = uc_transaction uc"

text \<open>The keys of the writable accounts, in the order of the account list.\<close>

definition writable_keys :: "cost_message \<Rightarrow> pubkey list" where
  "writable_keys tx = map snd (filter (\<lambda>(index, _). cm_is_writable tx index) (enumerate 0 (cm_account_keys tx)))"

definition writable_accounts :: "transaction_cost \<Rightarrow> pubkey list" where
  "writable_accounts c = writable_keys (cost_transaction c)"

fun num_transaction_signatures :: "transaction_cost \<Rightarrow> u64" where
  "num_transaction_signatures (SimpleVote _) = 1"
| "num_transaction_signatures (Transaction uc) = cm_num_transaction_signatures (uc_transaction uc)"

fun num_secp256k1_instruction_signatures :: "transaction_cost \<Rightarrow> u64" where
  "num_secp256k1_instruction_signatures (SimpleVote _) = 0"
| "num_secp256k1_instruction_signatures (Transaction uc) = cm_num_secp256k1_signatures (uc_transaction uc)"

fun num_ed25519_instruction_signatures :: "transaction_cost \<Rightarrow> u64" where
  "num_ed25519_instruction_signatures (SimpleVote _) = 0"
| "num_ed25519_instruction_signatures (Transaction uc) = cm_num_ed25519_signatures (uc_transaction uc)"

fun num_secp256r1_instruction_signatures :: "transaction_cost \<Rightarrow> u64" where
  "num_secp256r1_instruction_signatures (SimpleVote _) = 0"
| "num_secp256r1_instruction_signatures (Transaction uc) = cm_num_secp256r1_signatures (uc_transaction uc)"

section \<open>The estimate\<close>

text \<open>
  What the model takes from outside: which features are active, the memory cost of the fee structure,
  the limits of the system program, the identity of the system program and the decoding of its
  instructions.
\<close>

datatype system_instruction = CreateAccount u64 | CreateAccountWithSeed u64 | Allocate u64 | AllocateWithSeed u64
  | OtherSystemInstruction

record 'i cost_env =
  ce_verify_strict :: bool
  ce_secp256r1_precompile :: bool
  ce_memory_usage_cost :: "u32 \<Rightarrow> u64"
  ce_max_permitted_data_length :: u64
  ce_max_allocations_per_transaction :: u64
  ce_system_program :: pubkey
  ce_deserialize :: "'i \<Rightarrow> system_instruction option"

datatype system_program_account_allocation = AllocNone | AllocSome u64 | AllocFailed

definition get_signature_cost :: "'i cost_env \<Rightarrow> cost_message \<Rightarrow> u64" where
  "get_signature_cost env tx =
     (let ed25519_verify_cost = (if ce_verify_strict env then ED25519_VERIFY_STRICT_COST else ED25519_VERIFY_COST);
          secp256r1_verify_cost = (if ce_secp256r1_precompile env then SECP256R1_VERIFY_COST else 0)
      in sat_add (sat_add (sat_add (sat_mul (cm_num_transaction_signatures tx) SIGNATURE_COST)
           (sat_mul (cm_num_secp256k1_signatures tx) SECP256K1_VERIFY_COST))
           (sat_mul (cm_num_ed25519_signatures tx) ed25519_verify_cost))
           (sat_mul (cm_num_secp256r1_signatures tx) secp256r1_verify_cost))"

definition get_write_lock_cost :: "u64 \<Rightarrow> u64" where
  "get_write_lock_cost num_write_locks = sat_mul WRITE_LOCK_UNITS num_write_locks"

definition get_instructions_data_cost :: "cost_message \<Rightarrow> u16" where
  "get_instructions_data_cost tx = cm_instruction_data_len tx div ucast INSTRUCTION_DATA_BYTES_COST"

text \<open>The compute budget limits of the transaction, when its compute budget instructions are valid.\<close>

definition get_estimated_execution_cost :: "'i cost_env \<Rightarrow> (u32 \<times> u32) option \<Rightarrow> u64 \<times> u64" where
  "get_estimated_execution_cost env compute_budget_limits =
     (case compute_budget_limits of
        Some (compute_unit_limit, loaded_accounts_bytes) \<Rightarrow>
          (ucast compute_unit_limit, ce_memory_usage_cost env loaded_accounts_bytes)
      | None \<Rightarrow> (0, 0))"

definition calculate_account_data_size_on_deserialized_system_instruction ::
  "'i cost_env \<Rightarrow> system_instruction \<Rightarrow> system_program_account_allocation" where
  "calculate_account_data_size_on_deserialized_system_instruction env instruction =
     (let allocate = (\<lambda>space. if space > ce_max_permitted_data_length env then AllocFailed else AllocSome space)
      in case instruction of
           CreateAccount space \<Rightarrow> allocate space
         | CreateAccountWithSeed space \<Rightarrow> allocate space
         | Allocate space \<Rightarrow> allocate space
         | AllocateWithSeed space \<Rightarrow> allocate space
         | OtherSystemInstruction \<Rightarrow> AllocNone)"

definition calculate_account_data_size_on_instruction ::
  "'i cost_env \<Rightarrow> pubkey \<Rightarrow> 'i \<Rightarrow> system_program_account_allocation" where
  "calculate_account_data_size_on_instruction env program_id instruction =
     (if program_id = ce_system_program env
      then
        (case ce_deserialize env instruction of
           Some i \<Rightarrow> calculate_account_data_size_on_deserialized_system_instruction env i
         | None \<Rightarrow> AllocFailed)
      else AllocNone)"

fun allocated_size_loop :: "'i cost_env \<Rightarrow> (pubkey \<times> 'i) list \<Rightarrow> u64 \<Rightarrow> u64" where
  "allocated_size_loop env [] tx_size = min (ce_max_allocations_per_transaction env) tx_size"
| "allocated_size_loop env ((program_id, instruction) # rest) tx_size =
     (case calculate_account_data_size_on_instruction env program_id instruction of
        AllocFailed \<Rightarrow> 0
      | AllocNone \<Rightarrow> allocated_size_loop env rest tx_size
      | AllocSome s \<Rightarrow> allocated_size_loop env rest (sat_add tx_size s))"

definition calculate_allocated_accounts_data_size :: "'i cost_env \<Rightarrow> (pubkey \<times> 'i) list \<Rightarrow> u64" where
  "calculate_allocated_accounts_data_size env instructions = allocated_size_loop env instructions 0"

definition calculate_non_vote_transaction_cost ::
  "'i cost_env \<Rightarrow> cost_message \<Rightarrow> (pubkey \<times> 'i) list \<Rightarrow> u64 \<Rightarrow> u64 \<times> u64 \<Rightarrow> u16 \<Rightarrow> transaction_cost" where
  "calculate_non_vote_transaction_cost env tx instructions num_write_locks execution data_cost =
     Transaction
       \<lparr>uc_transaction = tx,
        uc_signature_cost = get_signature_cost env tx,
        uc_write_lock_cost = get_write_lock_cost num_write_locks,
        uc_data_bytes_cost = data_cost,
        uc_programs_execution_cost = fst execution,
        uc_loaded_accounts_data_size_cost = snd execution,
        uc_allocated_accounts_data_size = calculate_allocated_accounts_data_size env instructions\<rparr>"

definition calculate_cost ::
  "'i cost_env \<Rightarrow> cost_message \<Rightarrow> (pubkey \<times> 'i) list \<Rightarrow> (u32 \<times> u32) option \<Rightarrow> transaction_cost" where
  "calculate_cost env tx instructions compute_budget_limits =
     (if cm_is_simple_vote_transaction tx then SimpleVote tx
      else calculate_non_vote_transaction_cost env tx instructions (cm_num_write_locks tx)
             (get_estimated_execution_cost env compute_budget_limits) (get_instructions_data_cost tx))"

definition calculate_cost_for_executed_transaction ::
  "'i cost_env \<Rightarrow> cost_message \<Rightarrow> (pubkey \<times> 'i) list \<Rightarrow> u64 \<Rightarrow> u32 \<Rightarrow> transaction_cost" where
  "calculate_cost_for_executed_transaction env tx instructions actual_execution actual_loaded_bytes =
     (if cm_is_simple_vote_transaction tx then SimpleVote tx
      else calculate_non_vote_transaction_cost env tx instructions (cm_num_write_locks tx)
             (actual_execution, ce_memory_usage_cost env actual_loaded_bytes) (get_instructions_data_cost tx))"

text \<open>
  The estimate for a transaction known only by its metadata: its instructions and the number of its
  write locks are passed beside it.
\<close>

definition estimate_cost ::
  "'i cost_env \<Rightarrow> cost_message \<Rightarrow> (pubkey \<times> 'i) list \<Rightarrow> u64 \<Rightarrow> (u32 \<times> u32) option \<Rightarrow> transaction_cost" where
  "estimate_cost env tx instructions num_write_locks compute_budget_limits =
     (if cm_is_simple_vote_transaction tx then SimpleVote tx
      else calculate_non_vote_transaction_cost env tx instructions num_write_locks
             (get_estimated_execution_cost env compute_budget_limits) (get_instructions_data_cost tx))"

section \<open>The tracker\<close>

datatype cost_tracker_error = WouldExceedBlockMaxLimit | WouldExceedVoteMaxLimit | WouldExceedAccountMaxLimit
  | WouldExceedAccountDataBlockLimit | WouldExceedAccountDataTotalLimit

record updated_costs =
  updated_block_cost :: u64
  updated_costliest_account_cost :: u64

record cost_tracker =
  account_cost_limit :: u64
  block_cost_limit :: u64
  vote_cost_limit :: u64
  original_vote_cost_limit :: u64
  cost_by_writable_accounts :: "pubkey \<rightharpoonup> u64"
  block_cost :: u64
  vote_cost :: u64
  transaction_count :: u64
  allocated_size :: u64
  transaction_signature_count :: u64
  secp256k1_signature_count :: u64
  ed25519_signature_count :: u64
  in_flight_transaction_count :: u64
  secp256r1_signature_count :: u64

definition default_cost_tracker :: cost_tracker where
  "default_cost_tracker =
     \<lparr>account_cost_limit = MAX_WRITABLE_ACCOUNT_UNITS, block_cost_limit = MAX_BLOCK_UNITS,
      vote_cost_limit = MAX_VOTE_UNITS, original_vote_cost_limit = 0, cost_by_writable_accounts = Map.empty,
      block_cost = 0, vote_cost = 0, transaction_count = 0, allocated_size = 0, transaction_signature_count = 0,
      secp256k1_signature_count = 0, ed25519_signature_count = 0, in_flight_transaction_count = 0,
      secp256r1_signature_count = 0\<rparr>"

definition set_limits :: "u64 \<Rightarrow> u64 \<Rightarrow> u64 \<Rightarrow> cost_tracker \<Rightarrow> cost_tracker" where
  "set_limits account_limit block_limit vote_limit t =
     t\<lparr>account_cost_limit := account_limit, block_cost_limit := block_limit, vote_cost_limit := vote_limit\<rparr>"

definition new_from_parent_limits :: "cost_tracker \<Rightarrow> cost_tracker" where
  "new_from_parent_limits t =
     set_limits (account_cost_limit t) (block_cost_limit t) (vote_cost_limit t)
       (default_cost_tracker\<lparr>original_vote_cost_limit := original_vote_cost_limit t\<rparr>)"

definition set_proposer_vote_limit :: "cost_tracker \<Rightarrow> cost_tracker" where
  "set_proposer_vote_limit t = t\<lparr>original_vote_cost_limit := vote_cost_limit t, vote_cost_limit := 4000000\<rparr>"

definition restore_vote_limit :: "cost_tracker \<Rightarrow> cost_tracker" where
  "restore_vote_limit t =
     (if original_vote_cost_limit t > 0
      then t\<lparr>vote_cost_limit := original_vote_cost_limit t, original_vote_cost_limit := 0\<rparr> else t)"

definition add_transactions_in_flight :: "u64 \<Rightarrow> cost_tracker \<Rightarrow> cost_tracker" where
  "add_transactions_in_flight n t = t\<lparr>in_flight_transaction_count := sat_add (in_flight_transaction_count t) n\<rparr>"

definition sub_transactions_in_flight :: "u64 \<Rightarrow> cost_tracker \<Rightarrow> cost_tracker" where
  "sub_transactions_in_flight n t = t\<lparr>in_flight_transaction_count := sat_sub (in_flight_transaction_count t) n\<rparr>"

subsection \<open>Charging the accounts\<close>

text \<open>The cost an account carries: an absent entry reads as zero, as \<open>entry(..).or_insert(0)\<close> does.\<close>

abbreviation entry_cost :: "(pubkey \<rightharpoonup> u64) \<Rightarrow> pubkey \<Rightarrow> u64" where
  "entry_cost costs k \<equiv> entry_or_default costs 0 k"

fun add_account_costs :: "u64 \<Rightarrow> pubkey list \<Rightarrow> (pubkey \<rightharpoonup> u64) \<Rightarrow> u64 \<Rightarrow> (pubkey \<rightharpoonup> u64) \<times> u64" where
  "add_account_costs adjustment [] costs costliest = (costs, costliest)"
| "add_account_costs adjustment (k # ks) costs costliest =
     (let account_cost = sat_add (entry_cost costs k) adjustment
      in add_account_costs adjustment ks (costs(k \<mapsto> account_cost)) (max costliest account_cost))"

fun sub_account_costs :: "u64 \<Rightarrow> pubkey list \<Rightarrow> (pubkey \<rightharpoonup> u64) \<Rightarrow> (pubkey \<rightharpoonup> u64)" where
  "sub_account_costs adjustment [] costs = costs"
| "sub_account_costs adjustment (k # ks) costs =
     sub_account_costs adjustment ks (costs(k \<mapsto> sat_sub (entry_cost costs k) adjustment))"

definition add_transaction_execution_cost ::
  "transaction_cost \<Rightarrow> u64 \<Rightarrow> cost_tracker \<Rightarrow> cost_tracker \<times> u64" where
  "add_transaction_execution_cost tx_cost adjustment t =
     (let (costs, costliest) =
            add_account_costs adjustment (writable_accounts tx_cost) (cost_by_writable_accounts t) 0;
          t = t\<lparr>cost_by_writable_accounts := costs, block_cost := block_cost t + adjustment\<rparr>
      in (if is_simple_vote tx_cost then t\<lparr>vote_cost := sat_add (vote_cost t) adjustment\<rparr> else t, costliest))"

definition sub_transaction_execution_cost :: "transaction_cost \<Rightarrow> u64 \<Rightarrow> cost_tracker \<Rightarrow> cost_tracker" where
  "sub_transaction_execution_cost tx_cost adjustment t =
     (let t = t\<lparr>cost_by_writable_accounts :=
                  sub_account_costs adjustment (writable_accounts tx_cost) (cost_by_writable_accounts t),
                block_cost := block_cost t - adjustment\<rparr>
      in if is_simple_vote tx_cost then t\<lparr>vote_cost := sat_sub (vote_cost t) adjustment\<rparr> else t)"

definition add_transaction_cost :: "transaction_cost \<Rightarrow> cost_tracker \<Rightarrow> cost_tracker \<times> u64" where
  "add_transaction_cost tx_cost t =
     add_transaction_execution_cost tx_cost (cost_sum tx_cost)
       (t\<lparr>allocated_size := sat_add (allocated_size t) (allocated_accounts_data_size tx_cost),
          transaction_count := sat_add (transaction_count t) 1,
          transaction_signature_count := sat_add (transaction_signature_count t) (num_transaction_signatures tx_cost),
          secp256k1_signature_count :=
            sat_add (secp256k1_signature_count t) (num_secp256k1_instruction_signatures tx_cost),
          ed25519_signature_count := sat_add (ed25519_signature_count t) (num_ed25519_instruction_signatures tx_cost),
          secp256r1_signature_count :=
            sat_add (secp256r1_signature_count t) (num_secp256r1_instruction_signatures tx_cost)\<rparr>)"

definition remove_transaction_cost :: "transaction_cost \<Rightarrow> cost_tracker \<Rightarrow> cost_tracker" where
  "remove_transaction_cost tx_cost t =
     (let t = sub_transaction_execution_cost tx_cost (cost_sum tx_cost) t
      in t\<lparr>allocated_size := sat_sub (allocated_size t) (allocated_accounts_data_size tx_cost),
           transaction_count := sat_sub (transaction_count t) 1,
           transaction_signature_count := sat_sub (transaction_signature_count t) (num_transaction_signatures tx_cost),
           secp256k1_signature_count :=
             sat_sub (secp256k1_signature_count t) (num_secp256k1_instruction_signatures tx_cost),
           ed25519_signature_count := sat_sub (ed25519_signature_count t) (num_ed25519_instruction_signatures tx_cost),
           secp256r1_signature_count :=
             sat_sub (secp256r1_signature_count t) (num_secp256r1_instruction_signatures tx_cost)\<rparr>)"

definition remove_cost :: "transaction_cost \<Rightarrow> cost_tracker \<Rightarrow> cost_tracker" where
  "remove_cost tx_cost t = remove_transaction_cost tx_cost t"

subsection \<open>Admission\<close>

fun accounts_fit :: "cost_tracker \<Rightarrow> u64 \<Rightarrow> pubkey list \<Rightarrow> bool" where
  "accounts_fit t cost [] = True"
| "accounts_fit t cost (k # ks) =
     (case cost_by_writable_accounts t k of
        Some chained_cost \<Rightarrow>
          if sat_add chained_cost cost > account_cost_limit t then False else accounts_fit t cost ks
      | None \<Rightarrow> accounts_fit t cost ks)"

definition would_fit :: "transaction_cost \<Rightarrow> u64 \<Rightarrow> cost_tracker \<Rightarrow> (cost_tracker_error, unit) result" where
  "would_fit tx_cost block_cost_limit_reservation t =
     (let cost = cost_sum tx_cost in
      if is_simple_vote tx_cost \<and> sat_add (vote_cost t) cost > vote_cost_limit t
      then Inl WouldExceedVoteMaxLimit
      else if sat_add (block_cost t) cost > sat_sub (block_cost_limit t) block_cost_limit_reservation
      then Inl WouldExceedBlockMaxLimit
      else if cost > account_cost_limit t then Inl WouldExceedAccountMaxLimit
      else if sat_add (allocated_size t) (allocated_accounts_data_size tx_cost) > MAX_BLOCK_ACCOUNTS_DATA_SIZE_DELTA
      then Inl WouldExceedAccountDataBlockLimit
      else if \<not> accounts_fit t cost (writable_accounts tx_cost) then Inl WouldExceedAccountMaxLimit
      else Inr ())"

definition try_add ::
  "transaction_cost \<Rightarrow> u64 \<Rightarrow> cost_tracker \<Rightarrow> (cost_tracker_error, cost_tracker \<times> updated_costs) result" where
  "try_add tx_cost block_cost_limit_reservation t =
     (case would_fit tx_cost block_cost_limit_reservation t of
        Inl e \<Rightarrow> Inl e
      | Inr _ \<Rightarrow>
          (let (t, costliest) = add_transaction_cost tx_cost t
           in Inr (t, \<lparr>updated_block_cost = block_cost t, updated_costliest_account_cost = costliest\<rparr>)))"

definition estimated_load_and_execution_units :: "transaction_cost \<Rightarrow> u64" where
  "estimated_load_and_execution_units tx_cost =
     sat_add (programs_execution_cost tx_cost) (loaded_accounts_data_size_cost tx_cost)"

definition update_execution_cost :: "transaction_cost \<Rightarrow> u64 \<Rightarrow> u64 \<Rightarrow> cost_tracker \<Rightarrow> cost_tracker" where
  "update_execution_cost estimated_tx_cost actual_execution_units actual_loaded_accounts_data_size_cost t =
     (let actual = sat_add actual_execution_units actual_loaded_accounts_data_size_cost;
          estimated = estimated_load_and_execution_units estimated_tx_cost
      in if actual = estimated then t
         else if actual > estimated then fst (add_transaction_execution_cost estimated_tx_cost (actual - estimated) t)
         else sub_transaction_execution_cost estimated_tx_cost (estimated - actual) t)"

text \<open>The charge of a whole executed block, with the compute units and the loaded bytes of each transaction.\<close>

definition add_executed_transaction_cost :: "cost_message \<times> u64 \<times> u32 \<Rightarrow> cost_tracker \<Rightarrow> cost_tracker" where
  "add_executed_transaction_cost executed t =
     (let (tx, actual_compute_units, loaded_accounts_data_size) = executed;
          t = t\<lparr>transaction_count := sat_add (transaction_count t) 1,
                allocated_size := sat_add (allocated_size t) (ucast loaded_accounts_data_size),
                block_cost := block_cost t + actual_compute_units,
                transaction_signature_count :=
                  sat_add (transaction_signature_count t) (cm_num_transaction_signatures tx),
                secp256k1_signature_count := sat_add (secp256k1_signature_count t) (cm_num_secp256k1_signatures tx),
                ed25519_signature_count := sat_add (ed25519_signature_count t) (cm_num_ed25519_signatures tx),
                secp256r1_signature_count := sat_add (secp256r1_signature_count t) (cm_num_secp256r1_signatures tx)\<rparr>;
          t = (if cm_is_simple_vote_transaction tx
               then t\<lparr>vote_cost := sat_add (vote_cost t) actual_compute_units\<rparr> else t)
      in t\<lparr>cost_by_writable_accounts :=
             fst (add_account_costs actual_compute_units (writable_keys tx) (cost_by_writable_accounts t) 0)\<rparr>)"

definition add_executed_transaction_costs :: "(cost_message \<times> u64 \<times> u32) list \<Rightarrow> cost_tracker \<Rightarrow> cost_tracker" where
  "add_executed_transaction_costs executed_txs t = fold add_executed_transaction_cost executed_txs t"

section \<open>The sums behind the totals\<close>

text \<open>What a transaction is charged once its execution is known, and how far that is above its estimate.\<close>

definition actual_charge :: "transaction_cost \<Rightarrow> u64 \<Rightarrow> u64 \<Rightarrow> nat" where
  "actual_charge c execution_units loaded_cost =
     unat (cost_sum c) + unat (sat_add execution_units loaded_cost) - unat (estimated_load_and_execution_units c)"

definition overrun :: "transaction_cost \<Rightarrow> u64 \<Rightarrow> u64 \<Rightarrow> nat" where
  "overrun c execution_units loaded_cost =
     unat (sat_add execution_units loaded_cost) - unat (estimated_load_and_execution_units c)"

text \<open>The entry of a transaction of a whole executed block, of which only the message is known.\<close>

definition executed_entry :: "cost_message \<Rightarrow> transaction_cost" where
  "executed_entry tx =
     (if cm_is_simple_vote_transaction tx then SimpleVote tx
      else Transaction \<lparr>uc_transaction = tx, uc_signature_cost = 0, uc_write_lock_cost = 0, uc_data_bytes_cost = 0,
        uc_programs_execution_cost = 0, uc_loaded_accounts_data_size_cost = 0, uc_allocated_accounts_data_size = 0\<rparr>)"

text \<open>
  A run of the tracker of a bank, with the transactions charged and what each is charged: admission,
  correction of the estimate by the actual cost (below or above it), removal of a transaction that was not
  committed, the transactions of an executed block, the vote limit of the proposer and its
  restoration, and the count of the transactions in flight.  The bank starts with the limits of its
  parent; \<open>vote_limit\<close> is an upper bound of the vote limits.  The run also adds up what was charged
  without admission (\<open>over\<close>: the overruns of the estimates and the units of executed blocks) and the
  bytes executed blocks loaded.  The keys of a message are distinct.
\<close>

inductive ct_run ::
  "u64 \<Rightarrow> u64 \<Rightarrow> u64 \<Rightarrow> cost_tracker \<Rightarrow> (transaction_cost \<times> nat) list \<Rightarrow> nat \<Rightarrow> nat \<Rightarrow> bool"
  for account_limit block_limit vote_limit where
  start: "ct_run account_limit block_limit vote_limit (new_from_parent_limits parent) [] 0 0"
  if "account_cost_limit parent = account_limit" and "block_cost_limit parent = block_limit"
    and "vote_cost_limit parent \<le> vote_limit" and "original_vote_cost_limit parent \<le> vote_limit"
    and "4000000 \<le> vote_limit" and "account_limit \<noteq> - 1" and "block_limit \<noteq> - 1" and "vote_limit \<noteq> - 1"
| add: "ct_run account_limit block_limit vote_limit t' ((c, unat (cost_sum c)) # charged) over loaded"
  if "ct_run account_limit block_limit vote_limit t charged over loaded"
    and "distinct (cm_account_keys (cost_transaction c))" and "try_add c reservation t = Inr (t', updated)"
| update: "ct_run account_limit block_limit vote_limit (update_execution_cost c execution_units loaded_cost t)
            (before @ (c, actual_charge c execution_units loaded_cost) # after)
            (over + overrun c execution_units loaded_cost) loaded"
  if "ct_run account_limit block_limit vote_limit t (before @ (c, unat (cost_sum c)) # after) over loaded"
| remove: "ct_run account_limit block_limit vote_limit (remove_cost c t) (before @ after) over loaded"
  if "ct_run account_limit block_limit vote_limit t (before @ (c, unat (cost_sum c)) # after) over loaded"
| executed: "ct_run account_limit block_limit vote_limit (add_executed_transaction_cost (tx, units, bytes) t)
            ((executed_entry tx, unat units) # charged) (over + unat units) (loaded + unat bytes)"
  if "ct_run account_limit block_limit vote_limit t charged over loaded" and "distinct (cm_account_keys tx)"
| proposer: "ct_run account_limit block_limit vote_limit (set_proposer_vote_limit t) charged over loaded"
  if "ct_run account_limit block_limit vote_limit t charged over loaded"
| restore: "ct_run account_limit block_limit vote_limit (restore_vote_limit t) charged over loaded"
  if "ct_run account_limit block_limit vote_limit t charged over loaded"
| in_flight: "ct_run account_limit block_limit vote_limit (add_transactions_in_flight n t) charged over loaded"
  if "ct_run account_limit block_limit vote_limit t charged over loaded"
| landed: "ct_run account_limit block_limit vote_limit (sub_transactions_in_flight n t) charged over loaded"
  if "ct_run account_limit block_limit vote_limit t charged over loaded"

text \<open>What the charged transactions that satisfy a condition are charged together.\<close>

definition charged_for :: "(transaction_cost \<Rightarrow> bool) \<Rightarrow> (transaction_cost \<times> nat) list \<Rightarrow> nat" where
  "charged_for Q charged = sum_list (map snd (filter (\<lambda>(c, _). Q c) charged))"

lemma charged_for_simps [simp]:
  "charged_for Q [] = 0"
  "charged_for Q ((c, w) # charged) = (if Q c then w else 0) + charged_for Q charged"
  "charged_for Q (xs @ ys) = charged_for Q xs + charged_for Q ys"
  by (simp_all add: charged_for_def)

definition tracks :: "cost_tracker \<Rightarrow> (transaction_cost \<times> nat) list \<Rightarrow> bool" where
  "tracks t charged \<longleftrightarrow>
     unat (block_cost t) = charged_for (\<lambda>_. True) charged
   \<and> unat (vote_cost t) = charged_for is_simple_vote charged
   \<and> (\<forall>k. unat (entry_cost (cost_by_writable_accounts t) k) = charged_for (\<lambda>c. k \<in> set (writable_accounts c)) charged)
   \<and> (\<forall>(c, w) \<in> set charged. distinct (writable_accounts c))"

text \<open>The limits, with what was charged without admission on top, and that this does not exceed 64 bits.\<close>

definition within_limits :: "u64 \<Rightarrow> u64 \<Rightarrow> u64 \<Rightarrow> nat \<Rightarrow> nat \<Rightarrow> cost_tracker \<Rightarrow> bool" where
  "within_limits account_limit block_limit vote_limit over loaded t \<longleftrightarrow>
     unat (block_cost t) \<le> unat block_limit + over \<and> unat (vote_cost t) \<le> unat vote_limit + over
   \<and> (\<forall>k. unat (entry_cost (cost_by_writable_accounts t) k) \<le> unat account_limit + over)
   \<and> unat (allocated_size t) \<le> unat MAX_BLOCK_ACCOUNTS_DATA_SIZE_DELTA + loaded"

definition cost_room :: "u64 \<Rightarrow> u64 \<Rightarrow> u64 \<Rightarrow> nat \<Rightarrow> bool" where
  "cost_room account_limit block_limit vote_limit over \<longleftrightarrow>
     unat account_limit + over < 2 ^ 64 \<and> unat block_limit + over < 2 ^ 64 \<and> unat vote_limit + over < 2 ^ 64"

definition limits_in_force :: "u64 \<Rightarrow> u64 \<Rightarrow> u64 \<Rightarrow> cost_tracker \<Rightarrow> bool" where
  "limits_in_force account_limit block_limit vote_limit t \<longleftrightarrow>
     account_cost_limit t = account_limit \<and> block_cost_limit t = block_limit
   \<and> vote_cost_limit t \<le> vote_limit \<and> original_vote_cost_limit t \<le> vote_limit \<and> 4000000 \<le> vote_limit
   \<and> account_limit \<noteq> - 1 \<and> block_limit \<noteq> - 1 \<and> vote_limit \<noteq> - 1"

lemma writable_accounts_distinct:
  assumes "distinct (cm_account_keys (cost_transaction c))"
  shows "distinct (writable_accounts c)"
proof -
  have "distinct (map snd (enumerate 0 (cm_account_keys (cost_transaction c))))" using assms by simp
  then show ?thesis unfolding writable_accounts_def writable_keys_def by (rule distinct_map_filter)
qed

declare entry_or_default_upd [simp]

lemma add_account_costs_entry:
  "distinct ks \<Longrightarrow> entry_cost (fst (add_account_costs a ks costs m)) k =
     (if k \<in> set ks then sat_add (entry_cost costs k) a else entry_cost costs k)"
  by (induction a ks costs m rule: add_account_costs.induct) (auto simp: Let_def)

lemma sub_account_costs_entry:
  "distinct ks \<Longrightarrow> entry_cost (sub_account_costs a ks costs) k =
     (if k \<in> set ks then sat_sub (entry_cost costs k) a else entry_cost costs k)"
  by (induction a ks costs rule: sub_account_costs.induct) auto

lemma accounts_fit_iff:
  "accounts_fit t cost ks \<longleftrightarrow>
     (\<forall>k \<in> set ks. \<forall>v. cost_by_writable_accounts t k = Some v \<longrightarrow> sat_add v cost \<le> account_cost_limit t)"
  by (induction t cost ks rule: accounts_fit.induct) (auto split: option.splits)

lemma try_add_Inr:
  "try_add c r t = Inr (t', u) \<longleftrightarrow>
     would_fit c r t = Inr () \<and> t' = fst (add_transaction_cost c t)
   \<and> u = \<lparr>updated_block_cost = block_cost t', updated_costliest_account_cost = snd (add_transaction_cost c t)\<rparr>"
proof (cases "would_fit c r t")
  case (Inl e)
  then show ?thesis by (simp add: try_add_def)
next
  case (Inr x)
  then have x: "would_fit c r t = Inr ()" by simp
  show ?thesis unfolding try_add_def x by (simp add: case_prod_beta Let_def) blast
qed

lemma try_add_fits:
  assumes "would_fit c r t = Inr ()"
  shows "try_add c r t = Inr (fst (add_transaction_cost c t),
           \<lparr>updated_block_cost = block_cost (fst (add_transaction_cost c t)),
            updated_costliest_account_cost = snd (add_transaction_cost c t)\<rparr>)"
  using assms by (simp only: try_add_Inr)

lemma if_Inl_eq_Inr: "(if b then Inl e else x) = Inr y \<longleftrightarrow> \<not> b \<and> x = Inr y"
  by simp

lemma would_fit_iff:
  "would_fit c r t = Inr () \<longleftrightarrow>
     \<not> (is_simple_vote c \<and> sat_add (vote_cost t) (cost_sum c) > vote_cost_limit t)
   \<and> \<not> sat_add (block_cost t) (cost_sum c) > sat_sub (block_cost_limit t) r
   \<and> \<not> cost_sum c > account_cost_limit t
   \<and> \<not> sat_add (allocated_size t) (allocated_accounts_data_size c) > MAX_BLOCK_ACCOUNTS_DATA_SIZE_DELTA
   \<and> \<not> \<not> accounts_fit t (cost_sum c) (writable_accounts c)"
  unfolding would_fit_def Let_def if_Inl_eq_Inr by (simp only: simp_thms)

lemma would_fit_Inr:
  assumes "would_fit c r t = Inr ()"
  shows "is_simple_vote c \<Longrightarrow> sat_add (vote_cost t) (cost_sum c) \<le> vote_cost_limit t"
    and "sat_add (block_cost t) (cost_sum c) \<le> sat_sub (block_cost_limit t) r"
    and "cost_sum c \<le> account_cost_limit t"
    and "sat_add (allocated_size t) (allocated_accounts_data_size c) \<le> MAX_BLOCK_ACCOUNTS_DATA_SIZE_DELTA"
    and "accounts_fit t (cost_sum c) (writable_accounts c)"
  using assms unfolding would_fit_iff de_Morgan_conj not_less by (blast, blast, blast, blast, blast)

lemma fit_no_wrap:
  fixes a b l :: u64
  assumes "sat_add a b \<le> l" "l \<noteq> - 1"
  shows "unat a + unat b \<le> unat l" "unat a + unat b < 2 ^ 64"
proof -
  show *: "unat a + unat b \<le> unat l" using assms unfolding word_le_nat_alt sat_add_le_iff by blast
  show "unat a + unat b < 2 ^ 64" using * unat_lt2p [of l] by simp
qed

lemma fit_sums:
  assumes "would_fit c r t = Inr ()" "block_cost_limit t \<noteq> - 1" "account_cost_limit t \<noteq> - 1" "vote_cost_limit t \<noteq> - 1"
  shows "unat (block_cost t) + unat (cost_sum c) \<le> unat (block_cost_limit t)"
    and "is_simple_vote c \<Longrightarrow> unat (vote_cost t) + unat (cost_sum c) \<le> unat (vote_cost_limit t)"
    and "k \<in> set (writable_accounts c) \<Longrightarrow>
           unat (entry_cost (cost_by_writable_accounts t) k) + unat (cost_sum c) \<le> unat (account_cost_limit t)"
proof -
  note fit = would_fit_Inr [OF assms(1)]
  have "sat_sub (block_cost_limit t) r \<le> block_cost_limit t" by (simp add: word_le_nat_alt unat_sat_sub)
  then have "sat_add (block_cost t) (cost_sum c) \<le> block_cost_limit t" using fit(2) by (rule order_trans [rotated])
  then show "unat (block_cost t) + unat (cost_sum c) \<le> unat (block_cost_limit t)" using assms(2) by (rule fit_no_wrap)
  show "unat (vote_cost t) + unat (cost_sum c) \<le> unat (vote_cost_limit t)" if "is_simple_vote c"
    using fit(1) [OF that] assms(4) by (rule fit_no_wrap)
  show "unat (entry_cost (cost_by_writable_accounts t) k) + unat (cost_sum c) \<le> unat (account_cost_limit t)"
    if "k \<in> set (writable_accounts c)"
  proof (cases "cost_by_writable_accounts t k")
    case None
    then show ?thesis using fit(3) by (simp add: entry_or_default_def word_le_nat_alt)
  next
    case (Some v)
    then have "sat_add v (cost_sum c) \<le> account_cost_limit t" using fit(5) that by (auto simp: accounts_fit_iff)
    then show ?thesis using Some fit_no_wrap(1) assms(3) by (simp add: entry_or_default_def)
  qed
qed

lemma sat_add_exact:
  fixes a b l :: u64
  assumes "unat a + unat b \<le> unat l"
  shows "unat (sat_add a b) = unat a + unat b" "unat (a + b) = unat a + unat b"
proof -
  have "unat a + unat b < 2 ^ 64" using assms unat_lt2p [of l] by simp
  then show "unat (sat_add a b) = unat a + unat b" "unat (a + b) = unat a + unat b"
    by (simp_all add: unat_sat_add unat_add_no_wrap)
qed

lemma add_transaction_cost_fields [simp]:
  "block_cost (fst (add_transaction_cost c t)) = block_cost t + cost_sum c"
  "vote_cost (fst (add_transaction_cost c t)) = (if is_simple_vote c then sat_add (vote_cost t) (cost_sum c) else vote_cost t)"
  "cost_by_writable_accounts (fst (add_transaction_cost c t)) =
     fst (add_account_costs (cost_sum c) (writable_accounts c) (cost_by_writable_accounts t) 0)"
  "allocated_size (fst (add_transaction_cost c t)) = sat_add (allocated_size t) (allocated_accounts_data_size c)"
  "transaction_count (fst (add_transaction_cost c t)) = sat_add (transaction_count t) 1"
  "account_cost_limit (fst (add_transaction_cost c t)) = account_cost_limit t"
  "block_cost_limit (fst (add_transaction_cost c t)) = block_cost_limit t"
  "vote_cost_limit (fst (add_transaction_cost c t)) = vote_cost_limit t"
  "original_vote_cost_limit (fst (add_transaction_cost c t)) = original_vote_cost_limit t"
  by (simp_all add: add_transaction_cost_def add_transaction_execution_cost_def Let_def split: prod.splits)

lemma sub_transaction_execution_cost_fields [simp]:
  "block_cost (sub_transaction_execution_cost c a t) = block_cost t - a"
  "vote_cost (sub_transaction_execution_cost c a t) = (if is_simple_vote c then sat_sub (vote_cost t) a else vote_cost t)"
  "cost_by_writable_accounts (sub_transaction_execution_cost c a t) =
     sub_account_costs a (writable_accounts c) (cost_by_writable_accounts t)"
  "allocated_size (sub_transaction_execution_cost c a t) = allocated_size t"
  "transaction_count (sub_transaction_execution_cost c a t) = transaction_count t"
  "account_cost_limit (sub_transaction_execution_cost c a t) = account_cost_limit t"
  "block_cost_limit (sub_transaction_execution_cost c a t) = block_cost_limit t"
  "vote_cost_limit (sub_transaction_execution_cost c a t) = vote_cost_limit t"
  "original_vote_cost_limit (sub_transaction_execution_cost c a t) = original_vote_cost_limit t"
  by (simp_all add: sub_transaction_execution_cost_def Let_def)

lemma add_transaction_execution_cost_fields [simp]:
  "block_cost (fst (add_transaction_execution_cost c a t)) = block_cost t + a"
  "vote_cost (fst (add_transaction_execution_cost c a t)) = (if is_simple_vote c then sat_add (vote_cost t) a else vote_cost t)"
  "cost_by_writable_accounts (fst (add_transaction_execution_cost c a t)) =
     fst (add_account_costs a (writable_accounts c) (cost_by_writable_accounts t) 0)"
  "allocated_size (fst (add_transaction_execution_cost c a t)) = allocated_size t"
  "account_cost_limit (fst (add_transaction_execution_cost c a t)) = account_cost_limit t"
  "block_cost_limit (fst (add_transaction_execution_cost c a t)) = block_cost_limit t"
  "vote_cost_limit (fst (add_transaction_execution_cost c a t)) = vote_cost_limit t"
  "original_vote_cost_limit (fst (add_transaction_execution_cost c a t)) = original_vote_cost_limit t"
  by (simp_all add: add_transaction_execution_cost_def Let_def split: prod.splits)

lemma add_executed_transaction_cost_fields [simp]:
  "block_cost (add_executed_transaction_cost (tx, u, b) t) = block_cost t + u"
  "vote_cost (add_executed_transaction_cost (tx, u, b) t) =
     (if cm_is_simple_vote_transaction tx then sat_add (vote_cost t) u else vote_cost t)"
  "cost_by_writable_accounts (add_executed_transaction_cost (tx, u, b) t) =
     fst (add_account_costs u (writable_keys tx) (cost_by_writable_accounts t) 0)"
  "allocated_size (add_executed_transaction_cost (tx, u, b) t) = sat_add (allocated_size t) (ucast b)"
  "account_cost_limit (add_executed_transaction_cost (tx, u, b) t) = account_cost_limit t"
  "block_cost_limit (add_executed_transaction_cost (tx, u, b) t) = block_cost_limit t"
  "vote_cost_limit (add_executed_transaction_cost (tx, u, b) t) = vote_cost_limit t"
  "original_vote_cost_limit (add_executed_transaction_cost (tx, u, b) t) = original_vote_cost_limit t"
  by (simp_all add: add_executed_transaction_cost_def Let_def)

lemma executed_entry_simps [simp]:
  "is_simple_vote (executed_entry tx) = cm_is_simple_vote_transaction tx"
  "cost_transaction (executed_entry tx) = tx" "writable_accounts (executed_entry tx) = writable_keys tx"
  by (simp_all add: executed_entry_def writable_accounts_def)

lemma remove_cost_fields [simp]:
  "block_cost (remove_cost c t) = block_cost t - cost_sum c"
  "vote_cost (remove_cost c t) = (if is_simple_vote c then sat_sub (vote_cost t) (cost_sum c) else vote_cost t)"
  "cost_by_writable_accounts (remove_cost c t) =
     sub_account_costs (cost_sum c) (writable_accounts c) (cost_by_writable_accounts t)"
  "allocated_size (remove_cost c t) = sat_sub (allocated_size t) (allocated_accounts_data_size c)"
  "transaction_count (remove_cost c t) = sat_sub (transaction_count t) 1"
  "account_cost_limit (remove_cost c t) = account_cost_limit t"
  "block_cost_limit (remove_cost c t) = block_cost_limit t"
  "vote_cost_limit (remove_cost c t) = vote_cost_limit t"
  "original_vote_cost_limit (remove_cost c t) = original_vote_cost_limit t"
  by (simp_all add: remove_cost_def remove_transaction_cost_def Let_def)

subsection \<open>Each step keeps the sums and the limits\<close>

lemma vote_limit_not_max: "limits_in_force al bl vl t \<Longrightarrow> vote_cost_limit t \<noteq> - 1"
  unfolding limits_in_force_def by (metis antisym word_order.extremum)

lemma add_tracks:
  assumes "tracks t charged" "distinct (writable_accounts c)" "would_fit c r t = Inr ()"
    and limits: "block_cost_limit t \<noteq> - 1" "account_cost_limit t \<noteq> - 1" "vote_cost_limit t \<noteq> - 1"
  shows "tracks (fst (add_transaction_cost c t)) ((c, unat (cost_sum c)) # charged)"
proof -
  note sums = fit_sums [OF assms(3) limits]
  show ?thesis
    using assms(1,2) sums sat_add_exact(2) [OF sums(1)] sat_add_exact(1) [OF sums(2)] sat_add_exact(1) [OF sums(3)]
    by (auto simp: tracks_def add_account_costs_entry)
qed

lemma add_within_limits:
  assumes "within_limits al bl vl over loaded t" "distinct (writable_accounts c)" "would_fit c r t = Inr ()"
    and limits: "limits_in_force al bl vl t"
  shows "within_limits al bl vl over loaded (fst (add_transaction_cost c t))"
proof -
  have l: "account_cost_limit t = al" "block_cost_limit t = bl" "unat (vote_cost_limit t) \<le> unat vl"
    "block_cost_limit t \<noteq> - 1" "account_cost_limit t \<noteq> - 1" "vote_cost_limit t \<noteq> - 1"
    using limits vote_limit_not_max [OF limits] by (simp_all add: limits_in_force_def word_le_nat_alt)
  note sums = fit_sums [OF assms(3) l(4-6), unfolded l(1,2)]
  have vote: "unat (sat_add (vote_cost t) (cost_sum c)) \<le> unat vl + over" if "is_simple_vote c"
    using sums(2) [OF that] sat_add_exact(1) [OF sums(2) [OF that]] l(3) by linarith
  have account: "unat (sat_add (entry_cost (cost_by_writable_accounts t) k) (cost_sum c)) \<le> unat al + over"
    if "k \<in> set (writable_accounts c)" for k
    using sums(3) [OF that] sat_add_exact(1) [OF sums(3) [OF that]] by linarith
  have block: "unat (block_cost t + cost_sum c) \<le> unat bl + over"
    using sums(1) sat_add_exact(2) [OF sums(1)] by linarith
  have alloc: "unat (sat_add (allocated_size t) (allocated_accounts_data_size c)) \<le>
      unat MAX_BLOCK_ACCOUNTS_DATA_SIZE_DELTA + loaded"
    using would_fit_Inr(4) [OF assms(3)] unfolding word_le_nat_alt by linarith
  show ?thesis
    using assms(1,2) vote account block alloc by (simp add: within_limits_def add_account_costs_entry)
qed

lemma charged_for_part: "Q c \<Longrightarrow> w \<le> charged_for Q (before @ (c, w) # after)"
  by simp

lemma sub_tracks:
  assumes tr: "tracks t (before @ (c, w) # after)" and a: "unat a \<le> w"
  shows "tracks (sub_transaction_execution_cost c a t) (before @ (c, w - unat a) # after)"
proof -
  have b: "unat (block_cost t - a) = unat (block_cost t) - unat a"
    using tr a by (intro unat_sub) (simp add: tracks_def word_le_nat_alt)
  show ?thesis
    using tr a by (auto simp: tracks_def b unat_sat_sub sub_account_costs_entry)
qed

lemma sub_within_limits:
  assumes tr: "tracks t (before @ (c, w) # after)" and a: "unat a \<le> w" and w: "within_limits al bl vl over loaded t"
  shows "within_limits al bl vl over loaded (sub_transaction_execution_cost c a t)"
proof -
  have b: "unat (block_cost t - a) = unat (block_cost t) - unat a"
    using tr a by (intro unat_sub) (simp add: tracks_def word_le_nat_alt)
  have d: "distinct (writable_accounts c)" using tr by (auto simp: tracks_def)
  show ?thesis
    using w by (auto simp: within_limits_def b unat_sat_sub sub_account_costs_entry [OF d]
      intro: le_trans [OF diff_le_self])
qed

text \<open>A charge without admission goes on top of the limits, and is exact while there is room for it.\<close>

lemma over_exact:
  fixes a b l :: u64
  assumes "unat a \<le> unat l + over" "unat l + (over + unat b) < 2 ^ 64"
  shows "unat (sat_add a b) = unat a + unat b" "unat (a + b) = unat a + unat b"
    "unat a + unat b \<le> unat l + (over + unat b)"
proof -
  have "unat a + unat b < 2 ^ 64" using assms by linarith
  then show "unat (sat_add a b) = unat a + unat b" "unat (a + b) = unat a + unat b"
    by (simp_all add: unat_sat_add unat_add_no_wrap)
qed (use assms in linarith)

lemma charge_over:
  assumes tr: "tracks t (before @ (c, w) # after)" and w: "within_limits al bl vl over loaded t"
    and room: "cost_room al bl vl (over + unat a)"
  shows "tracks (fst (add_transaction_execution_cost c a t)) (before @ (c, w + unat a) # after)"
    "within_limits al bl vl (over + unat a) loaded (fst (add_transaction_execution_cost c a t))"
proof -
  have d: "distinct (writable_accounts c)" using tr by (auto simp: tracks_def)
  have block: "unat (block_cost t) \<le> unat bl + over" "unat bl + (over + unat a) < 2 ^ 64"
    and vote: "unat (vote_cost t) \<le> unat vl + over" "unat vl + (over + unat a) < 2 ^ 64"
    and account: "unat (entry_cost (cost_by_writable_accounts t) k) \<le> unat al + over"
      "unat al + (over + unat a) < 2 ^ 64" for k
    using w room by (auto simp: within_limits_def cost_room_def)
  note exact = over_exact [OF block] over_exact [OF vote] over_exact [OF account]
  show "tracks (fst (add_transaction_execution_cost c a t)) (before @ (c, w + unat a) # after)"
    using tr by (auto simp: tracks_def exact add_account_costs_entry)
  show "within_limits al bl vl (over + unat a) loaded (fst (add_transaction_execution_cost c a t))"
    using w exact le_add1 [of "unat al + over" "unat a"]
    by (auto simp: within_limits_def add_account_costs_entry [OF d] trans_le_add1 add.assoc intro: order_trans)
qed

lemma tracks_zero: "tracks t charged \<Longrightarrow> distinct (writable_accounts c) \<Longrightarrow> tracks t ((c, 0) # charged)"
  by (simp add: tracks_def)

lemma tracks_fields:
  "tracks t charged \<Longrightarrow> block_cost t' = block_cost t \<Longrightarrow> vote_cost t' = vote_cost t \<Longrightarrow>
   cost_by_writable_accounts t' = cost_by_writable_accounts t \<Longrightarrow> tracks t' charged"
  by (simp add: tracks_def)

lemma within_limits_fields:
  "within_limits al bl vl over loaded t \<Longrightarrow> block_cost t' = block_cost t \<Longrightarrow> vote_cost t' = vote_cost t \<Longrightarrow>
   cost_by_writable_accounts t' = cost_by_writable_accounts t \<Longrightarrow>
   unat (allocated_size t') \<le> unat (allocated_size t) + extra \<Longrightarrow> within_limits al bl vl over (loaded + extra) t'"
  by (simp add: within_limits_def)

lemma estimate_le_sum: "estimated_load_and_execution_units c \<le> cost_sum c"
  by (cases c) (auto simp: estimated_load_and_execution_units_def usage_cost_sum_def cost_constants word_le_nat_alt arith_unat)

lemma update_cases:
  "update_execution_cost c e l t =
     (if unat (sat_add e l) \<le> unat (estimated_load_and_execution_units c)
      then (if sat_add e l = estimated_load_and_execution_units c then t
            else sub_transaction_execution_cost c (estimated_load_and_execution_units c - sat_add e l) t)
      else fst (add_transaction_execution_cost c (sat_add e l - estimated_load_and_execution_units c) t))"
  by (auto simp: update_execution_cost_def Let_def word_less_nat_alt)

lemma refund_le_sum:
  assumes "x \<le> estimated_load_and_execution_units c"
  shows "unat (estimated_load_and_execution_units c - x) \<le> unat (cost_sum c)"
proof -
  have "unat (estimated_load_and_execution_units c - x) \<le> unat (estimated_load_and_execution_units c)"
    using assms by (simp add: unat_sub)
  also have "\<dots> \<le> unat (cost_sum c)" using estimate_le_sum [of c] by (simp only: word_le_nat_alt)
  finally show ?thesis .
qed

lemma tracks_drop_zero: "tracks t (before @ (c, 0) # after) \<Longrightarrow> tracks t (before @ after)"
  by (auto simp: tracks_def)

lemma tracks_remove: "tracks (sub_transaction_execution_cost c (cost_sum c) t) charged \<Longrightarrow> tracks (remove_cost c t) charged"
  by (simp add: tracks_def)

lemma within_limits_remove:
  assumes "within_limits al bl vl over loaded (sub_transaction_execution_cost c (cost_sum c) t)"
  shows "within_limits al bl vl over loaded (remove_cost c t)"
  using within_limits_fields [OF assms, of "remove_cost c t" 0] by (simp add: unat_sat_sub)

lemma ct_run_limits: "ct_run al bl vl t charged over loaded \<Longrightarrow> limits_in_force al bl vl t"
proof (induction rule: ct_run.induct)
  case (update t before c after over loaded e l)
  then show ?case by (simp add: update_cases limits_in_force_def)
qed (auto simp: limits_in_force_def new_from_parent_limits_def set_limits_def default_cost_tracker_def try_add_Inr
  set_proposer_vote_limit_def restore_vote_limit_def add_transactions_in_flight_def sub_transactions_in_flight_def)

lemma update_inv:
  assumes tr: "tracks t (before @ (c, unat (cost_sum c)) # after)" and w: "within_limits al bl vl over loaded t"
    and room: "cost_room al bl vl (over + overrun c e l)"
  shows "tracks (update_execution_cost c e l t) (before @ (c, actual_charge c e l) # after)"
    "within_limits al bl vl (over + overrun c e l) loaded (update_execution_cost c e l t)"
proof -
  let ?est = "estimated_load_and_execution_units c" and ?act = "sat_add e l"
  have sum: "unat ?est \<le> unat (cost_sum c)" using estimate_le_sum [of c] by (simp only: word_le_nat_alt)
  have "tracks (update_execution_cost c e l t) (before @ (c, actual_charge c e l) # after) \<and>
    within_limits al bl vl (over + overrun c e l) loaded (update_execution_cost c e l t)"
  proof (cases "unat ?act \<le> unat ?est")
    case True
    then have le: "?act \<le> ?est" by (simp add: word_le_nat_alt)
    have charge: "actual_charge c e l = unat (cost_sum c) - unat (?est - ?act)" "overrun c e l = 0"
      using True sum by (simp_all add: actual_charge_def overrun_def unat_sub [OF le])
    show ?thesis
      using sub_tracks [OF tr refund_le_sum [OF le]] sub_within_limits [OF tr refund_le_sum [OF le] w] tr w True
      by (auto simp: charge update_cases)
  next
    case False
    then have le: "?est \<le> ?act" by (simp add: word_le_nat_alt)
    have charge: "actual_charge c e l = unat (cost_sum c) + unat (?act - ?est)" "overrun c e l = unat (?act - ?est)"
      using False sum by (simp_all add: actual_charge_def overrun_def unat_sub [OF le])
    show ?thesis
      using charge_over [OF tr w, of "?act - ?est"] room False by (simp add: charge update_cases)
  qed
  then show "tracks (update_execution_cost c e l t) (before @ (c, actual_charge c e l) # after)"
    "within_limits al bl vl (over + overrun c e l) loaded (update_execution_cost c e l t)" by blast+
qed

lemma unat_ucast_u32: "unat (ucast x :: u64) = unat x" for x :: u32
proof -
  have "unat x < 2 ^ 64" using unat_lt2p [of x] by simp
  then show ?thesis by (simp add: unsigned_ucast_eq take_bit_nat_eq_self)
qed

lemma executed_inv:
  assumes tr: "tracks t charged" and w: "within_limits al bl vl over loaded t"
    and room: "cost_room al bl vl (over + unat u)" and keys: "distinct (cm_account_keys tx)"
  shows "tracks (add_executed_transaction_cost (tx, u, b) t) ((executed_entry tx, unat u) # charged)"
    "within_limits al bl vl (over + unat u) (loaded + unat b) (add_executed_transaction_cost (tx, u, b) t)"
proof -
  have d: "distinct (writable_accounts (executed_entry tx))"
    using keys by (intro writable_accounts_distinct) simp
  note over = charge_over [of t "[]" "executed_entry tx" 0, simplified, OF tracks_zero [OF tr d, simplified] w room]
  show "tracks (add_executed_transaction_cost (tx, u, b) t) ((executed_entry tx, unat u) # charged)"
    by (rule tracks_fields [OF over(1)]) simp_all
  have "unat (sat_add (allocated_size t) (ucast b)) \<le> unat (allocated_size t) + unat b"
    by (simp add: unat_sat_add unat_ucast_u32)
  then show "within_limits al bl vl (over + unat u) (loaded + unat b) (add_executed_transaction_cost (tx, u, b) t)"
    by (intro within_limits_fields [OF over(2)]) simp_all
qed

lemma cost_room_mono: "cost_room al bl vl (over + extra) \<Longrightarrow> cost_room al bl vl over"
  by (simp add: cost_room_def)

lemma ct_run_inv:
  assumes "ct_run al bl vl t charged over loaded"
  shows "cost_room al bl vl over \<Longrightarrow> tracks t charged \<and> within_limits al bl vl over loaded t"
  using assms
proof (induction rule: ct_run.induct)
  case (start parent)
  then show ?case
    by (simp add: tracks_def within_limits_def new_from_parent_limits_def set_limits_def default_cost_tracker_def
      entry_or_default_def)
next
  case (add t charged over loaded c r t' u)
  then have fit: "would_fit c r t = Inr ()" and t': "t' = fst (add_transaction_cost c t)" by (simp_all add: try_add_Inr)
  have d: "distinct (writable_accounts c)" using add.hyps(2) by (rule writable_accounts_distinct)
  have l: "limits_in_force al bl vl t" by (rule ct_run_limits [OF add.hyps(1)])
  have not_max: "block_cost_limit t \<noteq> - 1" "account_cost_limit t \<noteq> - 1" "vote_cost_limit t \<noteq> - 1"
    using l vote_limit_not_max [OF l] by (simp_all add: limits_in_force_def)
  from add.IH add.prems show ?case
    using add_tracks [OF _ d fit not_max] add_within_limits [OF _ d fit l] unfolding t' by blast
next
  case (update t before c after over loaded e l)
  then show ?case using update_inv [of t "before" c after al bl vl over loaded e l] cost_room_mono by blast
next
  case (remove t before c after over loaded)
  then show ?case
    using sub_tracks [of t "before" c _ after "cost_sum c", OF _ order_refl]
      sub_within_limits [of t "before" c _ after "cost_sum c", OF _ order_refl]
    by (auto intro: tracks_drop_zero tracks_remove within_limits_remove)
next
  case (executed t charged over loaded tx u b)
  then show ?case using executed_inv [of t charged al bl vl over loaded u tx b] cost_room_mono by blast
qed (auto simp: add_transactions_in_flight_def sub_transactions_in_flight_def set_proposer_vote_limit_def
  restore_vote_limit_def tracks_def within_limits_def)

subsection \<open>What an executed block is charged\<close>

definition loaded_total :: "(cost_message \<times> u64 \<times> u32) list \<Rightarrow> nat" where
  "loaded_total executed = sum_list (map (\<lambda>(_, _, loaded). unat loaded) executed)"

lemma add_executed_allocated:
  "unat (allocated_size (add_executed_transaction_costs executed t)) =
     min (unat (allocated_size t) + loaded_total executed) (2 ^ 64 - 1)"
proof (induction executed arbitrary: t)
  case Nil
  then show ?case using unat_lt2p [of "allocated_size t"] by (simp add: add_executed_transaction_costs_def loaded_total_def)
next
  case (Cons x executed)
  obtain tx units loaded where x: "x = (tx, units, loaded)" by (cases x)
  have "unat (allocated_size (add_executed_transaction_cost x t)) =
        min (unat (allocated_size t) + unat loaded) (2 ^ 64 - 1)"
    by (simp add: x add_executed_transaction_cost_def Let_def unat_sat_add unat_ucast_u32)
  then show ?case using Cons.IH [of "add_executed_transaction_cost x t"]
    by (simp add: x add_executed_transaction_costs_def loaded_total_def)
qed

subsection \<open>A block in the making\<close>

definition demo_message :: cost_message where
  "demo_message = \<lparr>cm_account_keys = [1, 2, 3], cm_is_writable = (\<lambda>i. i < 2), cm_is_simple_vote_transaction = False,
     cm_num_transaction_signatures = 1, cm_num_secp256k1_signatures = 0, cm_num_ed25519_signatures = 0,
     cm_num_secp256r1_signatures = 0, cm_instruction_data_len = 40, cm_num_write_locks = 2\<rparr>"

definition demo_cost_env :: "unit cost_env" where
  "demo_cost_env = \<lparr>ce_verify_strict = True, ce_secp256r1_precompile = True, ce_memory_usage_cost = (\<lambda>bytes. ucast (bytes div 4096)),
     ce_max_permitted_data_length = 10485760, ce_max_allocations_per_transaction = 20971520, ce_system_program = 0,
     ce_deserialize = (\<lambda>_. Some (Allocate 100))\<rparr>"

definition demo_cost :: transaction_cost where
  "demo_cost = calculate_cost demo_cost_env demo_message [(0, ())] (Some (200000, 8192))"

definition demo_vote :: transaction_cost where
  "demo_vote = SimpleVote demo_message"

definition demo_ct0 :: cost_tracker where "demo_ct0 = set_limits 12000000 60000000 36000000 default_cost_tracker"
definition demo_ct1 :: cost_tracker where "demo_ct1 = fst (add_transaction_cost demo_cost demo_ct0)"
definition demo_ct2 :: cost_tracker where "demo_ct2 = fst (add_transaction_cost demo_vote demo_ct1)"
definition demo_ct3 :: cost_tracker where "demo_ct3 = update_execution_cost demo_cost 1500 1 demo_ct2"
definition demo_ct4 :: cost_tracker where "demo_ct4 = update_execution_cost demo_vote 2200 8 demo_ct3"
definition demo_ct5 :: cost_tracker where
  "demo_ct5 = add_executed_transaction_cost (demo_message, 1000, 500) (set_proposer_vote_limit demo_ct4)"

lemmas demo_defs = demo_cost_def demo_vote_def demo_message_def demo_cost_env_def demo_ct0_def demo_ct1_def demo_ct2_def
  calculate_cost_def calculate_non_vote_transaction_cost_def get_signature_cost_def get_write_lock_cost_def
  get_estimated_execution_cost_def get_instructions_data_cost_def calculate_allocated_accounts_data_size_def
  calculate_account_data_size_on_instruction_def calculate_account_data_size_on_deserialized_system_instruction_def
  cost_constants usage_cost_sum_def estimated_load_and_execution_units_def set_limits_def default_cost_tracker_def
  add_transaction_cost_def add_transaction_execution_cost_def would_fit_def writable_accounts_def writable_keys_def
  sat_add_def sat_sub_def sat_mul_def entry_or_default_def Let_def

lemma demo_cost_values:
  "would_fit demo_cost 0 demo_ct0 = Inr ()" "would_fit demo_vote 0 demo_ct1 = Inr ()"
  "distinct (cm_account_keys (cost_transaction demo_cost))" "distinct (cm_account_keys (cost_transaction demo_vote))"
  "actual_charge demo_cost 1500 1 = 2831" "overrun demo_cost 1500 1 = 0"
  "unat (cost_sum demo_vote) = 3428" "actual_charge demo_vote 2200 8 = 3528" "overrun demo_vote 2200 8 = 100"
  by (simp_all add: demo_defs actual_charge_def overrun_def)

lemma demo_ct0_run: "ct_run 12000000 60000000 36000000 demo_ct0 [] 0 0"
proof -
  have "new_from_parent_limits demo_ct0 = demo_ct0"
    by (simp add: new_from_parent_limits_def demo_ct0_def set_limits_def default_cost_tracker_def)
  then show ?thesis
    using ct_run.start [of demo_ct0 12000000 60000000 36000000]
    by (simp add: demo_ct0_def set_limits_def default_cost_tracker_def)
qed

lemma demo_cost_run:
  "ct_run 12000000 60000000 36000000 demo_ct1 [(demo_cost, unat (cost_sum demo_cost))] 0 0"
  "ct_run 12000000 60000000 36000000 demo_ct5
     [(executed_entry demo_message, 1000), (demo_vote, 3528), (demo_cost, 2831)] 1100 500"
proof -
  let ?run = "ct_run 12000000 60000000 36000000"
  show one: "?run demo_ct1 [(demo_cost, unat (cost_sum demo_cost))] 0 0"
    using demo_ct0_run demo_cost_values(3) try_add_fits [OF demo_cost_values(1)] unfolding demo_ct1_def by (rule ct_run.add)
  have two: "?run demo_ct2 [(demo_vote, unat (cost_sum demo_vote)), (demo_cost, unat (cost_sum demo_cost))] 0 0"
    using one demo_cost_values(4) try_add_fits [OF demo_cost_values(2)] unfolding demo_ct2_def by (rule ct_run.add)
  have three: "?run demo_ct3 [(demo_vote, unat (cost_sum demo_vote)), (demo_cost, 2831)] 0 0"
    using ct_run.update [of _ _ _ demo_ct2 "[(demo_vote, unat (cost_sum demo_vote))]" demo_cost "[]" 0 0 1500 1] two
    by (simp add: demo_cost_values demo_ct3_def)
  have "?run demo_ct4 [(demo_vote, 3528), (demo_cost, 2831)] 100 0"
    using ct_run.update [of _ _ _ demo_ct3 "[]" demo_vote "[(demo_cost, 2831)]" 0 0 2200 8] three
    by (simp add: demo_cost_values demo_ct4_def)
  from ct_run.executed [OF ct_run.proposer [OF this], of demo_message 1000 500]
  show "?run demo_ct5 [(executed_entry demo_message, 1000), (demo_vote, 3528), (demo_cost, 2831)] 1100 500"
    by (simp add: demo_ct5_def demo_message_def)
qed



text \<open>
  A transaction that was admitted and is then removed leaves no trace in the costs: the block cost, the
  vote cost, the cost of every account and the allocated data size are what they were before it, and
  so is the number of transactions.
\<close>

lemma try_add_then_remove:
  assumes "ct_run account_limit block_limit vote_limit t charged over loaded"
    and "distinct (cm_account_keys (cost_transaction c))"
    and "try_add c reservation t = Inr (t', updated)"
    and "transaction_count t \<noteq> - 1"
  shows "block_cost (remove_cost c t') = block_cost t \<and> vote_cost (remove_cost c t') = vote_cost t
       \<and> (\<forall>k. entry_cost (cost_by_writable_accounts (remove_cost c t')) k = entry_cost (cost_by_writable_accounts t) k)
       \<and> allocated_size (remove_cost c t') = allocated_size t
       \<and> transaction_count (remove_cost c t') = transaction_count t"
proof -
  have fit: "would_fit c reservation t = Inr ()" and t': "t' = fst (add_transaction_cost c t)"
    using assms(3) by (simp_all add: try_add_Inr)
  have d: "distinct (writable_accounts c)" using assms(2) by (rule writable_accounts_distinct)
  have inv: "block_cost_limit t \<noteq> - 1" "account_cost_limit t \<noteq> - 1" "vote_cost_limit t \<noteq> - 1"
    using ct_run_limits [OF assms(1)] vote_limit_not_max by (auto simp: limits_in_force_def)
  note sums = fit_sums [OF fit inv]
  have alloc: "unat (allocated_size t) + unat (allocated_accounts_data_size c) \<le> unat MAX_BLOCK_ACCOUNTS_DATA_SIZE_DELTA"
    using would_fit_Inr(4) [OF fit] by (rule fit_no_wrap) (simp add: cost_constants)
  have count: "unat (transaction_count t) + unat (1 :: u64) \<le> unat (- 1 :: u64)"
    using assms(4) unat_lt2p [of "transaction_count t"] by (simp add: unat_max_word word_unat_eq_iff)
  have undo: "sat_sub (sat_add a b) b = a" if "unat a + unat b \<le> unat l" for a b l :: u64
    by (simp add: word_unat_eq_iff unat_sat_sub sat_add_exact(1) [OF that])
  show ?thesis
    unfolding t' using undo [OF sums(2)] undo [OF sums(3)] undo [OF alloc] undo [OF count]
    by (auto simp: add_account_costs_entry [OF d] sub_account_costs_entry [OF d])
qed

lemma try_add_then_remove_witness:
  "ct_run 12000000 60000000 36000000 demo_ct1 [(demo_cost, unat (cost_sum demo_cost))] 0 0
 \<and> block_cost (remove_cost demo_vote demo_ct2) = block_cost demo_ct1
 \<and> entry_cost (cost_by_writable_accounts (remove_cost demo_vote demo_ct2)) 1 = entry_cost (cost_by_writable_accounts demo_ct1) 1"
proof -
  have count: "transaction_count demo_ct1 \<noteq> - 1" by (simp add: demo_defs)
  show ?thesis
    using try_add_then_remove [OF demo_cost_run(1) demo_cost_values(4) try_add_fits [OF demo_cost_values(2)] count] demo_cost_run(1)
    unfolding demo_ct2_def by simp
qed

text \<open>
  C40.  The block stage charges an executed block by adding the bytes its transactions loaded to the
  allocated data size, which admission holds against the limit on new allocations.  Once the
  transactions of a block have together loaded more than that limit, the bank admits no further
  transaction, even if nothing was allocated.
\<close>

theorem executed_block_stops_admission:
  assumes "unat MAX_BLOCK_ACCOUNTS_DATA_SIZE_DELTA < loaded_total executed"
  shows "\<exists>e. try_add c reservation (add_executed_transaction_costs executed t) = Inl e"
proof -
  let ?t = "add_executed_transaction_costs executed t"
  have "unat (allocated_size ?t) > unat MAX_BLOCK_ACCOUNTS_DATA_SIZE_DELTA"
    using assms by (simp add: add_executed_allocated cost_constants)
  then have "sat_add (allocated_size ?t) (allocated_accounts_data_size c) > MAX_BLOCK_ACCOUNTS_DATA_SIZE_DELTA"
    by (simp add: word_less_nat_alt unat_sat_add cost_constants)
  then have "would_fit c reservation ?t \<noteq> Inr ()" unfolding would_fit_iff by blast
  then show ?thesis by (cases "would_fit c reservation ?t") (auto simp: try_add_def)
qed

lemma executed_block_stops_admission_witness:
  "\<exists>e. try_add demo_vote 0 (add_executed_transaction_costs
     [(demo_message, 1000, 60000000), (demo_message, 1000, 60000000)] demo_ct0) = Inl e"
  by (rule executed_block_stops_admission) (simp add: loaded_total_def cost_constants)

end
