(* ===== verification/Devin_Scheduler.thy ===== *)
theory Devin_Scheduler
  imports Account_Locks "HOL-Library.Monad_Syntax"
begin

text \<open>
  The scheduler that executes a whole block in parallel: \<open>DevinScheduler\<close> of
  core/src/block_stage/devin_scheduler.rs. Its operations, then the invariant that relates
  its lock maps to the set of running transactions, then the runs of the scheduling loop of
  core/src/block_stage/block_consumer.rs and what they guarantee: transactions in flight
  never conflict, conflicting ones run in block order, and the block executes as if it were
  run one transaction after the other.

  The cost of a transaction (\<open>CostModel::calculate_cost(..).sum()\<close>) is a parameter.
\<close>

section \<open>The scheduler\<close>

type_synonym lock_map = "pubkey \<rightharpoonup> u32"

record devin_scheduler =
  running_locks :: lock_map
  skipped_locks :: lock_map
  indices :: "nat list"
  next_index :: nat
  completed :: nat
  finished :: bool

definition MAX_COST :: u64 where
  "MAX_COST = 1400000"

definition MAX_RANGE :: nat where
  "MAX_RANGE = 64"

definition devin_new :: devin_scheduler where
  "devin_new = \<lparr>running_locks = Map.empty, skipped_locks = Map.empty, indices = [], next_index = 0,
     completed = 0, finished = False\<rparr>"

definition is_blocked :: "svm_message \<Rightarrow> lock_map \<Rightarrow> bool" where
  "is_blocked tx locks =
     list_ex (\<lambda>(account, writable).
       case locks account of
         Some lock \<Rightarrow> lock = - 1 \<or> (lock \<noteq> 0 \<and> writable)
       | None \<Rightarrow> False) (accounts_with_is_writable tx)"

definition devin_lock_account :: "lock_map \<Rightarrow> key_lock \<Rightarrow> lock_map" where
  "devin_lock_account locks kw =
     (case kw of (account, write) \<Rightarrow>
        (case locks account of
           Some v \<Rightarrow> locks(account \<mapsto> if write then - 1 else sat_add v 1)
         | None \<Rightarrow> locks(account \<mapsto> if write then - 1 else 1)))"

definition devin_lock_accounts :: "svm_message \<Rightarrow> lock_map \<Rightarrow> lock_map" where
  "devin_lock_accounts tx locks = foldl devin_lock_account locks (accounts_with_is_writable tx)"

definition devin_unlock_account :: "lock_map \<Rightarrow> key_lock \<Rightarrow> lock_map" where
  "devin_unlock_account locks kw =
     (case kw of (account, write) \<Rightarrow>
        (case locks account of
           Some v \<Rightarrow> locks(account \<mapsto> if write then 0 else sat_sub v 1)
         | None \<Rightarrow> locks))"

definition devin_unlock_accounts :: "svm_message \<Rightarrow> lock_map \<Rightarrow> lock_map" where
  "devin_unlock_accounts tx locks = foldl devin_unlock_account locks (accounts_with_is_writable tx)"

definition devin_init :: "devin_scheduler \<Rightarrow> svm_message list \<Rightarrow> devin_scheduler" where
  "devin_init self transactions =
     self\<lparr>indices := [0..<length transactions], running_locks := Map.empty, skipped_locks := Map.empty,
       completed := 0, next_index := 0, finished := False\<rparr>"

text \<open>
  The loop of \<open>pop\<close> over the next indices, with the range found so far and its cost. \<open>None\<close>
  is the panic of \<open>transactions[i]\<close> out of range.
\<close>

fun pop_loop ::
  "(svm_message \<Rightarrow> u64) \<Rightarrow> svm_message list \<Rightarrow> devin_scheduler \<Rightarrow> (nat \<times> nat) option \<Rightarrow> u64 \<Rightarrow> nat list \<Rightarrow>
   (devin_scheduler \<times> (nat \<times> nat) option) option" where
  "pop_loop cost_of transactions self val cost [] = Some (self, val)"
| "pop_loop cost_of transactions self val cost (i # rest) =
     (if (case val of Some (start, end) \<Rightarrow> i \<noteq> end | None \<Rightarrow> False) then Some (self, val)
      else if \<not> i < length transactions then None
      else
        let tx = transactions ! i in
        if is_blocked tx (running_locks self) \<or> is_blocked tx (skipped_locks self)
        then Some (self\<lparr>next_index := next_index self + 1,
               skipped_locks := devin_lock_accounts tx (skipped_locks self)\<rparr>, val)
        else
          let self = self\<lparr>running_locks := devin_lock_accounts tx (running_locks self)\<rparr>;
              val = (case val of Some (start, end) \<Rightarrow> Some (start, end + 1) | None \<Rightarrow> Some (i, i + 1));
              cost = cost + cost_of tx
          in if cost > MAX_COST then Some (self, val)
             else pop_loop cost_of transactions self val cost rest)"

fun position :: "nat \<Rightarrow> nat list \<Rightarrow> nat option" where
  "position x [] = None"
| "position x (y # ys) = (if y = x then Some 0 else map_option Suc (position x ys))"

definition devin_pop ::
  "(svm_message \<Rightarrow> u64) \<Rightarrow> svm_message list \<Rightarrow> devin_scheduler \<Rightarrow>
   (devin_scheduler \<times> (nat \<times> nat) option) option" where
  "devin_pop cost_of transactions self =
     do {
       (self, val) \<leftarrow> pop_loop cost_of transactions self None 0
         (take MAX_RANGE (drop (next_index self) (indices self)));
       case val of
         None \<Rightarrow> Some (self, None)
       | Some (start, end) \<Rightarrow>
           do {
             at \<leftarrow> position start (indices self);
             if at + (end - start) > length (indices self) then None
             else Some (self\<lparr>indices := take at (indices self) @ drop (at + (end - start)) (indices self)\<rparr>,
                    Some (start, end))
           }
     }"

fun unlock_range ::
  "svm_message list \<Rightarrow> lock_map \<Rightarrow> nat list \<Rightarrow> lock_map option" where
  "unlock_range transactions locks [] = Some locks"
| "unlock_range transactions locks (i # rest) =
     (if i < length transactions
      then unlock_range transactions (devin_unlock_accounts (transactions ! i) locks) rest else None)"

definition devin_finish ::
  "svm_message list \<Rightarrow> devin_scheduler \<Rightarrow> nat \<times> nat \<Rightarrow> devin_scheduler option" where
  "devin_finish transactions self rng =
     (case rng of (start, end) \<Rightarrow>
        do {
          locks \<leftarrow> unlock_range transactions (running_locks self) [start..<end];
          Some (self\<lparr>completed := completed self + (end - start), running_locks := locks,
            skipped_locks := Map.empty, next_index := 0,
            finished := (completed self + (end - start) = length transactions)\<rparr>)
        })"

section \<open>Values of the lock maps\<close>

definition lockval :: "lock_map \<Rightarrow> pubkey \<Rightarrow> u32" where
  "lockval locks k = (case locks k of Some v \<Rightarrow> v | None \<Rightarrow> 0)"

definition accesses :: "svm_message \<Rightarrow> pubkey \<Rightarrow> bool \<Rightarrow> bool" where
  "accesses tx k w \<longleftrightarrow> (k, w) \<in> set (accounts_with_is_writable tx)"

text \<open>A fold of per-key updates over keys that are all different updates each key once.\<close>

lemma foldl_keyed:
  assumes step: "\<And>t a w k. val (f t (a, w)) k = (if k = a then g w (val t a) else val t k)"
  shows "distinct (map fst xs) \<Longrightarrow>
    val (foldl f t xs) k = (case map_of xs k of Some w \<Rightarrow> g w (val t k) | None \<Rightarrow> val t k)"
proof (induction xs arbitrary: t)
  case (Cons x xs)
  obtain a w where x: "x = (a, w)" by (cases x)
  have none: "map_of xs a = None" using Cons.prems x by (simp add: map_of_eq_None_iff)
  have "val (foldl f (f t x) xs) k =
      (case map_of xs k of Some w \<Rightarrow> g w (val (f t x) k) | None \<Rightarrow> val (f t x) k)"
    using Cons.IH Cons.prems by simp
  then show ?case
    using none by (cases "k = a") (simp_all add: x step split: option.split)
qed simp

lemma map_of_accesses:
  assumes "distinct (account_keys tx)"
  shows "map_of (accounts_with_is_writable tx) k = Some w \<longleftrightarrow> accesses tx k w"
    "map_of (accounts_with_is_writable tx) k = None \<longleftrightarrow> (\<forall>w. \<not> accesses tx k w)"
    "distinct (map fst (accounts_with_is_writable tx))"
proof -
  have fst: "map fst (accounts_with_is_writable tx) = account_keys tx"
    by (simp add: accounts_with_is_writable_def comp_def case_prod_beta enumerate_eq_zip)
  show dist: "distinct (map fst (accounts_with_is_writable tx))" using assms by (simp add: fst)
  show "map_of (accounts_with_is_writable tx) k = Some w \<longleftrightarrow> accesses tx k w"
    using dist by (simp add: accesses_def)
  show "map_of (accounts_with_is_writable tx) k = None \<longleftrightarrow> (\<forall>w. \<not> accesses tx k w)"
    by (force simp: accesses_def map_of_eq_None_iff image_iff)
qed

lemma lockval_lock:
  assumes "distinct (account_keys tx)"
  shows "lockval (devin_lock_accounts tx locks) k =
    (if accesses tx k True then - 1 else if accesses tx k False then sat_add (lockval locks k) 1
     else lockval locks k)"
proof -
  have "lockval (devin_lock_account t (a, w)) j =
      (if j = a then (if w then - 1 else sat_add (lockval t a) 1) else lockval t j)" for t a w j
    by (auto simp: devin_lock_account_def lockval_def sat_add_def split: option.splits)
  from foldl_keyed [where val = lockval and f = devin_lock_account and g = "\<lambda>w v. if w then - 1 else sat_add v 1",
      OF this map_of_accesses(3) [OF assms], of locks k]
  show ?thesis
    using map_of_accesses(1,2) [OF assms, of k] unfolding devin_lock_accounts_def
    by (cases "map_of (accounts_with_is_writable tx) k") auto
qed

lemma lockval_unlock:
  assumes "distinct (account_keys tx)"
  shows "lockval (devin_unlock_accounts tx locks) k =
    (if accesses tx k True then 0 else if accesses tx k False then sat_sub (lockval locks k) 1
     else lockval locks k)"
proof -
  have "lockval (devin_unlock_account t (a, w)) j =
      (if j = a then (if w then 0 else sat_sub (lockval t a) 1) else lockval t j)" for t a w j
    by (auto simp: devin_unlock_account_def lockval_def sat_sub_def split: option.splits)
  from foldl_keyed [where val = lockval and f = devin_unlock_account and g = "\<lambda>w v. if w then 0 else sat_sub v 1",
      OF this map_of_accesses(3) [OF assms], of locks k]
  show ?thesis
    using map_of_accesses(1,2) [OF assms, of k] unfolding devin_unlock_accounts_def
    by (cases "map_of (accounts_with_is_writable tx) k") auto
qed

lemma is_blocked_iff:
  "is_blocked tx locks \<longleftrightarrow>
     (\<exists>k w. accesses tx k w \<and> (lockval locks k = - 1 \<or> (lockval locks k \<noteq> 0 \<and> w)))"
proof -
  have elem: "(case locks k of Some lock \<Rightarrow> lock = - 1 \<or> (lock \<noteq> 0 \<and> w) | None \<Rightarrow> False) \<longleftrightarrow>
      lockval locks k = - 1 \<or> (lockval locks k \<noteq> 0 \<and> w)" for k w
    by (cases "locks k") (simp_all add: lockval_def)
  show ?thesis
    unfolding is_blocked_def list_ex_iff accesses_def elem by auto
qed

lemma accesses_unique:
  assumes "distinct (account_keys tx)" "accesses tx k w" "accesses tx k w'"
  shows "w = w'"
  using map_of_accesses(1) [OF assms(1), of k] assms(2,3) by (metis option.inject)

section \<open>The lock maps and the transactions they stand for\<close>

definition tx_conflict :: "svm_message \<Rightarrow> svm_message \<Rightarrow> bool" where
  "tx_conflict tx tx' \<longleftrightarrow> (\<exists>k w w'. accesses tx k w \<and> accesses tx' k w' \<and> (w \<or> w'))"

abbreviation conflicting :: "svm_message list \<Rightarrow> nat \<Rightarrow> nat \<Rightarrow> bool" where
  "conflicting txs i j \<equiv> tx_conflict (txs ! i) (txs ! j)"

lemma tx_conflict_sym: "tx_conflict tx tx' \<Longrightarrow> tx_conflict tx' tx"
  by (auto simp: tx_conflict_def)

definition readers :: "svm_message list \<Rightarrow> nat set \<Rightarrow> pubkey \<Rightarrow> nat set" where
  "readers txs A k = {i \<in> A. accesses (txs ! i) k False}"

definition writers :: "svm_message list \<Rightarrow> nat set \<Rightarrow> pubkey \<Rightarrow> nat set" where
  "writers txs A k = {i \<in> A. accesses (txs ! i) k True}"

text \<open>Locks held exactly by a set, and locks that at least cover a set.\<close>

definition locks_of :: "svm_message list \<Rightarrow> lock_map \<Rightarrow> nat set \<Rightarrow> bool" where
  "locks_of txs locks A \<longleftrightarrow>
     (\<forall>k. if writers txs A k \<noteq> {} then lockval locks k = - 1
          else unat (lockval locks k) = card (readers txs A k))"

definition locks_cover :: "svm_message list \<Rightarrow> lock_map \<Rightarrow> nat set \<Rightarrow> bool" where
  "locks_cover txs locks A \<longleftrightarrow>
     (\<forall>k. (writers txs A k \<noteq> {} \<longrightarrow> lockval locks k = - 1) \<and>
          (readers txs A k \<noteq> {} \<longrightarrow> lockval locks k \<noteq> 0))"

definition independent :: "svm_message list \<Rightarrow> nat set \<Rightarrow> bool" where
  "independent txs A \<longleftrightarrow> (\<forall>i \<in> A. \<forall>j \<in> A. i \<noteq> j \<longrightarrow> \<not> conflicting txs i j)"

text \<open>
  A block as the scheduler gets it: every transaction passed the check for duplicate account
  keys, and there are fewer transactions than a u32 counts.
\<close>

definition block_ok :: "svm_message list \<Rightarrow> bool" where
  "block_ok txs \<longleftrightarrow> (\<forall>tx \<in> set txs. distinct (account_keys tx)) \<and> length txs < 2 ^ 32 - 1"

lemma block_ok_nth: "block_ok txs \<Longrightarrow> i < length txs \<Longrightarrow> distinct (account_keys (txs ! i))"
  by (simp add: block_ok_def)

lemma card_readers_less:
  assumes "block_ok txs" "A \<subseteq> {..<length txs}"
  shows "card (readers txs A k) < 2 ^ 32 - 1" "finite (readers txs A k)"
proof -
  have sub: "readers txs A k \<subseteq> {..<length txs}" using assms(2) by (auto simp: readers_def)
  show "finite (readers txs A k)" using sub finite_subset by blast
  have "card (readers txs A k) \<le> length txs" using card_mono [OF _ sub] by simp
  then show "card (readers txs A k) < 2 ^ 32 - 1" using assms(1) by (simp add: block_ok_def)
qed

lemma lockval_max_iff:
  assumes "block_ok txs" "A \<subseteq> {..<length txs}" "locks_of txs locks A"
  shows "lockval locks k = - 1 \<longleftrightarrow> writers txs A k \<noteq> {}"
    "lockval locks k \<noteq> 0 \<longleftrightarrow> writers txs A k \<noteq> {} \<or> readers txs A k \<noteq> {}"
proof -
  note small = card_readers_less [OF assms(1,2), of k]
  have l: "if writers txs A k \<noteq> {} then lockval locks k = - 1
      else unat (lockval locks k) = card (readers txs A k)"
    using assms(3) unfolding locks_of_def by blast
  have max: "unat (- 1 :: u32) = 2 ^ 32 - 1" by (simp add: unat_max_word)
  show "lockval locks k = - 1 \<longleftrightarrow> writers txs A k \<noteq> {}"
    using l small max by (metis less_irrefl)
  show "lockval locks k \<noteq> 0 \<longleftrightarrow> writers txs A k \<noteq> {} \<or> readers txs A k \<noteq> {}"
  proof (cases "writers txs A k = {}")
    case True
    then have "lockval locks k = 0 \<longleftrightarrow> card (readers txs A k) = 0"
      using l by (simp add: unat_0_iff [symmetric])
    then show ?thesis using True small(2) by simp
  next
    case False
    then show ?thesis using l by simp
  qed
qed

lemma blocked_iff_conflict:
  assumes "block_ok txs" "A \<subseteq> {..<length txs}" "locks_of txs locks A"
  shows "is_blocked (txs ! i) locks \<longleftrightarrow> (\<exists>j \<in> A. conflicting txs j i)"
proof -
  have "is_blocked (txs ! i) locks \<longleftrightarrow>
      (\<exists>k w. accesses (txs ! i) k w \<and> (writers txs A k \<noteq> {} \<or>
        ((writers txs A k \<noteq> {} \<or> readers txs A k \<noteq> {}) \<and> w)))"
    by (simp add: is_blocked_iff lockval_max_iff [OF assms])
  also have "\<dots> \<longleftrightarrow> (\<exists>j \<in> A. conflicting txs j i)"
    unfolding tx_conflict_def readers_def writers_def by (auto, metis+)
  finally show ?thesis .
qed

lemma cover_not_blocked:
  assumes "locks_cover txs locks A" "\<not> is_blocked (txs ! i) locks" "j \<in> A"
  shows "\<not> conflicting txs j i"
proof
  assume "conflicting txs j i"
  then obtain k w w' where "accesses (txs ! j) k w" "accesses (txs ! i) k w'" "w \<or> w'"
    by (auto simp: tx_conflict_def)
  moreover have "writers txs A k \<noteq> {}" if "accesses (txs ! j) k True"
    using that assms(3) by (auto simp: writers_def)
  moreover have "readers txs A k \<noteq> {}" if "accesses (txs ! j) k False"
    using that assms(3) by (auto simp: readers_def)
  ultimately show False
    using assms(1,2) unfolding locks_cover_def is_blocked_iff by (metis (full_types))
qed

lemma locks_of_lock:
  assumes "block_ok txs" "A \<subseteq> {..<length txs}" "locks_of txs locks A" "i < length txs" "i \<notin> A"
    and free: "\<forall>j \<in> A. \<not> conflicting txs j i"
  shows "locks_of txs (devin_lock_accounts (txs ! i) locks) (insert i A)"
  unfolding locks_of_def
proof
  fix k
  note dist = block_ok_nth [OF assms(1,4)]
  note val = lockval_lock [OF dist, of locks k]
  note small = card_readers_less [OF assms(1,2), of k]
  have l: "if writers txs A k \<noteq> {} then lockval locks k = - 1
      else unat (lockval locks k) = card (readers txs A k)"
    using assms(3) unfolding locks_of_def by blast
  consider "accesses (txs ! i) k True" | "accesses (txs ! i) k False" | "\<forall>w. \<not> accesses (txs ! i) k w"
    by (metis (full_types))
  then show "if writers txs (insert i A) k \<noteq> {} then lockval (devin_lock_accounts (txs ! i) locks) k = - 1
      else unat (lockval (devin_lock_accounts (txs ! i) locks) k) = card (readers txs (insert i A) k)"
  proof cases
    case 1
    then show ?thesis using val by (auto simp: writers_def)
  next
    case 2
    then have no: "\<not> accesses (txs ! i) k True" using accesses_unique [OF dist] by blast
    have w: "writers txs A k = {}" "writers txs (insert i A) k = {}"
      using free 2 no by (auto simp: writers_def tx_conflict_def)
    have "readers txs (insert i A) k = insert i (readers txs A k)" "i \<notin> readers txs A k"
      using 2 assms(5) by (auto simp: readers_def)
    then have "card (readers txs (insert i A) k) = Suc (card (readers txs A k))"
      using small(2) by simp
    then show ?thesis using val 2 no w l small(1) by (simp add: unat_sat_add)
  next
    case 3
    then have "writers txs (insert i A) k = writers txs A k" "readers txs (insert i A) k = readers txs A k"
      by (auto simp: writers_def readers_def)
    then show ?thesis using val 3 l by simp
  qed
qed

lemma locks_of_unlock:
  assumes "block_ok txs" "A \<subseteq> {..<length txs}" "locks_of txs locks A" "i \<in> A" "independent txs A"
  shows "locks_of txs (devin_unlock_accounts (txs ! i) locks) (A - {i})"
  unfolding locks_of_def
proof
  fix k
  have i: "i < length txs" using assms(2,4) by auto
  note dist = block_ok_nth [OF assms(1) i]
  note val = lockval_unlock [OF dist, of locks k]
  note small = card_readers_less [OF assms(1,2), of k]
  have l: "if writers txs A k \<noteq> {} then lockval locks k = - 1
      else unat (lockval locks k) = card (readers txs A k)"
    using assms(3) unfolding locks_of_def by blast
  have free: "\<not> conflicting txs i j" if "j \<in> A - {i}" for j
    using assms(4,5) that by (auto simp: independent_def)
  consider "accesses (txs ! i) k True" | "accesses (txs ! i) k False" | "\<forall>w. \<not> accesses (txs ! i) k w"
    by (metis (full_types))
  then show "if writers txs (A - {i}) k \<noteq> {} then lockval (devin_unlock_accounts (txs ! i) locks) k = - 1
      else unat (lockval (devin_unlock_accounts (txs ! i) locks) k) = card (readers txs (A - {i}) k)"
  proof cases
    case 1
    then have "writers txs (A - {i}) k = {}" "readers txs (A - {i}) k = {}"
      using free by (auto simp: writers_def readers_def tx_conflict_def)
    then show ?thesis using val 1 by simp
  next
    case 2
    then have no: "\<not> accesses (txs ! i) k True" using accesses_unique [OF dist] by blast
    have w: "writers txs A k = {}" "writers txs (A - {i}) k = {}"
      using free 2 no by (auto simp: writers_def tx_conflict_def)
    have "readers txs (A - {i}) k = readers txs A k - {i}" "i \<in> readers txs A k"
      using 2 assms(4) by (auto simp: readers_def)
    then have "card (readers txs (A - {i}) k) = card (readers txs A k) - 1"
      using small(2) by simp
    then show ?thesis using val 2 no w l by (simp add: unat_sat_sub)
  next
    case 3
    then have "writers txs (A - {i}) k = writers txs A k" "readers txs (A - {i}) k = readers txs A k"
      by (auto simp: writers_def readers_def)
    then show ?thesis using val 3 l by simp
  qed
qed

lemma sat_add_not_zero: "sat_add v 1 \<noteq> (0 :: u32)" "sat_add (- 1) 1 = (- 1 :: u32)"
proof -
  have "unat (sat_add v 1 :: u32) \<noteq> 0" by (simp add: unat_sat_add)
  then show "sat_add v 1 \<noteq> (0 :: u32)" by auto
  show "sat_add (- 1) 1 = (- 1 :: u32)" by (simp add: sat_add_def unat_max_word)
qed

lemma locks_cover_lock:
  assumes "block_ok txs" "i < length txs" "locks_cover txs locks A"
  shows "locks_cover txs (devin_lock_accounts (txs ! i) locks) (insert i A)"
  unfolding locks_cover_def
proof
  fix k
  note val = lockval_lock [OF block_ok_nth [OF assms(1,2)], of locks k]
  have "(writers txs A k \<noteq> {} \<longrightarrow> lockval locks k = - 1) \<and> (readers txs A k \<noteq> {} \<longrightarrow> lockval locks k \<noteq> 0)"
    using assms(3) unfolding locks_cover_def by blast
  then show "(writers txs (insert i A) k \<noteq> {} \<longrightarrow> lockval (devin_lock_accounts (txs ! i) locks) k = - 1) \<and>
      (readers txs (insert i A) k \<noteq> {} \<longrightarrow> lockval (devin_lock_accounts (txs ! i) locks) k \<noteq> 0)"
    using val sat_add_not_zero
    by (auto simp: writers_def readers_def split: if_splits)
qed

section \<open>The invariant\<close>

text \<open>
  \<open>R\<close> is the set of transactions that are popped and not finished, \<open>D\<close> that of the finished
  ones. During \<open>pop\<close> the index list is split into the skipped indices, those of the range that
  is being built, the one found to be blocked (if any) and the rest.
\<close>

definition in_order :: "svm_message list \<Rightarrow> nat set \<Rightarrow> nat set \<Rightarrow> bool" where
  "in_order txs A D \<longleftrightarrow> (\<forall>i \<in> A. \<forall>j < i. conflicting txs j i \<longrightarrow> j \<in> D)"

definition pop_inv ::
  "svm_message list \<Rightarrow> devin_scheduler \<Rightarrow> nat set \<Rightarrow> nat set \<Rightarrow> nat list \<Rightarrow> nat list \<Rightarrow> nat list \<Rightarrow> nat list \<Rightarrow>
   bool" where
  "pop_inv txs self R D pre taken skip rest \<longleftrightarrow>
     indices self = pre @ taken @ skip @ rest \<and> sorted_wrt (<) (pre @ taken @ skip @ rest) \<and>
     set (pre @ taken @ skip @ rest) \<union> R \<union> D = {..<length txs} \<and>
     set (pre @ taken @ skip @ rest) \<inter> (R \<union> D) = {} \<and> R \<inter> D = {} \<and>
     locks_of txs (running_locks self) (R \<union> set taken) \<and> independent txs (R \<union> set taken) \<and>
     in_order txs (R \<union> set taken) D \<and>
     locks_cover txs (skipped_locks self) (set (pre @ skip)) \<and>
     (pre @ skip = [] \<longrightarrow> skipped_locks self = Map.empty) \<and>
     next_index self = length (pre @ skip) \<and>
     completed self = card D \<and> (finished self \<longleftrightarrow> D \<noteq> {} \<and> D = {..<length txs})"

definition devin_inv :: "svm_message list \<Rightarrow> devin_scheduler \<Rightarrow> nat set \<Rightarrow> nat set \<Rightarrow> bool" where
  "devin_inv txs self R D \<longleftrightarrow>
     (\<exists>pre rest. pop_inv txs self R D pre [] [] rest) \<and> (R = {} \<longrightarrow> next_index self = 0)"

definition range_of :: "nat list \<Rightarrow> (nat \<times> nat) option" where
  "range_of taken = (if taken = [] then None else Some (hd taken, hd taken + length taken))"

lemma range_of_snoc:
  assumes "range_of taken = None \<or> (\<exists>start. range_of taken = Some (start, i))"
  shows "range_of (taken @ [i]) =
    (case range_of taken of Some (start, end) \<Rightarrow> Some (start, end + 1) | None \<Rightarrow> Some (i, i + 1))"
  using assms by (auto simp: range_of_def split: if_splits)

lemma pop_invD:
  assumes "pop_inv txs self R D pre taken skip rest"
  shows "indices self = pre @ taken @ skip @ rest" "sorted_wrt (<) (pre @ taken @ skip @ rest)"
    "set (pre @ taken @ skip @ rest) \<union> R \<union> D = {..<length txs}"
    "set (pre @ taken @ skip @ rest) \<inter> (R \<union> D) = {}"
    "locks_of txs (running_locks self) (R \<union> set taken)" "independent txs (R \<union> set taken)"
    "in_order txs (R \<union> set taken) D" "locks_cover txs (skipped_locks self) (set (pre @ skip))"
    "pre @ skip = [] \<longrightarrow> skipped_locks self = Map.empty" "next_index self = length (pre @ skip)"
  using assms unfolding pop_inv_def by blast+

lemma pop_inv_subset:
  assumes "pop_inv txs self R D pre taken skip rest"
  shows "R \<union> set taken \<subseteq> {..<length txs}"
  unfolding pop_invD(3) [OF assms, symmetric] by auto

lemma pop_inv_take:
  assumes ok: "block_ok txs" and inv: "pop_inv txs self R D pre taken [] (i # rest)"
    and free: "\<not> is_blocked (txs ! i) (running_locks self)" "\<not> is_blocked (txs ! i) (skipped_locks self)"
  shows "pop_inv txs (self\<lparr>running_locks := devin_lock_accounts (txs ! i) (running_locks self)\<rparr>)
    R D pre (taken @ [i]) [] rest"
proof -
  let ?A = "R \<union> set taken"
  note d = pop_invD [OF inv]
  have cover: "locks_cover txs (skipped_locks self) (set pre)" using d(8) by simp
  have "i \<in> set (pre @ taken @ [] @ i # rest)" by simp
  then have "i < length txs" "i \<notin> R" using d(3,4) by blast+
  moreover have "i \<notin> set taken" using d(2) by (auto simp: sorted_wrt_append)
  ultimately have i: "i < length txs" "i \<notin> ?A" by simp_all
  note sub = pop_inv_subset [OF inv] and locks = d(5)
  have noconf: "\<forall>j \<in> ?A. \<not> conflicting txs j i"
    using free(1) blocked_iff_conflict [OF ok sub locks, of i] by blast
  have nopre: "\<not> conflicting txs j i" if "j \<in> set pre" for j
    using cover_not_blocked [OF cover free(2) that] .
  have locks': "locks_of txs (devin_lock_accounts (txs ! i) (running_locks self)) (insert i ?A)"
    by (rule locks_of_lock [OF ok sub locks i noconf])
  have ind': "independent txs (insert i ?A)"
    using d(6) noconf unfolding independent_def by (blast dest: tx_conflict_sym)
  have "j \<in> D" if "j < i" "conflicting txs j i" for j
  proof -
    have "j \<in> {..<length txs}" using i(1) that(1) by simp
    then have "j \<in> set pre \<union> ?A \<union> D \<union> set (i # rest)" using d(3) by auto
    moreover have "j \<notin> set (i # rest)" using d(2) that(1) by (auto simp: sorted_wrt_append)
    ultimately show ?thesis using noconf nopre that(2) by blast
  qed
  then have order': "in_order txs (insert i ?A) D" using d(7) by (simp add: in_order_def)
  have shift: "pre @ (taken @ [i]) @ [] @ rest = pre @ taken @ [] @ i # rest"
    "R \<union> set (taken @ [i]) = insert i ?A" by auto
  show ?thesis
    using inv locks' ind' order' unfolding pop_inv_def shift by simp
qed

lemma pop_inv_skip:
  assumes ok: "block_ok txs" and inv: "pop_inv txs self R D pre taken [] (i # rest)"
  shows "pop_inv txs (self\<lparr>next_index := next_index self + 1,
    skipped_locks := devin_lock_accounts (txs ! i) (skipped_locks self)\<rparr>) R D pre taken [i] rest"
proof -
  note d = pop_invD [OF inv]
  have "i \<in> set (pre @ taken @ [] @ i # rest)" by simp
  then have "i < length txs" using d(3) by blast
  moreover have "locks_cover txs (skipped_locks self) (set pre)" using d(8) by simp
  ultimately have "locks_cover txs (devin_lock_accounts (txs ! i) (skipped_locks self)) (insert i (set pre))"
    by (rule locks_cover_lock [OF ok])
  then have "locks_cover txs (devin_lock_accounts (txs ! i) (skipped_locks self)) (set (pre @ [i]))"
    by simp
  moreover have shift: "pre @ taken @ [i] @ rest = pre @ taken @ [] @ i # rest" by simp
  ultimately show ?thesis using inv unfolding pop_inv_def shift by simp
qed

lemma blocked_reason:
  assumes ok: "block_ok txs" and inv: "pop_inv txs self R D pre taken [] rest"
    and "is_blocked (txs ! i) (running_locks self) \<or> is_blocked (txs ! i) (skipped_locks self)"
  shows "R \<union> set taken \<noteq> {} \<or> pre \<noteq> []"
  using assms(3)
proof
  assume "is_blocked (txs ! i) (running_locks self)"
  then show ?thesis
    using blocked_iff_conflict [OF ok pop_inv_subset [OF inv] pop_invD(5) [OF inv], of i] by (metis empty_iff)
next
  assume b: "is_blocked (txs ! i) (skipped_locks self)"
  have "\<not> is_blocked (txs ! i) Map.empty" by (simp add: is_blocked_iff lockval_def)
  then show ?thesis using pop_invD(9) [OF inv] b by auto
qed

text \<open>
  The loop never panics, keeps the invariant, and takes something unless it starts at a
  blocked transaction or at the end of the list.
\<close>

lemma pop_loop_ok:
  assumes ok: "block_ok txs"
  shows "pop_inv txs self R D pre taken [] (todo @ rest) \<Longrightarrow>
    taken = [] \<or> taken = [hd taken..<hd taken + length taken] \<Longrightarrow>
    \<exists>self' taken' skip' rest'. pop_loop cost_of txs self (range_of taken) cost todo = Some (self', range_of taken') \<and>
      pop_inv txs self' R D pre taken' skip' rest' \<and>
      (taken' = [] \<or> taken' = [hd taken'..<hd taken' + length taken']) \<and>
      (skip' \<noteq> [] \<longrightarrow> R \<union> set taken' \<noteq> {} \<or> pre \<noteq> []) \<and> (taken' = [] \<longrightarrow> skip' \<noteq> [] \<or> todo = []) \<and>
      (taken \<noteq> [] \<longrightarrow> taken' \<noteq> [])"
proof (induction todo arbitrary: self taken cost)
  case Nil
  then show ?case by auto
next
  case (Cons i todo)
  have "i \<in> set (pre @ taken @ [] @ (i # todo) @ rest)" by simp
  then have i: "i < length txs" using pop_invD(3) [OF Cons.prems(1)] by blast
  consider (gap) s e where "range_of taken = Some (s, e)" "i \<noteq> e"
    | (adjacent) "range_of taken = None \<or> (\<exists>start. range_of taken = Some (start, i))"
    by (metis not_Some_eq surj_pair)
  then show ?case
  proof cases
    case gap
    then have "pop_loop cost_of txs self (range_of taken) cost (i # todo) = Some (self, range_of taken)"
      "taken \<noteq> []"
      by (auto simp: range_of_def)
    then show ?thesis using Cons.prems by (intro exI conjI) auto
  next
    case adjacent
    then have go: "\<not> (case range_of taken of Some (start, end) \<Rightarrow> i \<noteq> end | None \<Rightarrow> False)" by auto
    show ?thesis
    proof (cases "is_blocked (txs ! i) (running_locks self) \<or> is_blocked (txs ! i) (skipped_locks self)")
      case True
      let ?self = "self\<lparr>next_index := next_index self + 1,
        skipped_locks := devin_lock_accounts (txs ! i) (skipped_locks self)\<rparr>"
      have inv: "pop_inv txs self R D pre taken [] (i # todo @ rest)" using Cons.prems(1) by simp
      have "pop_loop cost_of txs self (range_of taken) cost (i # todo) = Some (?self, range_of taken)"
        using go i True by (simp add: Let_def)
      moreover note pop_inv_skip [OF ok inv] blocked_reason [OF ok inv True] Cons.prems(2)
      ultimately show ?thesis by (intro exI conjI impI) (assumption | simp)+
    next
      case False
      let ?self = "self\<lparr>running_locks := devin_lock_accounts (txs ! i) (running_locks self)\<rparr>"
      have inv: "pop_inv txs ?self R D pre (taken @ [i]) [] (todo @ rest)"
        using pop_inv_take [OF ok, of self R D pre taken i "todo @ rest"] Cons.prems(1) False by simp
      have shape: "taken @ [i] = [hd (taken @ [i])..<hd (taken @ [i]) + length (taken @ [i])]"
      proof (cases "taken = []")
        case False
        then have "i = hd taken + length taken" using adjacent by (auto simp: range_of_def)
        then show ?thesis using False Cons.prems(2) by simp
      qed simp
      show ?thesis
      proof (cases "cost + cost_of (txs ! i) > MAX_COST")
        case True
        then have "pop_loop cost_of txs self (range_of taken) cost (i # todo) = Some (?self, range_of (taken @ [i]))"
          using go i False by (simp add: Let_def range_of_snoc [OF adjacent])
        then show ?thesis
          using inv shape by (intro exI conjI impI) (assumption | (rule disjI2, assumption) | simp)+
      next
        case cheap: False
        then have "pop_loop cost_of txs self (range_of taken) cost (i # todo) =
            pop_loop cost_of txs ?self (range_of (taken @ [i])) (cost + cost_of (txs ! i)) todo"
          using go i False by (simp add: Let_def range_of_snoc [OF adjacent])
        with Cons.IH [OF inv disjI2 [OF shape], of "cost + cost_of (txs ! i)"]
        show ?thesis by (elim exE conjE) (intro exI conjI impI, (assumption | simp)+)
      qed
    qed
  qed
qed

section \<open>The operations keep the invariant\<close>

lemma position_append: "x \<notin> set xs \<Longrightarrow> position x (xs @ x # ys) = Some (length xs)"
  by (induction xs) auto

lemma pop_inv_drain:
  assumes inv: "pop_inv txs self R D pre taken skip rest"
  shows "pop_inv txs (self\<lparr>indices := pre @ skip @ rest\<rparr>) (R \<union> set taken) D (pre @ skip) [] [] rest"
proof -
  note d = pop_invD [OF inv]
  have sorted: "sorted_wrt (<) ((pre @ skip) @ [] @ [] @ rest)"
    using d(2) by (simp add: sorted_wrt_append)
  have "distinct (pre @ taken @ skip @ rest)" using d(2) by (simp only: strict_sorted_iff)
  then have dis: "set ((pre @ skip) @ [] @ [] @ rest) \<inter> (R \<union> set taken \<union> D) = {}"
    using d(4) by auto
  have all: "set ((pre @ skip) @ [] @ [] @ rest) \<union> (R \<union> set taken) \<union> D = {..<length txs}"
    unfolding d(3) [symmetric] by auto
  have "R \<inter> D = {}" using inv by (simp add: pop_inv_def)
  then have "(R \<union> set taken) \<inter> D = {}" using d(4) by auto
  then show ?thesis
    using inv sorted dis all unfolding pop_inv_def by simp
qed

lemma devin_pop_ok:
  assumes ok: "block_ok txs" and inv: "devin_inv txs self R D"
  shows "\<exists>self' r. devin_pop cost_of txs self = Some (self', r) \<and>
    (case r of
       None \<Rightarrow> devin_inv txs self' R D
     | Some (s, e) \<Rightarrow> s < e \<and> {s..<e} \<inter> (R \<union> D) = {} \<and> {s..<e} \<subseteq> {..<length txs} \<and>
         devin_inv txs self' (R \<union> {s..<e}) D) \<and>
    (R = {} \<and> D \<noteq> {..<length txs} \<longrightarrow> r \<noteq> None)"
proof -
  obtain pre rest where pre: "pop_inv txs self R D pre [] [] rest" and start: "R = {} \<longrightarrow> next_index self = 0"
    using inv by (auto simp: devin_inv_def)
  note d = pop_invD [OF pre]
  let ?todo = "take MAX_RANGE (drop (next_index self) (indices self))"
  have todo: "?todo = take MAX_RANGE rest" using d(1,10) by simp
  have "pop_inv txs self R D pre [] [] (?todo @ drop MAX_RANGE rest)" using pre todo by simp
  from pop_loop_ok [OF ok this, where cost_of = cost_of and cost = 0]
  obtain self' taken skip rest' where loop: "pop_loop cost_of txs self None 0 ?todo = Some (self', range_of taken)"
    "pop_inv txs self' R D pre taken skip rest'"
    "taken = [] \<or> taken = [hd taken..<hd taken + length taken]"
    "skip \<noteq> [] \<longrightarrow> R \<union> set taken \<noteq> {} \<or> pre \<noteq> []" "taken = [] \<longrightarrow> skip \<noteq> [] \<or> ?todo = []"
    by (auto simp: range_of_def [of "[]"])
  note d' = pop_invD [OF loop(2)]
  have pre_nil: "R = {} \<Longrightarrow> pre = []" using start d(10) by simp
  show ?thesis
  proof (cases "taken = []")
    case True
    have drained: "self'\<lparr>indices := pre @ skip @ rest'\<rparr> = self'" using d'(1) True by simp
    have "devin_inv txs self' R D"
      using pop_inv_drain [OF loop(2)] loop(4) pre_nil d'(10) True
      unfolding devin_inv_def drained by auto
    moreover have "D = {..<length txs}" if "R = {}"
    proof -
      have "?todo = []" "pre = []" using loop(4,5) pre_nil that True by auto
      then have "rest = []" using todo by (simp add: MAX_RANGE_def)
      then show ?thesis using d(3) that \<open>pre = []\<close> by simp
    qed
    ultimately show ?thesis
      using loop(1) True by (auto simp: devin_pop_def range_of_def)
  next
    case False
    let ?s = "hd taken" and ?e = "hd taken + length taken"
    have set: "set taken = {?s..<?e}" using loop(3) False by (metis set_upt)
    have "distinct (pre @ taken @ skip @ rest')" using d'(2) by (simp only: strict_sorted_iff)
    then have "?s \<notin> set pre" using False by (auto dest: hd_in_set)
    moreover have "indices self' = pre @ ?s # (tl taken @ skip @ rest')" using d'(1) False by simp
    ultimately have pos: "position ?s (indices self') = Some (length pre)" by (simp add: position_append)
    have pop: "devin_pop cost_of txs self = Some (self'\<lparr>indices := pre @ skip @ rest'\<rparr>, Some (?s, ?e))"
      using loop(1) False pos d'(1) by (simp add: devin_pop_def range_of_def)
    have "devin_inv txs (self'\<lparr>indices := pre @ skip @ rest'\<rparr>) (R \<union> {?s..<?e}) D"
      using pop_inv_drain [OF loop(2)] False unfolding devin_inv_def set by auto
    moreover have "{?s..<?e} \<inter> (R \<union> D) = {}" unfolding set [symmetric] using d'(4) by auto
    moreover have "{?s..<?e} \<subseteq> {..<length txs}"
      unfolding set [symmetric] using pop_inv_subset [OF loop(2)] by blast
    ultimately show ?thesis using pop False by simp
  qed
qed

lemma unlock_range_ok:
  assumes ok: "block_ok txs"
  shows "A \<subseteq> {..<length txs} \<Longrightarrow> locks_of txs locks A \<Longrightarrow> independent txs A \<Longrightarrow> distinct is \<Longrightarrow> set is \<subseteq> A \<Longrightarrow>
    \<exists>locks'. unlock_range txs locks is = Some locks' \<and> locks_of txs locks' (A - set is)"
proof (induction "is" arbitrary: locks A)
  case Nil
  then show ?case by simp
next
  case (Cons i "is")
  have i: "i \<in> A" "i < length txs" using Cons.prems(1,5) by auto
  have "independent txs (A - {i})" using Cons.prems(3) by (simp add: independent_def)
  moreover have "A - {i} \<subseteq> {..<length txs}" "set is \<subseteq> A - {i}" "distinct is" using Cons.prems by auto
  moreover have "locks_of txs (devin_unlock_accounts (txs ! i) locks) (A - {i})"
    by (rule locks_of_unlock [OF ok Cons.prems(1,2) i(1) Cons.prems(3)])
  ultimately obtain locks' where
    "unlock_range txs (devin_unlock_accounts (txs ! i) locks) is = Some locks'" "locks_of txs locks' (A - {i} - set is)"
    using Cons.IH by blast
  moreover have "A - {i} - set is = A - set (i # is)" by auto
  ultimately show ?case using i(2) by simp
qed

lemma devin_finish_ok:
  assumes ok: "block_ok txs" and inv: "devin_inv txs self R D" and se: "s < e" "{s..<e} \<subseteq> R"
  shows "\<exists>self'. devin_finish txs self (s, e) = Some self' \<and> devin_inv txs self' (R - {s..<e}) (D \<union> {s..<e})"
proof -
  obtain pre rest where pre: "pop_inv txs self R D pre [] [] rest" using inv by (auto simp: devin_inv_def)
  note d = pop_invD [OF pre]
  have sub: "R \<subseteq> {..<length txs}" using pop_inv_subset [OF pre] by simp
  obtain locks' where l: "unlock_range txs (running_locks self) [s..<e] = Some locks'"
    "locks_of txs locks' (R - {s..<e})"
    using unlock_range_ok [OF ok sub, of "running_locks self" "[s..<e]"] d(5,6) se(2) by auto
  have more: "R \<inter> D = {}" "completed self = card D" using pre by (simp_all add: pop_inv_def)
  have "D \<subseteq> {..<length txs}" using d(3) by blast
  then have fin: "finite D" using finite_subset by blast
  have card: "card (D \<union> {s..<e}) = card D + (e - s)"
    using card_Un_disjoint [OF fin, of "{s..<e}"] more(1) se(2) by auto
  have full: "card (D \<union> {s..<e}) = length txs \<longleftrightarrow> D \<union> {s..<e} = {..<length txs}"
  proof
    assume "card (D \<union> {s..<e}) = length txs"
    then show "D \<union> {s..<e} = {..<length txs}"
      using \<open>D \<subseteq> _\<close> sub se(2) by (intro card_subset_eq) auto
  qed simp
  let ?self = "self\<lparr>completed := completed self + (e - s), running_locks := locks', skipped_locks := Map.empty,
    next_index := 0, finished := (completed self + (e - s) = length txs)\<rparr>"
  have "independent txs (R - {s..<e})" "in_order txs (R - {s..<e}) (D \<union> {s..<e})"
    using d(6,7) by (auto simp: independent_def in_order_def)
  moreover have "locks_cover txs Map.empty {}"
    by (simp add: locks_cover_def writers_def readers_def)
  moreover have "set (pre @ rest) \<union> (R - {s..<e}) \<union> (D \<union> {s..<e}) = {..<length txs}"
    using d(3) se(2) by auto
  moreover have "set (pre @ rest) \<inter> ((R - {s..<e}) \<union> (D \<union> {s..<e})) = {}" using d(4) se(2) by auto
  moreover have "(R - {s..<e}) \<inter> (D \<union> {s..<e}) = {}" using more(1) by auto
  moreover have "D \<union> {s..<e} \<noteq> {}" using se(1) by auto
  ultimately have "pop_inv txs ?self (R - {s..<e}) (D \<union> {s..<e}) [] [] [] (pre @ rest)"
    using d(1,2) l(2) card full more(2) unfolding pop_inv_def by simp
  then have "devin_inv txs ?self (R - {s..<e}) (D \<union> {s..<e})"
    by (auto simp: devin_inv_def)
  then show ?thesis using l(1) by (simp add: devin_finish_def)
qed

lemma devin_init_inv: "devin_inv txs (devin_init self txs) {} {}"
proof -
  have "pop_inv txs (devin_init self txs) {} {} [] [] [] [0..<length txs]"
    by (auto simp: pop_inv_def devin_init_def locks_of_def locks_cover_def independent_def in_order_def
        writers_def readers_def lockval_def)
  then show ?thesis by (auto simp: devin_inv_def devin_init_def)
qed

section \<open>Executing a block\<close>

text \<open>
  The scheduling loop of \<open>execute_and_commit_parallel\<close>: ranges are popped and sent to the
  workers, the workers execute the transactions of their range, each at some moment before
  its range is finished, and finished ranges are handed back in any order. \<open>ranges\<close> are those
  in flight, \<open>ex\<close> lists the transactions in the order of their execution.
\<close>

inductive devin_run ::
  "(svm_message \<Rightarrow> u64) \<Rightarrow> svm_message list \<Rightarrow> devin_scheduler \<Rightarrow> (nat \<times> nat) list \<Rightarrow> nat list \<Rightarrow> bool"
  for cost_of txs where
  start: "devin_run cost_of txs (devin_init self txs) [] []"
| pop: "devin_run cost_of txs self ranges ex \<Longrightarrow> devin_pop cost_of txs self = Some (self', Some r) \<Longrightarrow>
     devin_run cost_of txs self' (ranges @ [r]) ex"
| pop_none: "devin_run cost_of txs self ranges ex \<Longrightarrow> devin_pop cost_of txs self = Some (self', None) \<Longrightarrow>
     devin_run cost_of txs self' ranges ex"
| exec: "devin_run cost_of txs self ranges ex \<Longrightarrow> (s, e) \<in> set ranges \<Longrightarrow> s \<le> i \<Longrightarrow> i < e \<Longrightarrow>
     i \<notin> set ex \<Longrightarrow> devin_run cost_of txs self ranges (ex @ [i])"
| finish: "devin_run cost_of txs self (xs @ (s, e) # ys) ex \<Longrightarrow> {s..<e} \<subseteq> set ex \<Longrightarrow>
     devin_finish txs self (s, e) = Some self' \<Longrightarrow> devin_run cost_of txs self' (xs @ ys) ex"

definition in_flight :: "(nat \<times> nat) list \<Rightarrow> nat list" where
  "in_flight ranges = concat (map (\<lambda>(s, e). [s..<e]) ranges)"

definition respects_order :: "svm_message list \<Rightarrow> nat list \<Rightarrow> bool" where
  "respects_order txs ex \<longleftrightarrow>
     (\<forall>ys i zs. ex = ys @ i # zs \<longrightarrow> (\<forall>j < i. conflicting txs j i \<longrightarrow> j \<in> set ys))"

definition run_inv :: "svm_message list \<Rightarrow> devin_scheduler \<Rightarrow> (nat \<times> nat) list \<Rightarrow> nat list \<Rightarrow> nat set \<Rightarrow> bool" where
  "run_inv txs self ranges ex D \<longleftrightarrow>
     devin_inv txs self (set (in_flight ranges)) D \<and> distinct (in_flight ranges) \<and>
     (\<forall>(s, e) \<in> set ranges. s < e) \<and> D \<subseteq> set ex \<and> set ex \<subseteq> D \<union> set (in_flight ranges) \<and>
     distinct ex \<and> respects_order txs ex"

lemma in_flight_simps [simp]:
  "in_flight [] = []" "in_flight (xs @ ys) = in_flight xs @ in_flight ys"
  "in_flight ((s, e) # ys) = [s..<e] @ in_flight ys"
  by (simp_all add: in_flight_def)

lemma in_flight_mem: "(s, e) \<in> set ranges \<Longrightarrow> s \<le> i \<Longrightarrow> i < e \<Longrightarrow> i \<in> set (in_flight ranges)"
  by (force simp: in_flight_def)

lemma devin_inv_order:
  assumes "devin_inv txs self R D"
  shows "in_order txs R D" "independent txs R" "R \<inter> D = {}" "R \<union> D \<subseteq> {..<length txs}"
    "finished self \<longleftrightarrow> D \<noteq> {} \<and> D = {..<length txs}"
  using assms by (auto simp: devin_inv_def pop_inv_def)

lemma respects_order_snoc:
  assumes "respects_order txs ex" "\<forall>j < i. conflicting txs j i \<longrightarrow> j \<in> set ex"
  shows "respects_order txs (ex @ [i])"
  unfolding respects_order_def
proof (intro allI impI)
  fix ys i' zs j
  assume eq: "ex @ [i] = ys @ i' # zs" and j: "j < i'" "conflicting txs j i'"
  show "j \<in> set ys"
  proof (cases zs rule: rev_cases)
    case Nil
    then show ?thesis using eq assms(2) j by simp
  next
    case (snoc zs' z)
    then have "ex = ys @ i' # zs'" using eq by simp
    then show ?thesis using assms(1) j unfolding respects_order_def by blast
  qed
qed

lemma devin_run_inv:
  assumes ok: "block_ok txs"
  shows "devin_run cost_of txs self ranges ex \<Longrightarrow> \<exists>D. run_inv txs self ranges ex D"
proof (induction rule: devin_run.induct)
  case (start self)
  then show ?case using devin_init_inv by (force simp: run_inv_def respects_order_def)
next
  case (pop self ranges ex self' r)
  then obtain D where D: "run_inv txs self ranges ex D" by blast
  obtain s e where r: "r = (s, e)" by (cases r)
  have "s < e" "{s..<e} \<inter> (set (in_flight ranges) \<union> D) = {}"
    "devin_inv txs self' (set (in_flight ranges) \<union> {s..<e}) D"
    using devin_pop_ok [OF ok, of self "set (in_flight ranges)" D cost_of] D pop.hyps r
    by (auto simp: run_inv_def)
  then have "run_inv txs self' (ranges @ [r]) ex D"
    using D unfolding run_inv_def r by auto
  then show ?case by blast
next
  case (pop_none self ranges ex self')
  then obtain D where D: "run_inv txs self ranges ex D" by blast
  then have "devin_inv txs self' (set (in_flight ranges)) D"
    using devin_pop_ok [OF ok, of self "set (in_flight ranges)" D cost_of] pop_none.hyps
    by (auto simp: run_inv_def)
  then show ?case using D unfolding run_inv_def by blast
next
  case (exec self ranges ex s e i)
  then obtain D where D: "run_inv txs self ranges ex D" by blast
  have i: "i \<in> set (in_flight ranges)" using in_flight_mem exec.hyps(2-4) by blast
  have "\<forall>j < i. conflicting txs j i \<longrightarrow> j \<in> set ex"
    using D i devin_inv_order(1) unfolding run_inv_def in_order_def by blast
  then have "respects_order txs (ex @ [i])"
    using D respects_order_snoc by (simp add: run_inv_def)
  then show ?case using D i exec.hyps(5) by (auto simp: run_inv_def)
next
  case (finish self xs s e ys ex self')
  then obtain D where D: "run_inv txs self (xs @ (s, e) # ys) ex D" by blast
  let ?R = "set (in_flight (xs @ (s, e) # ys))"
  have "s < e" "{s..<e} \<subseteq> ?R" using D by (auto simp: run_inv_def)
  then have "devin_inv txs self' (?R - {s..<e}) (D \<union> {s..<e})"
    using devin_finish_ok [OF ok, of self ?R D s e] D finish.hyps(3) by (auto simp: run_inv_def)
  moreover have "?R - {s..<e} = set (in_flight (xs @ ys))" using D by (auto simp: run_inv_def)
  ultimately have "run_inv txs self' (xs @ ys) ex (D \<union> {s..<e})"
    using D finish.hyps(2) by (auto simp: run_inv_def)
  then show ?case by blast
qed

text \<open>
  Reordering independent transactions does not change the result. \<open>f tx\<close> is the effect of a
  transaction on the accounts: it writes only its writable accounts, and what it writes
  depends only on the accounts it locks.
\<close>

definition local_effect :: "(svm_message \<Rightarrow> (pubkey \<Rightarrow> 'v) \<Rightarrow> (pubkey \<Rightarrow> 'v)) \<Rightarrow> bool" where
  "local_effect f \<longleftrightarrow>
     (\<forall>tx m k. \<not> accesses tx k True \<longrightarrow> f tx m k = m k) \<and>
     (\<forall>tx m m'. (\<forall>k w. accesses tx k w \<longrightarrow> m k = m' k) \<longrightarrow> (\<forall>k. accesses tx k True \<longrightarrow> f tx m k = f tx m' k))"

lemma local_effect_commute:
  assumes f: "local_effect f" and "\<not> tx_conflict a b"
  shows "f a (f b m) = f b (f a m)"
proof
  fix k
  have keep: "f tx m' k' = m' k'" if "\<not> accesses tx k' True" for tx m' k'
    using f that unfolding local_effect_def by blast
  have dep: "f tx m' k' = f tx m'' k'" if "\<And>k w. accesses tx k w \<Longrightarrow> m' k = m'' k" "accesses tx k' True"
    for tx m' m'' k'
    using f that unfolding local_effect_def by blast
  have ab: "\<not> accesses b k' True" if "accesses a k' w" for k' w
    using assms(2) that by (auto simp: tx_conflict_def)
  have ba: "\<not> accesses a k' True" if "accesses b k' w" for k' w
    using assms(2) that by (auto simp: tx_conflict_def)
  consider "accesses a k True" | "accesses b k True" | "\<not> accesses a k True" "\<not> accesses b k True" by blast
  then show "f a (f b m) k = f b (f a m) k"
  proof cases
    case 1
    have "f a (f b m) k = f a m k" by (rule dep [OF _ 1]) (use ab keep in blast)
    then show ?thesis using ab [OF 1] keep by simp
  next
    case 2
    have "f b (f a m) k = f b m k" by (rule dep [OF _ 2]) (use ba keep in blast)
    then show ?thesis using ba [OF 2] keep by simp
  next
    case 3
    then show ?thesis using keep by simp
  qed
qed

lemma foldl_move_last:
  assumes "\<forall>z \<in> set zs. \<forall>m. g (g m z) i = g (g m i) z"
  shows "foldl g (g m i) zs = g (foldl g m zs) i"
  using assms
proof (induction zs arbitrary: m)
  case (Cons z zs)
  have "g (g m i) z = g (g m z) i" using Cons.prems by (metis list.set_intros(1))
  then show ?case using Cons.IH [of "g m z"] Cons.prems by simp
qed simp

lemma respects_order_foldl:
  assumes commute: "\<And>i j m. \<not> conflicting txs i j \<Longrightarrow> g (g m i) j = g (g m j) i"
  shows "distinct ex \<Longrightarrow> set ex = {..<n} \<Longrightarrow> respects_order txs ex \<Longrightarrow> foldl g m ex = foldl g m [0..<n]"
proof (induction n arbitrary: ex)
  case (Suc n)
  obtain ys zs where ex: "ex = ys @ n # zs" using Suc.prems(2) by (metis lessThan_iff lessI split_list)
  have less: "z < n" if "z \<in> set ys \<union> set zs" for z
  proof -
    have "z < Suc n" "z \<noteq> n" using Suc.prems(1,2) that ex by auto
    then show ?thesis by simp
  qed
  have late: "\<not> conflicting txs z n" if "z \<in> set zs" for z
    using Suc.prems(1,3) less [of z] that ex unfolding respects_order_def by auto
  have "set (ys @ zs) = {..<n}"
  proof
    show "{..<n} \<subseteq> set (ys @ zs)"
    proof
      fix x assume "x \<in> {..<n}"
      then have "x \<in> set ex" "x \<noteq> n" using Suc.prems(2) by auto
      then show "x \<in> set (ys @ zs)" using ex by auto
    qed
  qed (use less in auto)
  moreover have "respects_order txs (ys @ zs)"
    unfolding respects_order_def
  proof (intro allI impI)
    fix us i vs j
    assume eq: "ys @ zs = us @ i # vs" and j: "j < i" "conflicting txs j i"
    have "i < n" using less [of i] eq by (metis Un_iff in_set_conv_decomp set_append)
    from eq consider (left) ws where "ys = us @ i # ws" | (right) ws where "us = ys @ ws" "zs = ws @ i # vs"
      by (auto simp: append_eq_append_conv2 append_eq_Cons_conv)
    then show "j \<in> set us"
    proof cases
      case left
      then have "ex = us @ i # (ws @ n # zs)" using ex by simp
      then show ?thesis using Suc.prems(3) j unfolding respects_order_def by blast
    next
      case right
      then have "ex = (ys @ n # ws) @ i # vs" using ex by simp
      then have "j \<in> set (ys @ n # ws)" using Suc.prems(3) j unfolding respects_order_def by blast
      then show ?thesis using right(1) j(1) \<open>i < n\<close> by auto
    qed
  qed
  ultimately have "foldl g m (ys @ zs) = foldl g m [0..<n]"
    using Suc.IH [of "ys @ zs"] Suc.prems(1) ex by simp
  moreover have "\<forall>z \<in> set zs. \<forall>m. g (g m z) n = g (g m n) z" using late commute by blast
  then have "foldl g m ex = g (foldl g m (ys @ zs)) n"
    using foldl_move_last [of zs g n "foldl g m ys"] ex by simp
  ultimately show ?case by simp
qed simp

section \<open>Properties\<close>

text \<open>
  C1. Executing a block in parallel is equivalent to executing it in order: whenever the
  scheduler reports that it is finished, the transactions have been executed each exactly
  once, in an order whose result on the accounts is that of running the block from its first
  to its last transaction.
\<close>

theorem block_serializable:
  assumes "block_ok txs" "local_effect f" "devin_run cost_of txs self ranges ex" "finished self"
  shows "distinct ex \<and> set ex = {..<length txs} \<and>
    foldl (\<lambda>m i. f (txs ! i) m) accounts ex = foldl (\<lambda>m tx. f tx m) accounts txs"
proof -
  obtain D where D: "run_inv txs self ranges ex D" using devin_run_inv [OF assms(1,3)] by blast
  then have inv: "devin_inv txs self (set (in_flight ranges)) D" by (simp add: run_inv_def)
  have "D = {..<length txs}" using devin_inv_order(5) [OF inv] assms(4) by blast
  moreover have "set (in_flight ranges) \<subseteq> {..<length txs}" using devin_inv_order(4) [OF inv] by blast
  ultimately have ex: "set ex = {..<length txs}" "distinct ex" "respects_order txs ex"
    using D by (auto simp: run_inv_def)
  have "foldl (\<lambda>m i. f (txs ! i) m) accounts ex = foldl (\<lambda>m i. f (txs ! i) m) accounts [0..<length txs]"
  proof (rule respects_order_foldl [OF _ ex(2,1,3)])
    show "f (txs ! j) (f (txs ! i) m) = f (txs ! i) (f (txs ! j) m)" if "\<not> conflicting txs i j" for i j m
      using local_effect_commute [OF assms(2) that] by simp
  qed
  also have "\<dots> = foldl (\<lambda>m tx. f tx m) accounts (map ((!) txs) [0..<length txs])"
    by (simp only: foldl_map)
  finally show ?thesis using ex by (simp add: map_nth)
qed

definition sample_tx :: "pubkey \<Rightarrow> pubkey \<Rightarrow> svm_message" where
  "sample_tx from to = \<lparr>account_keys = [from, to], is_writable = \<lambda>i. i = 0\<rparr>"

definition sample_block :: "svm_message list" where
  "sample_block = [sample_tx 1 9, sample_tx 1 8, sample_tx 2 9]"

text \<open>A transaction that adds to its writable accounts what its accounts hold.\<close>

definition sample_effect :: "svm_message \<Rightarrow> (pubkey \<Rightarrow> nat) \<Rightarrow> (pubkey \<Rightarrow> nat)" where
  "sample_effect tx m =
     (\<lambda>k. if (k, True) \<in> set (accounts_with_is_writable tx)
          then m k + sum_list (map (\<lambda>(a, w). m a) (accounts_with_is_writable tx)) else m k)"

lemma sample_block_ok: "block_ok sample_block"
  by (simp add: block_ok_def sample_block_def sample_tx_def)

lemma sample_effect_local: "local_effect sample_effect"
proof -
  have sum: "sum_list (map (\<lambda>(a, w). m a) (accounts_with_is_writable tx)) =
      sum_list (map (\<lambda>(a, w). m' a) (accounts_with_is_writable tx))"
    if "\<forall>k w. accesses tx k w \<longrightarrow> m k = m' k" for tx and m m' :: "pubkey \<Rightarrow> nat"
    using that by (intro arg_cong [where f = sum_list] map_cong) (auto simp: accesses_def)
  show ?thesis
    unfolding local_effect_def
  proof (intro conjI allI impI)
    fix tx k and m m' :: "pubkey \<Rightarrow> nat"
    assume "\<forall>k w. accesses tx k w \<longrightarrow> m k = m' k" "accesses tx k True"
    then show "sample_effect tx m k = sample_effect tx m' k"
      using sum [of tx m m'] by (auto simp: sample_effect_def)
  qed (simp add: sample_effect_def accesses_def)
qed

definition sample_run_1 :: devin_scheduler where
  "sample_run_1 = fst (the (devin_pop (\<lambda>tx. 700000) sample_block (devin_init devin_new sample_block)))"
definition sample_run_2 :: devin_scheduler where
  "sample_run_2 = fst (the (devin_pop (\<lambda>tx. 700000) sample_block sample_run_1))"
definition sample_run_3 :: devin_scheduler where
  "sample_run_3 = the (devin_finish sample_block sample_run_2 (2, 3))"
definition sample_run_4 :: devin_scheduler where
  "sample_run_4 = the (devin_finish sample_block sample_run_3 (0, 1))"
definition sample_run_5 :: devin_scheduler where
  "sample_run_5 = fst (the (devin_pop (\<lambda>tx. 700000) sample_block sample_run_4))"
definition sample_run_6 :: devin_scheduler where
  "sample_run_6 = the (devin_finish sample_block sample_run_5 (1, 2))"

lemmas devin_eval = sample_block_def sample_tx_def devin_init_def devin_new_def devin_pop_def
  devin_finish_def is_blocked_def devin_lock_accounts_def devin_lock_account_def
  devin_unlock_accounts_def devin_unlock_account_def accounts_with_is_writable_def
  MAX_RANGE_def MAX_COST_def sat_add_def sat_sub_def upt_rec

lemma sample_steps:
  "devin_pop (\<lambda>tx. 700000) sample_block (devin_init devin_new sample_block) = Some (sample_run_1, Some (0, 1))"
  "devin_pop (\<lambda>tx. 700000) sample_block sample_run_1 = Some (sample_run_2, Some (2, 3))"
  "devin_finish sample_block sample_run_2 (2, 3) = Some sample_run_3"
  "devin_finish sample_block sample_run_3 (0, 1) = Some sample_run_4"
  "devin_pop (\<lambda>tx. 700000) sample_block sample_run_4 = Some (sample_run_5, Some (1, 2))"
  "devin_finish sample_block sample_run_5 (1, 2) = Some sample_run_6" "finished sample_run_6"
  unfolding sample_run_1_def sample_run_2_def sample_run_3_def sample_run_4_def sample_run_5_def
    sample_run_6_def
  by (simp_all add: devin_eval)

lemma sample_run: "devin_run (\<lambda>tx. 700000) sample_block sample_run_6 [] [2, 0, 1]"
proof -
  let ?run = "devin_run (\<lambda>tx. 700000) sample_block"
  have sub: "{2..<3} \<subseteq> set [2 :: nat]" "{0..<1} \<subseteq> set [2, 0 :: nat]" "{1..<2} \<subseteq> set [2, 0, 1 :: nat]"
    by auto
  have "?run sample_run_1 [(0, 1)] []"
    using devin_run.pop [OF devin_run.start sample_steps(1)] by simp
  from devin_run.pop [OF this sample_steps(2)] have "?run sample_run_2 [(0, 1), (2, 3)] []" by simp
  from devin_run.exec [OF this, of 2 3 2] have "?run sample_run_2 ([(0, 1)] @ (2, 3) # []) [2]" by simp
  from devin_run.finish [OF this sub(1) sample_steps(3)] have "?run sample_run_3 [(0, 1)] [2]" by simp
  from devin_run.exec [OF this, of 0 1 0] have "?run sample_run_3 ([] @ (0, 1) # []) [2, 0]" by simp
  from devin_run.finish [OF this sub(2) sample_steps(4)] have "?run sample_run_4 [] [2, 0]" by simp
  from devin_run.pop [OF this sample_steps(5)] have "?run sample_run_5 [(1, 2)] [2, 0]" by simp
  from devin_run.exec [OF this, of 1 2 1] have "?run sample_run_5 ([] @ (1, 2) # []) [2, 0, 1]" by simp
  from devin_run.finish [OF this sub(3) sample_steps(6)] show ?thesis by simp
qed

theorem block_serializable_witness:
  "devin_run (\<lambda>tx. 700000) sample_block sample_run_6 [] [2, 0, 1] \<and>
   foldl (\<lambda>m i. sample_effect (sample_block ! i) m) (\<lambda>k. 1) [2, 0, 1] =
     foldl (\<lambda>m tx. sample_effect tx m) (\<lambda>k. 1) sample_block"
  using block_serializable [OF sample_block_ok sample_effect_local sample_run sample_steps(7), of "\<lambda>k. 1"]
    sample_run by simp

text \<open>
  C20. Transactions in flight never conflict, and conflicting transactions keep their order:
  at every moment of a run no two popped and unfinished transactions access a common account
  that one of them writes, and whenever a transaction is in flight, every earlier one of the
  block that conflicts with it has already been executed.
\<close>

theorem in_flight_independent:
  assumes "block_ok txs" "devin_run cost_of txs self ranges ex" "i \<in> set (in_flight ranges)"
  shows "(\<forall>j \<in> set (in_flight ranges). i \<noteq> j \<longrightarrow> \<not> tx_conflict (txs ! i) (txs ! j)) \<and>
    (\<forall>j < i. tx_conflict (txs ! j) (txs ! i) \<longrightarrow> j \<in> set ex \<and> j \<notin> set (in_flight ranges))"
proof -
  obtain D where D: "run_inv txs self ranges ex D" using devin_run_inv [OF assms(1,2)] by blast
  then have inv: "devin_inv txs self (set (in_flight ranges)) D" by (simp add: run_inv_def)
  note o = devin_inv_order [OF inv]
  have "\<forall>j \<in> set (in_flight ranges). i \<noteq> j \<longrightarrow> \<not> conflicting txs i j"
    using o(2) assms(3) unfolding independent_def by blast
  moreover have "j \<in> D" if "j < i" "conflicting txs j i" for j
    using o(1) assms(3) that unfolding in_order_def by blast
  moreover have "D \<subseteq> set ex" using D by (simp add: run_inv_def)
  ultimately show ?thesis using o(3) by blast
qed

theorem in_flight_independent_witness:
  "devin_run (\<lambda>tx. 700000) sample_block sample_run_2 [(0, 1), (2, 3)] [] \<and>
   \<not> tx_conflict (sample_block ! 0) (sample_block ! 2)"
proof -
  have "devin_run (\<lambda>tx. 700000) sample_block sample_run_1 [(0, 1)] []"
    using devin_run.pop [OF devin_run.start sample_steps(1)] by simp
  from devin_run.pop [OF this sample_steps(2)]
  have run: "devin_run (\<lambda>tx. 700000) sample_block sample_run_2 [(0, 1), (2, 3)] []" by simp
  then show ?thesis using in_flight_independent [OF sample_block_ok run, of 0] by simp
qed

lemma finish_in_flight:
  assumes ok: "block_ok txs" and D: "run_inv txs self ranges ex D" and rng: "rng \<in> set ranges"
  shows "devin_finish txs self rng \<noteq> None"
proof -
  obtain s e where se: "rng = (s, e)" by (cases rng)
  have inv: "devin_inv txs self (set (in_flight ranges)) D" and pos: "\<forall>(s, e) \<in> set ranges. s < e"
    using D by (simp_all add: run_inv_def)
  have "s < e" "{s..<e} \<subseteq> set (in_flight ranges)"
    using pos rng in_flight_mem [of s e ranges] unfolding se by auto
  from devin_finish_ok [OF ok inv this] show ?thesis by (auto simp: se)
qed

lemma finished_exact:
  assumes D: "run_inv txs self ranges ex D" and "txs \<noteq> []"
  shows "finished self \<longleftrightarrow> ranges = [] \<and> set ex = {..<length txs}"
proof -
  have inv: "devin_inv txs self (set (in_flight ranges)) D" and pos: "\<forall>(s, e) \<in> set ranges. s < e"
    and ex: "set ex \<subseteq> D \<union> set (in_flight ranges)" "D \<subseteq> set ex"
    using D by (simp_all add: run_inv_def)
  note o = devin_inv_order [OF inv]
  have nil: "ranges = []" if "set (in_flight ranges) = {}"
  proof (rule ccontr)
    assume "ranges \<noteq> []"
    then obtain s e rs where "ranges = (s, e) # rs" by (cases ranges) auto
    then show False using pos that by auto
  qed
  show ?thesis
  proof
    assume "finished self"
    then have all: "D = {..<length txs}" using o(5) by blast
    have "set (in_flight ranges) \<subseteq> D" unfolding all using o(4) by simp
    then have "set (in_flight ranges) = {}" using o(3) by (metis inf.absorb1)
    then show "ranges = [] \<and> set ex = {..<length txs}" using all ex nil by simp
  next
    assume "ranges = [] \<and> set ex = {..<length txs}"
    then have "D = {..<length txs}" using ex by auto
    then show "finished self" using o(5) assms(2) by auto
  qed
qed

text \<open>
  C19. The scheduler neither panics nor gets stuck: in every state of a run \<open>pop\<close> and the
  \<open>finish\<close> of a range in flight return, a popped range is not empty and holds only
  transactions that were never popped before, and while nothing is in flight and the block
  is not finished, \<open>pop\<close> finds a range. The scheduler reports that it is finished exactly when
  every transaction has been handed back.
\<close>

theorem devin_progress:
  assumes "block_ok txs" "devin_run cost_of txs self ranges ex" "txs \<noteq> []"
  shows "\<exists>self' r. devin_pop cost_of txs self = Some (self', r) \<and>
    (case r of Some (s, e) \<Rightarrow> s < e \<and> e \<le> length txs \<and> {s..<e} \<inter> (set ex \<union> set (in_flight ranges)) = {}
     | None \<Rightarrow> True) \<and>
    (ranges = [] \<and> \<not> finished self \<longrightarrow> r \<noteq> None) \<and>
    (\<forall>rng \<in> set ranges. devin_finish txs self rng \<noteq> None) \<and>
    (finished self \<longleftrightarrow> ranges = [] \<and> set ex = {..<length txs})"
proof -
  obtain D where D: "run_inv txs self ranges ex D" using devin_run_inv [OF assms(1,2)] by blast
  then have inv: "devin_inv txs self (set (in_flight ranges)) D" by (simp add: run_inv_def)
  note o = devin_inv_order [OF inv]
  have ex: "set ex \<subseteq> D \<union> set (in_flight ranges)" using D by (simp add: run_inv_def)
  obtain self' r where pop: "devin_pop cost_of txs self = Some (self', r)"
    "case r of None \<Rightarrow> devin_inv txs self' (set (in_flight ranges)) D
     | Some (s, e) \<Rightarrow> s < e \<and> {s..<e} \<inter> (set (in_flight ranges) \<union> D) = {} \<and>
       {s..<e} \<subseteq> {..<length txs} \<and> devin_inv txs self' (set (in_flight ranges) \<union> {s..<e}) D"
    "set (in_flight ranges) = {} \<and> D \<noteq> {..<length txs} \<longrightarrow> r \<noteq> None"
    using devin_pop_ok [OF assms(1) inv, of cost_of] by (elim exE conjE) (rule that)
  have "case r of Some (s, e) \<Rightarrow> s < e \<and> e \<le> length txs \<and> {s..<e} \<inter> (set ex \<union> set (in_flight ranges)) = {}
     | None \<Rightarrow> True"
  proof (cases r)
    case (Some se)
    obtain s e where se: "se = (s, e)" by (cases se)
    have p: "s < e" "{s..<e} \<inter> (set (in_flight ranges) \<union> D) = {}" "{s..<e} \<subseteq> {..<length txs}"
      using pop(2) Some se by simp_all
    have "e - 1 \<in> {s..<e}" using p(1) by simp
    then have "e - 1 < length txs" using p(3) by blast
    moreover have "{s..<e} \<inter> (set ex \<union> set (in_flight ranges)) = {}" using p(2) ex by blast
    ultimately show ?thesis using Some se p(1) by simp
  qed simp
  moreover have "ranges = [] \<and> \<not> finished self \<longrightarrow> r \<noteq> None"
    using pop(3) o(5) assms(3) by auto
  ultimately show ?thesis using pop(1) finish_in_flight [OF assms(1) D] finished_exact [OF D assms(3)] by blast
qed

theorem devin_progress_witness:
  "\<exists>self' s e. devin_pop (\<lambda>tx. 700000) sample_block (devin_init devin_new sample_block) =
     Some (self', Some (s, e)) \<and> s < e \<and> e \<le> 3"
proof -
  have "sample_block \<noteq> []" by (simp add: sample_block_def)
  from devin_progress [OF sample_block_ok devin_run.start this, of "\<lambda>tx. 700000" devin_new]
  show ?thesis
    by (auto simp: devin_init_def sample_block_def split: option.splits prod.splits)
qed

end
