(* ===== verification/Fork_Choice.thy ===== *)
theory Fork_Choice
  imports Prelude "HOL-Library.Monad_Syntax" "HOL-Library.Product_Lexorder" "HOL-Library.RBT"
begin

text \<open>
  The fork choice of the validator: \<open>HeaviestSubtreeForkChoice\<close> of
  core/src/consensus/heaviest_subtree_fork_choice.rs, with the tree traversal of
  core/src/consensus/tree_diff.rs.  This theory holds the definitions; the tree lemmas are in
  Fork_Tree, the proofs for the operations in Fork_Aggregate, Fork_Batches, Fork_Votes, Fork_Leaf and
  Fork_Root, and the properties in Fork_Properties.

  A node is named by its slot and bank hash, ordered lexicographically.  The hash map of nodes is
  a map, a \<open>BTreeSet\<close> of children is its ascending list, and the \<open>BTreeMap\<close> of update operations
  is a red-black tree.  Stakes are words and wrap around as in the release profile.  Loops that
  follow parent links or work off a stack are partial functions: \<open>None\<close> is a panic or a loop that
  does not end.  The time of the last root, which only paces the log, is left out.
\<close>

section \<open>Data\<close>

datatype slot_hash_key = Key (key_slot: slot) (key_hash: hash)

text \<open>The order of the Rust tuple \<open>(Slot, Hash)\<close>.\<close>

instantiation slot_hash_key :: linorder
begin

definition less_eq_slot_hash_key :: "slot_hash_key \<Rightarrow> slot_hash_key \<Rightarrow> bool" where
  "less_eq_slot_hash_key k l \<longleftrightarrow> (key_slot k, key_hash k) \<le> (key_slot l, key_hash l)"

definition less_slot_hash_key :: "slot_hash_key \<Rightarrow> slot_hash_key \<Rightarrow> bool" where
  "less_slot_hash_key k l \<longleftrightarrow> (key_slot k, key_hash k) < (key_slot l, key_hash l)"

instance
  by standard (auto simp: less_eq_slot_hash_key_def less_slot_hash_key_def
    intro: order.trans slot_hash_key.expand)

end

lemma slot_less_key: "key_slot k < key_slot l \<Longrightarrow> k < l"
  by (simp add: less_slot_hash_key_def)

datatype update_label =
  LAggregate | LAdd | LMarkValid slot | LMarkInvalid slot | LSubtract

text \<open>The derived order: by constructor in the order of declaration, then by slot.\<close>

fun label_rank :: "update_label \<Rightarrow> nat \<times> slot" where
  "label_rank LAggregate = (0, 0)"
| "label_rank LAdd = (1, 0)"
| "label_rank (LMarkValid s) = (2, s)"
| "label_rank (LMarkInvalid s) = (3, s)"
| "label_rank LSubtract = (4, 0)"

lemma label_rank_inject: "label_rank l = label_rank m \<longleftrightarrow> l = m"
  by (cases l; cases m) simp_all

instantiation update_label :: linorder
begin

definition less_eq_update_label :: "update_label \<Rightarrow> update_label \<Rightarrow> bool" where
  "less_eq_update_label l m \<longleftrightarrow> label_rank l \<le> label_rank m"

definition less_update_label :: "update_label \<Rightarrow> update_label \<Rightarrow> bool" where
  "less_update_label l m \<longleftrightarrow> label_rank l < label_rank m"

instance
  by standard (auto simp: less_eq_update_label_def less_update_label_def label_rank_inject
    intro: order.trans dest: order.antisym)

end

datatype update_operation =
  Add u64 | MarkValid slot | MarkInvalid slot | Subtract u64 | Aggregate

type_synonym update_operations = "(slot_hash_key \<times> update_label, update_operation) rbt"

definition update_stake :: "update_operation \<Rightarrow> u64 \<Rightarrow> update_operation option" where
  "update_stake self new_stake =
     (case self of
        Add stake \<Rightarrow> Some (Add (stake + new_stake))
      | Subtract stake \<Rightarrow> Some (Subtract (stake + new_stake))
      | _ \<Rightarrow> None)"

record fork_info =
  fi_stake_voted_at :: u64
  fi_stake_voted_subtree :: u64
  fi_height :: nat
  fi_best_slot :: slot_hash_key
  fi_deepest_slot :: slot_hash_key
  fi_parent :: "slot_hash_key option"
  fi_children :: "slot_hash_key list"
  fi_latest_invalid_ancestor :: "slot option"
  fi_is_duplicate_confirmed :: bool

definition fi_is_unconfirmed_duplicate :: "fork_info \<Rightarrow> slot \<Rightarrow> bool" where
  "fi_is_unconfirmed_duplicate self my_slot =
     (case fi_latest_invalid_ancestor self of Some ancestor \<Rightarrow> ancestor = my_slot | None \<Rightarrow> False)"

definition fi_is_candidate :: "fork_info \<Rightarrow> bool" where
  "fi_is_candidate self \<longleftrightarrow> fi_latest_invalid_ancestor self = None"

definition set_duplicate_confirmed :: "fork_info \<Rightarrow> fork_info" where
  "set_duplicate_confirmed self =
     self\<lparr>fi_is_duplicate_confirmed := True, fi_latest_invalid_ancestor := None\<rparr>"

definition update_with_newly_valid_ancestor :: "fork_info \<Rightarrow> slot \<Rightarrow> fork_info" where
  "update_with_newly_valid_ancestor self newly_valid_ancestor =
     (case fi_latest_invalid_ancestor self of
        Some latest \<Rightarrow>
          if latest \<le> newly_valid_ancestor then self\<lparr>fi_latest_invalid_ancestor := None\<rparr> else self
      | None \<Rightarrow> self)"

definition update_with_newly_invalid_ancestor :: "fork_info \<Rightarrow> slot \<Rightarrow> fork_info option" where
  "update_with_newly_invalid_ancestor self newly_invalid_ancestor =
     (if fi_is_duplicate_confirmed self then None
      else if (case fi_latest_invalid_ancestor self of
                 Some latest \<Rightarrow> newly_invalid_ancestor > latest | None \<Rightarrow> True)
      then Some (self\<lparr>fi_latest_invalid_ancestor := Some newly_invalid_ancestor\<rparr>)
      else Some self)"

type_synonym fork_infos_map = "slot_hash_key \<rightharpoonup> fork_info"

record fork_choice =
  fork_infos :: fork_infos_map
  latest_votes :: "pubkey \<rightharpoonup> slot_hash_key"
  tree_root :: slot_hash_key

text \<open>Writing one node.\<close>

definition put_info :: "fork_choice \<Rightarrow> slot_hash_key \<Rightarrow> fork_info \<Rightarrow> fork_choice" where
  "put_info self k i = self\<lparr>fork_infos := (fork_infos self)(k \<mapsto> i)\<rparr>"

section \<open>Queries\<close>

definition contains_block :: "fork_choice \<Rightarrow> slot_hash_key \<Rightarrow> bool" where
  "contains_block self key \<longleftrightarrow> fork_infos self key \<noteq> None"

definition best_slot :: "fork_choice \<Rightarrow> slot_hash_key \<Rightarrow> slot_hash_key option" where
  "best_slot self key = map_option fi_best_slot (fork_infos self key)"

definition deepest_slot :: "fork_choice \<Rightarrow> slot_hash_key \<Rightarrow> slot_hash_key option" where
  "deepest_slot self key = map_option fi_deepest_slot (fork_infos self key)"

definition best_overall_slot :: "fork_choice \<Rightarrow> slot_hash_key option" where
  "best_overall_slot self = best_slot self (tree_root self)"

definition deepest_overall_slot :: "fork_choice \<Rightarrow> slot_hash_key option" where
  "deepest_overall_slot self = deepest_slot self (tree_root self)"

definition stake_voted_subtree :: "fork_choice \<Rightarrow> slot_hash_key \<Rightarrow> u64 option" where
  "stake_voted_subtree self key = map_option fi_stake_voted_subtree (fork_infos self key)"

definition stake_voted_at :: "fork_choice \<Rightarrow> slot_hash_key \<Rightarrow> u64 option" where
  "stake_voted_at self key = map_option fi_stake_voted_at (fork_infos self key)"

definition tree_height :: "fork_choice \<Rightarrow> slot_hash_key \<Rightarrow> nat option" where
  "tree_height self key = map_option fi_height (fork_infos self key)"

definition fc_parent :: "fork_choice \<Rightarrow> slot_hash_key \<Rightarrow> slot_hash_key option" where
  "fc_parent self key = Option.bind (fork_infos self key) fi_parent"

definition fc_children :: "fork_choice \<Rightarrow> slot_hash_key \<Rightarrow> slot_hash_key list option" where
  "fc_children self key = map_option fi_children (fork_infos self key)"

definition latest_invalid_ancestor :: "fork_choice \<Rightarrow> slot_hash_key \<Rightarrow> slot option" where
  "latest_invalid_ancestor self key = Option.bind (fork_infos self key) fi_latest_invalid_ancestor"

definition is_duplicate_confirmed :: "fork_choice \<Rightarrow> slot_hash_key \<Rightarrow> bool option" where
  "is_duplicate_confirmed self key = map_option fi_is_duplicate_confirmed (fork_infos self key)"

definition is_unconfirmed_duplicate :: "fork_choice \<Rightarrow> slot_hash_key \<Rightarrow> bool option" where
  "is_unconfirmed_duplicate self key =
     map_option (\<lambda>i. fi_is_unconfirmed_duplicate i (key_slot key)) (fork_infos self key)"

definition is_candidate :: "fork_choice \<Rightarrow> slot_hash_key \<Rightarrow> bool option" where
  "is_candidate self key = map_option fi_is_candidate (fork_infos self key)"

datatype ordering = Less | Equal | Greater

definition ord_cmp :: "'a::linorder \<Rightarrow> 'a \<Rightarrow> ordering" where
  "ord_cmp a b = (if a < b then Less else if a = b then Equal else Greater)"

definition max_by_weight :: "fork_choice \<Rightarrow> slot_hash_key \<Rightarrow> slot_hash_key \<Rightarrow> ordering option" where
  "max_by_weight self slot1 slot2 =
     do {
       weight1 \<leftarrow> stake_voted_subtree self slot1;
       weight2 \<leftarrow> stake_voted_subtree self slot2;
       Some (if weight1 = weight2 then ord_cmp slot2 slot1 else ord_cmp weight1 weight2)
     }"

text \<open>The ancestors of a node, nearest first, as the iterator yields them.\<close>

definition ancestor_next :: "fork_infos_map \<Rightarrow> slot_hash_key \<Rightarrow> slot_hash_key option" where
  "ancestor_next infos current = Option.bind (infos current) fi_parent"

partial_function (option) ancestor_iterator ::
  "fork_infos_map \<Rightarrow> slot_hash_key \<Rightarrow> slot_hash_key list option" where
  "ancestor_iterator infos current =
     (case ancestor_next infos current of
        None \<Rightarrow> Some []
      | Some p \<Rightarrow> Option.bind (ancestor_iterator infos p) (\<lambda>rest. Some (p # rest)))"

definition is_strict_ancestor :: "fork_choice \<Rightarrow> slot_hash_key \<Rightarrow> slot_hash_key \<Rightarrow> bool option" where
  "is_strict_ancestor self maybe_ancestor_key node_key =
     (if maybe_ancestor_key = node_key then Some False
      else if key_slot maybe_ancestor_key > key_slot node_key then Some False
      else do {
        ancs \<leftarrow> ancestor_iterator (fork_infos self) node_key;
        Some (maybe_ancestor_key \<in> set ancs)
      })"

section \<open>Adding a leaf\<close>

fun is_best_child_loop ::
  "fork_choice \<Rightarrow> slot_hash_key \<Rightarrow> u64 \<Rightarrow> slot_hash_key list \<Rightarrow> bool option" where
  "is_best_child_loop self maybe_best_child weight [] = Some True"
| "is_best_child_loop self maybe_best_child weight (child # rest) =
     do {
       child_weight \<leftarrow> stake_voted_subtree self child;
       candidate \<leftarrow> is_candidate self child;
       if \<not> candidate then is_best_child_loop self maybe_best_child weight rest
       else if child_weight > weight \<or> (weight = child_weight \<and> child < maybe_best_child)
       then Some False
       else is_best_child_loop self maybe_best_child weight rest
     }"

definition is_best_child :: "fork_choice \<Rightarrow> slot_hash_key \<Rightarrow> bool option" where
  "is_best_child self maybe_best_child =
     do {
       weight \<leftarrow> stake_voted_subtree self maybe_best_child;
       case fc_parent self maybe_best_child of
         None \<Rightarrow> Some True
       | Some parent \<Rightarrow>
           do {
             cs \<leftarrow> fc_children self parent;
             is_best_child_loop self maybe_best_child weight cs
           }
     }"

fun is_deepest_child_loop ::
  "fork_choice \<Rightarrow> slot_hash_key \<Rightarrow> u64 \<Rightarrow> nat \<Rightarrow> slot_hash_key list \<Rightarrow> bool option" where
  "is_deepest_child_loop self maybe_deepest_child weight h [] = Some True"
| "is_deepest_child_loop self maybe_deepest_child weight h (child # rest) =
     do {
       child_height \<leftarrow> tree_height self child;
       child_weight \<leftarrow> stake_voted_subtree self child;
       case (ord_cmp child_height h, ord_cmp child_weight weight, ord_cmp child maybe_deepest_child) of
         (Greater, _, _) \<Rightarrow> Some False
       | (Equal, Greater, _) \<Rightarrow> Some False
       | (Equal, Equal, Less) \<Rightarrow> Some False
       | _ \<Rightarrow> is_deepest_child_loop self maybe_deepest_child weight h rest
     }"

definition is_deepest_child :: "fork_choice \<Rightarrow> slot_hash_key \<Rightarrow> bool option" where
  "is_deepest_child self maybe_deepest_child =
     do {
       weight \<leftarrow> stake_voted_subtree self maybe_deepest_child;
       h \<leftarrow> tree_height self maybe_deepest_child;
       case fc_parent self maybe_deepest_child of
         None \<Rightarrow> Some True
       | Some parent \<Rightarrow>
           do {
             cs \<leftarrow> fc_children self parent;
             is_deepest_child_loop self maybe_deepest_child weight h cs
           }
     }"

text \<open>The two loops of \<open>propagate_new_leaf\<close>.\<close>

partial_function (option) propagate_best ::
  "slot_hash_key \<Rightarrow> slot_hash_key \<Rightarrow> fork_choice \<times> slot_hash_key option \<Rightarrow> fork_choice option" where
  "propagate_best slot_hash_key parent_best st =
     (case st of (self, ancestor) \<Rightarrow>
        (case ancestor of
           None \<Rightarrow> Some self
         | Some a \<Rightarrow>
             (case fork_infos self a of
                None \<Rightarrow> None
              | Some i \<Rightarrow>
                  if fi_best_slot i = parent_best
                  then propagate_best slot_hash_key parent_best
                         (put_info self a (i\<lparr>fi_best_slot := slot_hash_key\<rparr>), fi_parent i)
                  else Some self)))"

partial_function (option) propagate_deepest ::
  "slot_hash_key \<Rightarrow> fork_choice \<times> slot_hash_key option \<times> slot_hash_key \<times> nat \<Rightarrow> fork_choice option" where
  "propagate_deepest slot_hash_key st =
     (case st of (self, ancestor, current_child, current_height) \<Rightarrow>
        (case ancestor of
           None \<Rightarrow> Some self
         | Some a \<Rightarrow>
             (case is_deepest_child self current_child of
                None \<Rightarrow> None
              | Some deepest \<Rightarrow>
                  if \<not> deepest then Some self
                  else
                    (case fork_infos self a of
                       None \<Rightarrow> None
                     | Some i \<Rightarrow>
                         propagate_deepest slot_hash_key
                           (put_info self a
                             (i\<lparr>fi_deepest_slot := slot_hash_key, fi_height := current_height + 1\<rparr>),
                            fi_parent i, a, current_height + 1)))))"

definition propagate_new_leaf ::
  "fork_choice \<Rightarrow> slot_hash_key \<Rightarrow> slot_hash_key \<Rightarrow> fork_choice option" where
  "propagate_new_leaf self slot_hash_key parent_slot_hash_key =
     do {
       parent_best \<leftarrow> best_slot self parent_slot_hash_key;
       best \<leftarrow> is_best_child self slot_hash_key;
       self \<leftarrow> (if best
                then propagate_best slot_hash_key parent_best (self, Some parent_slot_hash_key)
                else Some self);
       propagate_deepest slot_hash_key (self, Some parent_slot_hash_key, slot_hash_key, 1)
     }"

definition leaf_info :: "slot_hash_key \<Rightarrow> slot_hash_key option \<Rightarrow> slot option \<Rightarrow> fork_info" where
  "leaf_info key parent invalid_ancestor =
     \<lparr>fi_stake_voted_at = 0, fi_stake_voted_subtree = 0, fi_height = 1,
      fi_best_slot = key, fi_deepest_slot = key, fi_parent = parent, fi_children = [],
      fi_latest_invalid_ancestor = invalid_ancestor,
      fi_is_duplicate_confirmed = (parent = None)\<rparr>"

definition add_new_leaf_slot ::
  "fork_choice \<Rightarrow> slot_hash_key \<Rightarrow> slot_hash_key option \<Rightarrow> fork_choice option" where
  "add_new_leaf_slot self slot_hash_key parent =
     (if fork_infos self slot_hash_key \<noteq> None then Some self
      else
        let self = put_info self slot_hash_key
              (leaf_info slot_hash_key parent (Option.bind parent (latest_invalid_ancestor self)))
        in
        (case parent of
           None \<Rightarrow> Some self
         | Some p \<Rightarrow>
             do {
               i \<leftarrow> fork_infos self p;
               propagate_new_leaf
                 (put_info self p (i\<lparr>fi_children := insort_insert slot_hash_key (fi_children i)\<rparr>))
                 slot_hash_key p
             }))"

definition fork_choice_new :: "slot_hash_key \<Rightarrow> fork_choice option" where
  "fork_choice_new root =
     add_new_leaf_slot
       \<lparr>fork_infos = Map.empty, latest_votes = Map.empty, tree_root = root\<rparr> root None"

text \<open>The parts of a bank that the fork choice reads.\<close>

record frozen_bank =
  bank_is_frozen :: bool
  bank_slot :: slot
  bank_hash :: hash
  bank_parent_slot :: slot
  bank_parent_hash :: hash

fun frozen_banks_loop ::
  "slot \<Rightarrow> fork_choice \<Rightarrow> slot \<Rightarrow> frozen_bank list \<Rightarrow> fork_choice option" where
  "frozen_banks_loop root self prev_slot [] = Some self"
| "frozen_banks_loop root self prev_slot (bank # rest) =
     (if \<not> bank_is_frozen bank then None
      else if bank_slot bank > root
      then
        if \<not> bank_slot bank > prev_slot then None
        else if bank_hash bank = 0 then None
        else if bank_parent_hash bank = 0 then None
        else do {
          self \<leftarrow> add_new_leaf_slot self (Key (bank_slot bank) (bank_hash bank))
                   (Some (Key (bank_parent_slot bank) (bank_parent_hash bank)));
          frozen_banks_loop root self (bank_slot bank) rest
        }
      else frozen_banks_loop root self prev_slot rest)"

definition new_from_frozen_banks :: "slot_hash_key \<Rightarrow> frozen_bank list \<Rightarrow> fork_choice option" where
  "new_from_frozen_banks root frozen_banks =
     do {
       self \<leftarrow> fork_choice_new root;
       frozen_banks_loop (key_slot root) self (key_slot root) frozen_banks
     }"

definition add_root_parent :: "fork_choice \<Rightarrow> slot_hash_key \<Rightarrow> fork_choice option" where
  "add_root_parent self root_parent =
     (if \<not> key_slot root_parent < key_slot (tree_root self) then None
      else if fork_infos self root_parent \<noteq> None then None
      else do {
        root_info \<leftarrow> fork_infos self (tree_root self);
        let self' = put_info self (tree_root self) (root_info\<lparr>fi_parent := Some root_parent\<rparr>);
            root_parent_info =
              \<lparr>fi_stake_voted_at = 0,
               fi_stake_voted_subtree = fi_stake_voted_subtree root_info,
               fi_height = fi_height root_info + 1,
               fi_best_slot = fi_best_slot root_info,
               fi_deepest_slot = fi_deepest_slot root_info,
               fi_parent = None,
               fi_children = [tree_root self],
               fi_latest_invalid_ancestor = None,
               fi_is_duplicate_confirmed = fi_is_duplicate_confirmed root_info\<rparr>
        in Some ((put_info self' root_parent root_parent_info)\<lparr>tree_root := root_parent\<rparr>)
      })"

section \<open>Update operations\<close>

text \<open>
  \<open>aggregate_slot\<close> runs over the children with these local variables.
\<close>

record aggregate_vars =
  av_stake_voted_subtree :: u64
  av_best_child_stake :: u64
  av_best_child :: slot_hash_key
  av_best_slot :: slot_hash_key
  av_deepest_child_height :: nat
  av_deepest_child_stake :: u64
  av_deepest_child :: slot_hash_key
  av_deepest_slot :: slot_hash_key
  av_is_duplicate_confirmed :: bool

definition aggregate_best ::
  "slot_hash_key \<Rightarrow> slot_hash_key \<Rightarrow> fork_info \<Rightarrow> aggregate_vars \<Rightarrow> aggregate_vars" where
  "aggregate_best slot_hash_key child_key child v =
     (if fi_is_candidate child \<and>
         (av_best_child v = slot_hash_key \<or>
          fi_stake_voted_subtree child > av_best_child_stake v \<or>
          (fi_stake_voted_subtree child = av_best_child_stake v \<and> child_key < av_best_child v))
      then v\<lparr>av_best_child_stake := fi_stake_voted_subtree child, av_best_child := child_key,
             av_best_slot := fi_best_slot child\<rparr>
      else v)"

definition aggregate_deepest ::
  "slot_hash_key \<Rightarrow> slot_hash_key \<Rightarrow> fork_info \<Rightarrow> aggregate_vars \<Rightarrow> aggregate_vars" where
  "aggregate_deepest slot_hash_key child_key child v =
     (let take = v\<lparr>av_deepest_child_height := fi_height child,
                   av_deepest_child_stake := fi_stake_voted_subtree child,
                   av_deepest_child := child_key, av_deepest_slot := fi_deepest_slot child\<rparr>
      in case (av_deepest_child v = slot_hash_key,
               ord_cmp (fi_height child) (av_deepest_child_height v),
               ord_cmp (fi_stake_voted_subtree child) (av_deepest_child_stake v),
               ord_cmp child_key (av_deepest_child v)) of
           (True, _, _, _) \<Rightarrow> take
         | (_, Greater, _, _) \<Rightarrow> take
         | (_, Equal, Greater, _) \<Rightarrow> take
         | (_, Equal, Equal, Less) \<Rightarrow> take
         | _ \<Rightarrow> v)"

definition aggregate_child ::
  "slot_hash_key \<Rightarrow> slot_hash_key \<Rightarrow> fork_info \<Rightarrow> aggregate_vars \<Rightarrow> aggregate_vars" where
  "aggregate_child slot_hash_key child_key child v =
     (let v = v\<lparr>av_is_duplicate_confirmed := av_is_duplicate_confirmed v \<or> fi_is_duplicate_confirmed child,
                av_stake_voted_subtree := av_stake_voted_subtree v + fi_stake_voted_subtree child\<rparr>
      in aggregate_deepest slot_hash_key child_key child
           (aggregate_best slot_hash_key child_key child v))"

fun aggregate_loop ::
  "fork_infos_map \<Rightarrow> slot_hash_key \<Rightarrow> aggregate_vars \<Rightarrow> slot_hash_key list \<Rightarrow> aggregate_vars option" where
  "aggregate_loop infos slot_hash_key v [] = Some v"
| "aggregate_loop infos slot_hash_key v (child_key # rest) =
     do {
       child \<leftarrow> infos child_key;
       aggregate_loop infos slot_hash_key (aggregate_child slot_hash_key child_key child v) rest
     }"

definition aggregate_slot :: "fork_choice \<Rightarrow> slot_hash_key \<Rightarrow> fork_choice option" where
  "aggregate_slot self slot_hash_key =
     (case fork_infos self slot_hash_key of
        None \<Rightarrow> Some self
      | Some fork_info \<Rightarrow>
          do {
            v \<leftarrow> aggregate_loop (fork_infos self) slot_hash_key
                   \<lparr>av_stake_voted_subtree = fi_stake_voted_at fork_info,
                    av_best_child_stake = 0, av_best_child = slot_hash_key, av_best_slot = slot_hash_key,
                    av_deepest_child_height = 0, av_deepest_child_stake = 0,
                    av_deepest_child = slot_hash_key, av_deepest_slot = slot_hash_key,
                    av_is_duplicate_confirmed = False\<rparr>
                   (fi_children fork_info);
            Some (put_info self slot_hash_key
              ((if av_is_duplicate_confirmed v then set_duplicate_confirmed fork_info else fork_info)
                \<lparr>fi_stake_voted_subtree := av_stake_voted_subtree v,
                 fi_height := av_deepest_child_height v + 1,
                 fi_best_slot := av_best_slot v,
                 fi_deepest_slot := av_deepest_slot v\<rparr>))
          })"

definition mark_fork_valid :: "fork_choice \<Rightarrow> slot_hash_key \<Rightarrow> slot \<Rightarrow> fork_choice option" where
  "mark_fork_valid self fork_to_modify_key valid_slot =
     (case fork_infos self fork_to_modify_key of
        None \<Rightarrow> Some self
      | Some i \<Rightarrow>
          let i = update_with_newly_valid_ancestor i valid_slot;
              i = (if key_slot fork_to_modify_key = valid_slot
                   then i\<lparr>fi_is_duplicate_confirmed := True\<rparr> else i)
          in Some (put_info self fork_to_modify_key i))"

definition mark_fork_invalid :: "fork_choice \<Rightarrow> slot_hash_key \<Rightarrow> slot \<Rightarrow> fork_choice option" where
  "mark_fork_invalid self fork_to_modify_key invalid_slot =
     (case fork_infos self fork_to_modify_key of
        None \<Rightarrow> Some self
      | Some i \<Rightarrow>
          do {
            i \<leftarrow> update_with_newly_invalid_ancestor i invalid_slot;
            Some (put_info self fork_to_modify_key i)
          })"

definition add_slot_stake :: "fork_choice \<Rightarrow> slot_hash_key \<Rightarrow> u64 \<Rightarrow> fork_choice" where
  "add_slot_stake self slot_hash_key stake =
     (case fork_infos self slot_hash_key of
        None \<Rightarrow> self
      | Some i \<Rightarrow> put_info self slot_hash_key
          (i\<lparr>fi_stake_voted_at := fi_stake_voted_at i + stake,
             fi_stake_voted_subtree := fi_stake_voted_subtree i + stake\<rparr>))"

definition subtract_slot_stake :: "fork_choice \<Rightarrow> slot_hash_key \<Rightarrow> u64 \<Rightarrow> fork_choice" where
  "subtract_slot_stake self slot_hash_key stake =
     (case fork_infos self slot_hash_key of
        None \<Rightarrow> self
      | Some i \<Rightarrow> put_info self slot_hash_key
          (i\<lparr>fi_stake_voted_at := fi_stake_voted_at i - stake,
             fi_stake_voted_subtree := fi_stake_voted_subtree i - stake\<rparr>))"

definition process_operation ::
  "fork_choice \<Rightarrow> slot_hash_key \<Rightarrow> update_operation \<Rightarrow> fork_choice option" where
  "process_operation self slot_hash_key operation =
     (case operation of
        MarkValid valid_slot \<Rightarrow> mark_fork_valid self slot_hash_key valid_slot
      | MarkInvalid invalid_slot \<Rightarrow> mark_fork_invalid self slot_hash_key invalid_slot
      | Aggregate \<Rightarrow> aggregate_slot self slot_hash_key
      | Add stake \<Rightarrow> Some (add_slot_stake self slot_hash_key stake)
      | Subtract stake \<Rightarrow> Some (subtract_slot_stake self slot_hash_key stake))"

fun process_loop ::
  "fork_choice \<Rightarrow> ((slot_hash_key \<times> update_label) \<times> update_operation) list \<Rightarrow> fork_choice option" where
  "process_loop self [] = Some self"
| "process_loop self (((slot_hash_key, _), operation) # rest) =
     do {
       self \<leftarrow> process_operation self slot_hash_key operation;
       process_loop self rest
     }"

definition process_update_operations :: "fork_choice \<Rightarrow> update_operations \<Rightarrow> fork_choice option" where
  "process_update_operations self update_operations =
     process_loop self (rev (RBT.entries update_operations))"

definition do_insert_aggregate_operation ::
  "update_operations \<Rightarrow> update_operation option \<Rightarrow> slot_hash_key \<Rightarrow> update_operations \<times> bool" where
  "do_insert_aggregate_operation ops modify_fork_validity slot_hash_key =
     (let aggregate_label = (slot_hash_key, LAggregate) in
      if RBT.lookup ops aggregate_label \<noteq> None then (ops, False)
      else
        let ops =
          (case modify_fork_validity of
             Some (MarkValid slot) \<Rightarrow> RBT.insert (slot_hash_key, LMarkValid slot) (MarkValid slot) ops
           | Some (MarkInvalid slot) \<Rightarrow>
               RBT.insert (slot_hash_key, LMarkInvalid slot) (MarkInvalid slot) ops
           | _ \<Rightarrow> ops)
        in (RBT.insert aggregate_label Aggregate ops, True))"

text \<open>The loop over the ancestors stops at the first one that is already aggregated.\<close>

fun aggregate_ancestors_loop ::
  "update_operation option \<Rightarrow> update_operations \<Rightarrow> slot_hash_key list \<Rightarrow> update_operations" where
  "aggregate_ancestors_loop modify_fork_validity ops [] = ops"
| "aggregate_ancestors_loop modify_fork_validity ops (ancestor # rest) =
     (case do_insert_aggregate_operation ops modify_fork_validity ancestor of
        (ops, True) \<Rightarrow> aggregate_ancestors_loop modify_fork_validity ops rest
      | (ops, False) \<Rightarrow> ops)"

definition do_insert_aggregate_operations_across_ancestors ::
  "fork_choice \<Rightarrow> update_operations \<Rightarrow> update_operation option \<Rightarrow> slot_hash_key \<Rightarrow>
   update_operations option" where
  "do_insert_aggregate_operations_across_ancestors self ops modify_fork_validity slot_hash_key =
     do {
       ancs \<leftarrow> ancestor_iterator (fork_infos self) slot_hash_key;
       Some (aggregate_ancestors_loop modify_fork_validity ops ancs)
     }"

definition insert_aggregate_operations ::
  "fork_choice \<Rightarrow> update_operations \<Rightarrow> slot_hash_key \<Rightarrow> update_operations option" where
  "insert_aggregate_operations self ops slot_hash_key =
     do_insert_aggregate_operations_across_ancestors self ops None slot_hash_key"

section \<open>Votes\<close>

text \<open>
  The epoch of a slot (\<open>EpochSchedule::get_epoch\<close>) and the stakes of an epoch
  (\<open>VersionedEpochStakes::vote_account_stake\<close>) are given.
\<close>

record stake_env =
  get_epoch :: "slot \<Rightarrow> epoch"
  epoch_stakes :: "epoch \<rightharpoonup> (pubkey \<Rightarrow> u64)"

definition stake_update :: "stake_env \<Rightarrow> pubkey \<Rightarrow> slot \<Rightarrow> u64" where
  "stake_update env pubkey s =
     (case epoch_stakes env (get_epoch env s) of Some stakes \<Rightarrow> stakes pubkey | None \<Rightarrow> 0)"

definition entry_stake ::
  "update_operations \<Rightarrow> slot_hash_key \<times> update_label \<Rightarrow> (u64 \<Rightarrow> update_operation) \<Rightarrow> u64 \<Rightarrow>
   update_operations option" where
  "entry_stake ops key mk stake =
     (case RBT.lookup ops key of
        Some operation \<Rightarrow>
          do { operation \<leftarrow> update_stake operation stake; Some (RBT.insert key operation ops) }
      | None \<Rightarrow> Some (RBT.insert key (mk stake) ops))"

text \<open>Taking the stake of a validator off the fork of its previous vote.\<close>

definition subtract_old_vote ::
  "stake_env \<Rightarrow> fork_choice \<Rightarrow> update_operations \<Rightarrow> pubkey \<Rightarrow> slot_hash_key \<Rightarrow> slot_hash_key option \<Rightarrow>
   update_operations option" where
  "subtract_old_vote env self ops pubkey new_vote old_vote =
     (case old_vote of
        None \<Rightarrow> Some ops
      | Some old \<Rightarrow>
          if \<not> (if key_slot new_vote = key_slot old then key_hash new_vote < key_hash old
                else key_slot new_vote > key_slot old) then None
          else
            let stake = stake_update env pubkey (key_slot old) in
            if stake > 0
            then do {
              ops \<leftarrow> entry_stake ops (old, LSubtract) Subtract stake;
              insert_aggregate_operations self ops old
            }
            else Some ops)"

fun generate_loop ::
  "stake_env \<Rightarrow> (pubkey \<times> slot_hash_key) list \<Rightarrow> fork_choice \<Rightarrow> update_operations \<Rightarrow>
   (pubkey \<rightharpoonup> slot) \<Rightarrow> (fork_choice \<times> update_operations) option" where
  "generate_loop env [] self ops observed_pubkeys = Some (self, ops)"
| "generate_loop env ((pubkey, new_vote) # rest) self ops observed_pubkeys =
     (if key_slot new_vote < key_slot (tree_root self)
      then generate_loop env rest self ops observed_pubkeys
      else if observed_pubkeys pubkey \<noteq> None then None
      else
        let observed_pubkeys = observed_pubkeys(pubkey \<mapsto> key_slot new_vote);
            pubkey_latest_vote = latest_votes self pubkey
        in
        if (case pubkey_latest_vote of
              Some latest \<Rightarrow>
                key_slot new_vote < key_slot latest \<or>
                (key_slot new_vote = key_slot latest \<and> key_hash new_vote \<ge> key_hash latest)
            | None \<Rightarrow> False)
        then generate_loop env rest self ops observed_pubkeys
        else
          let self = self\<lparr>latest_votes := (latest_votes self)(pubkey \<mapsto> new_vote)\<rparr> in
          do {
            ops \<leftarrow> subtract_old_vote env self ops pubkey new_vote pubkey_latest_vote;
            ops \<leftarrow> entry_stake ops (new_vote, LAdd) Add (stake_update env pubkey (key_slot new_vote));
            ops \<leftarrow> insert_aggregate_operations self ops new_vote;
            generate_loop env rest self ops observed_pubkeys
          })"

definition generate_update_operations ::
  "stake_env \<Rightarrow> fork_choice \<Rightarrow> (pubkey \<times> slot_hash_key) list \<Rightarrow> (fork_choice \<times> update_operations) option" where
  "generate_update_operations env self pubkey_votes =
     generate_loop env pubkey_votes self RBT.empty Map.empty"

definition add_votes ::
  "stake_env \<Rightarrow> fork_choice \<Rightarrow> (pubkey \<times> slot_hash_key) list \<Rightarrow> (fork_choice \<times> slot_hash_key) option" where
  "add_votes env self pubkey_votes =
     do {
       (self, update_operations_batch) \<leftarrow> generate_update_operations env self pubkey_votes;
       self \<leftarrow> process_update_operations self update_operations_batch;
       best \<leftarrow> best_overall_slot self;
       Some (self, best)
     }"

section \<open>Subtrees\<close>

text \<open>
  \<open>TreeDiff::subtree_diff\<close>.  The stack is a list with its top first; the hash set of what was
  reached is a list without repetitions.
\<close>

partial_function (option) subtree_diff_loop ::
  "fork_choice \<Rightarrow> slot_hash_key \<Rightarrow> slot_hash_key list \<times> slot_hash_key list \<Rightarrow> slot_hash_key list option" where
  "subtree_diff_loop self root2 st =
     (case st of (pending_keys, reachable_set) \<Rightarrow>
        (case pending_keys of
           [] \<Rightarrow> Some reachable_set
         | current_key # rest \<Rightarrow>
             if current_key = root2 then subtree_diff_loop self root2 (rest, reachable_set)
             else
               (case fc_children self current_key of
                  None \<Rightarrow> None
                | Some cs \<Rightarrow>
                    subtree_diff_loop self root2 (rev cs @ rest, List.insert current_key reachable_set))))"

definition subtree_diff :: "fork_choice \<Rightarrow> slot_hash_key \<Rightarrow> slot_hash_key \<Rightarrow> slot_hash_key list option" where
  "subtree_diff self root1 root2 =
     (if fork_infos self root1 = None then Some []
      else subtree_diff_loop self root2 ([root1], []))"

fun remove_nodes :: "fork_choice \<Rightarrow> slot_hash_key list \<Rightarrow> fork_choice option" where
  "remove_nodes self [] = Some self"
| "remove_nodes self (node_key # rest) =
     (if fork_infos self node_key = None then None
      else remove_nodes (self\<lparr>fork_infos := (fork_infos self)(node_key := None)\<rparr>) rest)"

definition set_tree_root :: "fork_choice \<Rightarrow> slot_hash_key \<Rightarrow> fork_choice option" where
  "set_tree_root self new_root =
     do {
       remove_set \<leftarrow> subtree_diff self (tree_root self) new_root;
       self \<leftarrow> remove_nodes self remove_set;
       i \<leftarrow> fork_infos self new_root;
       Some ((put_info self new_root (i\<lparr>fi_parent := None\<rparr>))\<lparr>tree_root := new_root\<rparr>)
     }"

text \<open>The loop of \<open>split_off\<close> that moves a subtree into a map of its own.\<close>

partial_function (option) split_loop ::
  "fork_choice \<times> slot_hash_key list \<times> fork_infos_map \<Rightarrow> (fork_choice \<times> fork_infos_map) option" where
  "split_loop st =
     (case st of (self, to_visit, split_infos) \<Rightarrow>
        (case to_visit of
           [] \<Rightarrow> Some (self, split_infos)
         | current_node # rest \<Rightarrow>
             (case fork_infos self current_node of
                None \<Rightarrow> None
              | Some i \<Rightarrow>
                  split_loop
                    (self\<lparr>fork_infos := (fork_infos self)(current_node := None)\<rparr>,
                     rev (fi_children i) @ rest, split_infos(current_node \<mapsto> i)))))"

definition retain_votes :: "(pubkey \<rightharpoonup> slot_hash_key) \<Rightarrow> fork_infos_map \<Rightarrow> (pubkey \<rightharpoonup> slot_hash_key)" where
  "retain_votes votes infos pubkey =
     (case votes pubkey of
        Some node \<Rightarrow> if infos node \<noteq> None then Some node else None
      | None \<Rightarrow> None)"

definition split_off :: "fork_choice \<Rightarrow> slot_hash_key \<Rightarrow> (fork_choice \<times> fork_choice) option" where
  "split_off self slot_hash_key =
     (if tree_root self = slot_hash_key then None
      else do {
        split_tree_root \<leftarrow> fork_infos self slot_hash_key;
        parent \<leftarrow> fi_parent split_tree_root;
        update_operations \<leftarrow> insert_aggregate_operations self RBT.empty slot_hash_key;
        i \<leftarrow> fork_infos self parent;
        if slot_hash_key \<notin> set (fi_children i) then None
        else do {
          self \<leftarrow> process_update_operations
            (put_info self parent (i\<lparr>fi_children := remove1 slot_hash_key (fi_children i)\<rparr>))
            update_operations;
          (self, split_tree_fork_infos) \<leftarrow> split_loop (self, [slot_hash_key], Map.empty);
          i \<leftarrow> fork_infos self parent;
          let self = put_info self parent (i\<lparr>fi_children := remove1 slot_hash_key (fi_children i)\<rparr>);
              split_tree_fork_infos =
                split_tree_fork_infos(slot_hash_key \<mapsto> split_tree_root\<lparr>fi_parent := None\<rparr>);
              split_tree_latest_votes = retain_votes (latest_votes self) split_tree_fork_infos;
              self = self\<lparr>latest_votes := retain_votes (latest_votes self) (fork_infos self)\<rparr>
          in Some (self,
               \<lparr>fork_infos = split_tree_fork_infos, latest_votes = split_tree_latest_votes,
                tree_root = slot_hash_key\<rparr>)
        }
      })"

text \<open>The traversal of \<open>purge_prune\<close>, with its local variables.\<close>

record purge_state =
  pp_self :: fork_choice
  pp_to_visit :: "slot_hash_key list"
  pp_purged_slots :: "slot_hash_key list"
  pp_pruned_subtrees :: "fork_choice list"
  pp_tree_root :: "slot_hash_key option"

partial_function (option) purge_loop :: "slot_hash_key \<Rightarrow> purge_state \<Rightarrow> purge_state option" where
  "purge_loop new_root st =
     (case pp_to_visit st of
        [] \<Rightarrow> Some st
      | cur_slot # rest \<Rightarrow>
          if cur_slot = new_root
          then purge_loop new_root (st\<lparr>pp_to_visit := rest, pp_tree_root := Some new_root\<rparr>)
          else if cur_slot < new_root
          then
            (case fc_children (pp_self st) cur_slot of
               None \<Rightarrow> None
             | Some cs \<Rightarrow>
                 purge_loop new_root (st\<lparr>pp_to_visit := rev cs @ rest,
                   pp_purged_slots := pp_purged_slots st @ [cur_slot]\<rparr>))
          else
            (case split_off (pp_self st) cur_slot of
               None \<Rightarrow> None
             | Some (self, pruned) \<Rightarrow>
                 purge_loop new_root (st\<lparr>pp_self := self, pp_to_visit := rest,
                   pp_pruned_subtrees := pp_pruned_subtrees st @ [pruned]\<rparr>)))"

definition purge_prune ::
  "fork_choice \<Rightarrow> slot_hash_key \<Rightarrow> (fork_choice \<times> slot_hash_key list \<times> fork_choice list) option" where
  "purge_prune self new_root =
     do {
       st \<leftarrow> purge_loop new_root
         \<lparr>pp_self = self, pp_to_visit = [tree_root self], pp_purged_slots = [],
          pp_pruned_subtrees = [], pp_tree_root = None\<rparr>;
       self \<leftarrow> remove_nodes (pp_self st) (pp_purged_slots st);
       self \<leftarrow> (case pp_tree_root st of
                  None \<Rightarrow> Some self
                | Some root \<Rightarrow>
                    do {
                      i \<leftarrow> fork_infos self root;
                      Some ((put_info self root (i\<lparr>fi_parent := None\<rparr>))\<lparr>tree_root := root\<rparr>)
                    });
       Some (self, pp_purged_slots st, pp_pruned_subtrees st)
     }"

text \<open>
  \<open>merge\<close> iterates over the votes of the other tree in the order of its hash map, which is given
  as the list \<open>other_votes\<close>.
\<close>

fun merge_nodes ::
  "fork_choice \<Rightarrow> (slot_hash_key \<times> slot_hash_key) list \<Rightarrow> fork_choice option" where
  "merge_nodes self [] = Some self"
| "merge_nodes self ((slot_hash_key, parent) # rest) =
     do {
       self \<leftarrow> add_new_leaf_slot self slot_hash_key (Some parent);
       merge_nodes self rest
     }"

definition other_slots_nodes ::
  "fork_infos_map \<Rightarrow> slot_hash_key \<Rightarrow> (slot_hash_key \<times> slot_hash_key) list" where
  "other_slots_nodes infos merge_leaf =
     map (\<lambda>k. (k, case Option.bind (infos k) fi_parent of Some p \<Rightarrow> p | None \<Rightarrow> merge_leaf))
       (sorted_list_of_set (dom infos))"

definition merge_tree ::
  "stake_env \<Rightarrow> fork_choice \<Rightarrow> fork_choice \<Rightarrow> (pubkey \<times> slot_hash_key) list \<Rightarrow> slot_hash_key \<Rightarrow>
   fork_choice option" where
  "merge_tree env self other other_votes merge_leaf =
     (if fork_infos self merge_leaf = None then None
      else do {
        self \<leftarrow> merge_nodes self (other_slots_nodes (fork_infos other) merge_leaf);
        (self, _) \<leftarrow> add_votes env self other_votes;
        Some self
      })"

section \<open>Duplicate blocks\<close>

text \<open>\<open>SlotHashKey::default()\<close>.\<close>

definition default_key :: slot_hash_key where
  "default_key = Key 0 0"

fun mark_subtree_loop ::
  "update_operation \<Rightarrow> update_operations \<Rightarrow> slot_hash_key list \<Rightarrow> update_operations" where
  "mark_subtree_loop validity ops [] = ops"
| "mark_subtree_loop validity ops (child # rest) =
     mark_subtree_loop validity (fst (do_insert_aggregate_operation ops (Some validity) child)) rest"

definition mark_fork_invalid_candidate :: "fork_choice \<Rightarrow> slot_hash_key \<Rightarrow> fork_choice option" where
  "mark_fork_invalid_candidate self invalid_slot_hash_key =
     (case fork_infos self invalid_slot_hash_key of
        None \<Rightarrow> Some self
      | Some fork_info \<Rightarrow>
          if fi_is_duplicate_confirmed fork_info then None
          else do {
            subtree \<leftarrow> subtree_diff self invalid_slot_hash_key default_key;
            let ops = mark_subtree_loop (MarkInvalid (key_slot invalid_slot_hash_key)) RBT.empty subtree;
            ops \<leftarrow> insert_aggregate_operations self ops invalid_slot_hash_key;
            process_update_operations self ops
          })"

fun newly_confirmed_loop ::
  "fork_choice \<Rightarrow> slot_hash_key list \<Rightarrow> slot_hash_key list option" where
  "newly_confirmed_loop self [] = Some []"
| "newly_confirmed_loop self (ancestor_key # rest) =
     do {
       confirmed \<leftarrow> is_duplicate_confirmed self ancestor_key;
       found \<leftarrow> newly_confirmed_loop self rest;
       Some (if confirmed then found else ancestor_key # found)
     }"

definition mark_fork_valid_candidate ::
  "fork_choice \<Rightarrow> slot_hash_key \<Rightarrow> (fork_choice \<times> slot_hash_key list) option" where
  "mark_fork_valid_candidate self valid_slot_hash_key =
     do {
       ancs \<leftarrow> ancestor_iterator (fork_infos self) valid_slot_hash_key;
       newly_duplicate_confirmed_ancestors \<leftarrow> newly_confirmed_loop self (valid_slot_hash_key # ancs);
       subtree \<leftarrow> subtree_diff self valid_slot_hash_key default_key;
       let ops = mark_subtree_loop (MarkValid (key_slot valid_slot_hash_key)) RBT.empty subtree;
       ops \<leftarrow> insert_aggregate_operations self ops valid_slot_hash_key;
       self \<leftarrow> process_update_operations self ops;
       Some (self, newly_duplicate_confirmed_ancestors)
     }"

section \<open>The choice of forks\<close>

text \<open>
  The last vote of the tower and whether it is a stray are given; so are the banks of
  \<open>BankForks\<close>, by slot and by slot and hash.
\<close>

definition heaviest_slot_on_same_voted_fork ::
  "fork_choice \<Rightarrow> slot_hash_key option \<Rightarrow> bool \<Rightarrow> slot_hash_key option option" where
  "heaviest_slot_on_same_voted_fork self last_voted_slot_hash is_stray_last_vote =
     (case last_voted_slot_hash of
        None \<Rightarrow> Some None
      | Some voted \<Rightarrow>
          (case is_candidate self voted of
             Some True \<Rightarrow> Some (best_slot self voted)
           | Some False \<Rightarrow> Some (deepest_slot self voted)
           | None \<Rightarrow> if \<not> is_stray_last_vote then None else Some None))"

record 'b bank_forks =
  get_with_checked_hash :: "slot_hash_key \<Rightarrow> 'b option"
  bank_forks_get :: "slot \<Rightarrow> 'b option"
  hash_of_bank :: "'b \<Rightarrow> hash"

definition select_forks ::
  "'b bank_forks \<Rightarrow> fork_choice \<Rightarrow> slot_hash_key option \<Rightarrow> bool \<Rightarrow> ('b \<times> 'b option) option" where
  "select_forks bank_forks self last_voted_slot_hash is_stray_last_vote =
     do {
       best \<leftarrow> best_overall_slot self;
       heaviest \<leftarrow> get_with_checked_hash bank_forks best;
       on_voted_fork \<leftarrow> heaviest_slot_on_same_voted_fork self last_voted_slot_hash is_stray_last_vote;
       Some (heaviest,
         (case on_voted_fork of
            None \<Rightarrow> None
          | Some slot_hash \<Rightarrow>
              (case bank_forks_get bank_forks (key_slot slot_hash) of
                 Some bank \<Rightarrow> if hash_of_bank bank_forks bank \<noteq> key_hash slot_hash then None else Some bank
               | None \<Rightarrow> None)))
     }"

declare ancestor_iterator.simps [code] propagate_best.simps [code] propagate_deepest.simps [code]
  subtree_diff_loop.simps [code] split_loop.simps [code] purge_loop.simps [code]

end
