(* ===== verification/Fork_Tree.thy ===== *)
theory Fork_Tree
  imports Fork_Choice
begin

text \<open>
  The tree of forks: when the parent and child links form a tree, the subtree of a node, what it
  means that a node agrees with its children, and that the traversals of the fork choice end and
  visit exactly a subtree.
\<close>

section \<open>Trees\<close>

text \<open>A child has a larger slot than its parent, and its parent link leads back.\<close>

definition links_ok :: "fork_infos_map \<Rightarrow> bool" where
  "links_ok infos \<longleftrightarrow> finite (dom infos) \<and>
     (\<forall>k i. infos k = Some i \<longrightarrow> sorted (fi_children i) \<and> distinct (fi_children i) \<and>
        (\<forall>c \<in> set (fi_children i).
           key_slot k < key_slot c \<and> (\<exists>ci. infos c = Some ci \<and> fi_parent ci = Some k)))"

definition tree_ok :: "fork_infos_map \<Rightarrow> slot_hash_key \<Rightarrow> bool" where
  "tree_ok infos root \<longleftrightarrow> links_ok infos \<and>
     (\<exists>i. infos root = Some i \<and> fi_parent i = None) \<and>
     (\<forall>k i. infos k = Some i \<and> k \<noteq> root \<longrightarrow>
        (\<exists>p pi. fi_parent i = Some p \<and> infos p = Some pi \<and> k \<in> set (fi_children pi)))"

inductive_set subtree :: "fork_infos_map \<Rightarrow> slot_hash_key \<Rightarrow> slot_hash_key set" for infos k where
  subtree_self: "k \<in> subtree infos k"
| subtree_child: "n \<in> subtree infos k \<Longrightarrow> infos n = Some i \<Longrightarrow> c \<in> set (fi_children i) \<Longrightarrow> c \<in> subtree infos k"

declare subtree_self [simp, intro]

lemma links_okD:
  assumes "links_ok infos" "infos k = Some i"
  shows "sorted (fi_children i)" "distinct (fi_children i)"
    "c \<in> set (fi_children i) \<Longrightarrow> key_slot k < key_slot c"
    "c \<in> set (fi_children i) \<Longrightarrow> \<exists>ci. infos c = Some ci \<and> fi_parent ci = Some k"
  using assms unfolding links_ok_def by blast+

lemma tree_okD:
  assumes "tree_ok infos root"
  shows "links_ok infos" "\<exists>i. infos root = Some i \<and> fi_parent i = None"
    "infos k = Some i \<Longrightarrow> k \<noteq> root \<Longrightarrow>
      \<exists>p pi. fi_parent i = Some p \<and> infos p = Some pi \<and> k \<in> set (fi_children pi)"
  using assms unfolding tree_ok_def by blast+

lemma parent_unique:
  assumes "links_ok infos" "infos p = Some pi" "infos q = Some qi"
    "c \<in> set (fi_children pi)" "c \<in> set (fi_children qi)"
  shows "p = q"
  using links_okD(4) [OF assms(1,2,4)] links_okD(4) [OF assms(1,3,5)] by auto

lemma no_self_child: "links_ok infos \<Longrightarrow> infos k = Some i \<Longrightarrow> k \<notin> set (fi_children i)"
  using links_okD(3) by (metis less_irrefl)

lemma tree_down_induct [consumes 2, case_names node]:
  assumes l: "links_ok infos" and k: "infos k = Some i"
    and step: "\<And>k i. infos k = Some i \<Longrightarrow> (\<And>c. c \<in> set (fi_children i) \<Longrightarrow> P c) \<Longrightarrow> P k"
  shows "P k"
  using k
proof (induction "card {n \<in> dom infos. key_slot k < key_slot n}" arbitrary: k i rule: less_induct)
  case less
  show ?case
  proof (rule step [OF less.prems])
    fix c assume c: "c \<in> set (fi_children i)"
    obtain ci where ci: "infos c = Some ci" using links_okD(4) [OF l less.prems c] by blast
    have lt: "key_slot k < key_slot c" by (rule links_okD(3) [OF l less.prems c])
    have "{n \<in> dom infos. key_slot c < key_slot n} \<subset> {n \<in> dom infos. key_slot k < key_slot n}"
      using lt ci by auto
    moreover have "finite {n \<in> dom infos. key_slot k < key_slot n}" using l by (simp add: links_ok_def)
    ultimately show "P c" using less.hyps [OF _ ci] psubset_card_mono by blast
  qed
qed

lemma tree_up_induct [consumes 2, case_names node]:
  assumes t: "tree_ok infos root" and k: "infos k = Some i"
    and step: "\<And>k i. infos k = Some i \<Longrightarrow>
      (\<And>p. fi_parent i = Some p \<Longrightarrow> P p) \<Longrightarrow> P k"
  shows "P k"
  using k
proof (induction "unat (key_slot k)" arbitrary: k i rule: less_induct)
  case less
  show ?case
  proof (rule step [OF less.prems])
    fix p assume p: "fi_parent i = Some p"
    then have "k \<noteq> root" using tree_okD(2) [OF t] less.prems by auto
    then obtain pi where pi: "infos p = Some pi" "k \<in> set (fi_children pi)"
      using tree_okD(3) [OF t less.prems] p by auto
    then have "key_slot p < key_slot k" using links_okD(3) [OF tree_okD(1) [OF t]] by blast
    then show "P p" using less.hyps [OF _ pi(1)] by (simp add: word_less_nat_alt)
  qed
qed

section \<open>Subtrees\<close>

lemma subtree_trans: "m \<in> subtree infos n \<Longrightarrow> n \<in> subtree infos k \<Longrightarrow> m \<in> subtree infos k"
  by (induction rule: subtree.induct) (auto intro: subtree_child)

lemma subtree_of_child: "infos k = Some i \<Longrightarrow> c \<in> set (fi_children i) \<Longrightarrow> c \<in> subtree infos k"
  by (rule subtree_child [OF subtree_self])

lemma subtree_cases_child:
  assumes "n \<in> subtree infos k"
  shows "n = k \<or> (\<exists>i. infos k = Some i \<and> (\<exists>c \<in> set (fi_children i). n \<in> subtree infos c))"
  using assms
proof induction
  case (subtree_child n i c)
  then show ?case
    by (metis Fork_Tree.subtree_child subtree_self)
qed simp

lemma subtree_unfold:
  assumes "infos k = Some i"
  shows "subtree infos k = insert k (\<Union>c \<in> set (fi_children i). subtree infos c)"
proof (intro equalityI subsetI)
  fix n assume "n \<in> subtree infos k"
  then show "n \<in> insert k (\<Union>c \<in> set (fi_children i). subtree infos c)"
    using subtree_cases_child assms by fastforce
next
  fix n assume "n \<in> insert k (\<Union>c \<in> set (fi_children i). subtree infos c)"
  then show "n \<in> subtree infos k"
    using assms by (auto intro: subtree_trans subtree_of_child)
qed

lemma subtree_dom:
  assumes "links_ok infos" "infos k \<noteq> None" "n \<in> subtree infos k"
  shows "infos n \<noteq> None"
  using assms(3,1,2) by induction (auto dest: links_okD(4))

lemma subtree_slot:
  assumes "links_ok infos" "n \<in> subtree infos k"
  shows "n = k \<or> key_slot k < key_slot n"
  using assms(2,1) by induction (auto dest: links_okD(3) order.strict_trans)

lemma subtree_parent:
  assumes "n \<in> subtree infos k" "n \<noteq> k"
  obtains p pi where "p \<in> subtree infos k" "infos p = Some pi" "n \<in> set (fi_children pi)"
  using assms by (cases rule: subtree.cases) auto

lemma subtree_chain:
  assumes l: "links_ok infos" and n: "n \<in> subtree infos c" "n \<in> subtree infos d"
  shows "c \<in> subtree infos d \<or> d \<in> subtree infos c"
  using n
proof (induction arbitrary: d)
  case (subtree_child n i m)
  show ?case
  proof (cases "m = d")
    case True
    then show ?thesis using subtree_child.hyps Fork_Tree.subtree_child by metis
  next
    case False
    then obtain p pi where p: "p \<in> subtree infos d" "infos p = Some pi" "m \<in> set (fi_children pi)"
      using subtree_child.prems by (auto elim: subtree_parent)
    then have "p = n" using parent_unique [OF l p(2) subtree_child.hyps(2) p(3) subtree_child.hyps(3)] by simp
    then show ?thesis using subtree_child.IH p(1) by simp
  qed
qed auto

lemma siblings_disjoint:
  assumes l: "links_ok infos" and k: "infos k = Some i" and cd: "c \<in> set (fi_children i)" "d \<in> set (fi_children i)" "c \<noteq> d"
  shows "subtree infos c \<inter> subtree infos d = {}"
proof (rule ccontr)
  have *: False if h: "c \<in> subtree infos d" "c \<in> set (fi_children i)" "d \<in> set (fi_children i)" "c \<noteq> d" for c d
  proof -
    obtain p pi where p: "p \<in> subtree infos d" "infos p = Some pi" "c \<in> set (fi_children pi)"
      using h(1,4) by (auto elim: subtree_parent)
    then have "p = k" using parent_unique [OF l p(2) k p(3) h(2)] by simp
    then show False using subtree_slot [OF l p(1)] links_okD(3) [OF l k h(3)] by auto
  qed
  assume "subtree infos c \<inter> subtree infos d \<noteq> {}"
  then obtain n where "n \<in> subtree infos c" "n \<in> subtree infos d" by blast
  then show False using subtree_chain [OF l] * cd by metis
qed

lemma parent_not_in_subtree:
  assumes "links_ok infos" "infos k = Some i" "c \<in> set (fi_children i)"
  shows "k \<notin> subtree infos c"
  using subtree_slot [OF assms(1)] links_okD(3) [OF assms] by (metis less_asym less_irrefl)

lemma finite_subtree: "links_ok infos \<Longrightarrow> infos k \<noteq> None \<Longrightarrow> finite (subtree infos k)"
  using subtree_dom [of infos k] finite_subset [of "subtree infos k" "dom infos"]
  by (auto simp: links_ok_def [of infos])

lemma subtree_root:
  assumes t: "tree_ok infos root"
  shows "subtree infos root = dom infos"
proof (intro equalityI subsetI)
  fix n assume "n \<in> dom infos"
  then obtain i where "infos n = Some i" by blast
  with t show "n \<in> subtree infos root"
  proof (induction rule: tree_up_induct)
    case (node k i)
    show ?case
    proof (cases "k = root")
      case False
      then obtain p pi where "fi_parent i = Some p" "infos p = Some pi" "k \<in> set (fi_children pi)"
        using tree_okD(3) [OF t node(1)] by blast
      then show ?thesis using node(2) subtree_child by metis
    qed simp
  qed
qed (use subtree_dom [OF tree_okD(1) [OF t]] tree_okD(2) [OF t] in blast)

text \<open>The shape of a tree: its links without the rest of the nodes.\<close>

definition tree_shape :: "fork_infos_map \<Rightarrow> slot_hash_key \<Rightarrow> (slot_hash_key option \<times> slot_hash_key list) option" where
  "tree_shape infos k = map_option (\<lambda>i. (fi_parent i, fi_children i)) (infos k)"

lemma tree_shape_Some:
  assumes "tree_shape infos = tree_shape infos'" "infos k = Some i"
  shows "\<exists>i'. infos' k = Some i' \<and> fi_parent i' = fi_parent i \<and> fi_children i' = fi_children i"
  using fun_cong [OF assms(1), of k] assms(2) by (cases "infos' k") (auto simp: tree_shape_def)

lemma tree_shape_dom: "tree_shape infos = tree_shape infos' \<Longrightarrow> dom infos = dom infos'"
  by (auto dest: tree_shape_Some tree_shape_Some [OF sym])

lemma tree_shape_put:
  assumes "infos k = Some i" "fi_parent i' = fi_parent i" "fi_children i' = fi_children i"
  shows "tree_shape (infos(k \<mapsto> i')) = tree_shape infos"
  using assms by (auto simp: tree_shape_def fun_eq_iff)

lemma links_ok_shape:
  assumes "tree_shape infos = tree_shape infos'" "links_ok infos"
  shows "links_ok infos'"
  unfolding links_ok_def
proof (intro conjI allI impI ballI)
  show "finite (dom infos')" using tree_shape_dom [OF assms(1)] assms(2) by (simp add: links_ok_def)
  fix k i' assume "infos' k = Some i'"
  from tree_shape_Some [OF assms(1) [symmetric] this]
  obtain i where i: "infos k = Some i" "fi_children i' = fi_children i" by auto
  show "sorted (fi_children i')" "distinct (fi_children i')"
    using links_okD(1,2) [OF assms(2) i(1)] i(2) by simp_all
  fix c assume c: "c \<in> set (fi_children i')"
  then show "key_slot k < key_slot c" using links_okD(3) [OF assms(2) i(1)] i(2) by simp
  obtain ci where "infos c = Some ci" "fi_parent ci = Some k"
    using links_okD(4) [OF assms(2) i(1)] c i(2) by auto
  then show "\<exists>ci. infos' c = Some ci \<and> fi_parent ci = Some k"
    using tree_shape_Some [OF assms(1), of c ci] by auto
qed

lemma tree_ok_shape:
  assumes s: "tree_shape infos = tree_shape infos'" and t: "tree_ok infos root"
  shows "tree_ok infos' root"
  unfolding tree_ok_def
proof (intro conjI allI impI)
  show "links_ok infos'" by (rule links_ok_shape [OF s tree_okD(1) [OF t]])
  obtain i where "infos root = Some i" "fi_parent i = None" using tree_okD(2) [OF t] by blast
  then show "\<exists>i. infos' root = Some i \<and> fi_parent i = None"
    using tree_shape_Some [OF s, of root i] by auto
  fix k i' assume k: "infos' k = Some i' \<and> k \<noteq> root"
  then obtain i where i: "infos k = Some i" "fi_parent i = fi_parent i'"
    using tree_shape_Some [OF s [symmetric], of k i'] by auto
  then obtain p pi where "fi_parent i = Some p" "infos p = Some pi" "k \<in> set (fi_children pi)"
    using tree_okD(3) [OF t i(1)] k by blast
  then show "\<exists>p pi. fi_parent i' = Some p \<and> infos' p = Some pi \<and> k \<in> set (fi_children pi)"
    using tree_shape_Some [OF s, of p pi] i(2) by auto
qed

lemma subtree_shape:
  assumes s: "tree_shape infos = tree_shape infos'"
  shows "subtree infos k = subtree infos' k"
proof -
  have "n \<in> subtree b k" if "tree_shape a = tree_shape b" "n \<in> subtree a k" for a b n
    using that(2)
  proof induction
    case (subtree_child n i c)
    then show ?case using tree_shape_Some [OF that(1), of n i] by (auto intro: Fork_Tree.subtree_child)
  qed simp
  from this [OF s] this [OF s [symmetric]] show ?thesis by blast
qed

end
