(* ===== verification/Fork_Aggregate.thy ===== *)
theory Fork_Aggregate
  imports Fork_Tree
begin

text \<open>
  What the fork choice keeps at every node: the stake of its subtree, its best and its deepest
  slot as functions of its children.  Aggregating a node establishes this, and processing a batch
  of update operations establishes it everywhere.
\<close>

section \<open>A node and its children\<close>

abbreviation node_weight :: "fork_infos_map \<Rightarrow> slot_hash_key \<Rightarrow> u64" where
  "node_weight infos c \<equiv> fi_stake_voted_subtree (the (infos c))"

abbreviation node_candidate :: "fork_infos_map \<Rightarrow> slot_hash_key \<Rightarrow> bool" where
  "node_candidate infos c \<equiv> fi_is_candidate (the (infos c))"

abbreviation node_confirmed :: "fork_infos_map \<Rightarrow> slot_hash_key \<Rightarrow> bool" where
  "node_confirmed infos c \<equiv> fi_is_duplicate_confirmed (the (infos c))"

text \<open>The heavier fork, and among forks of the same weight the one with the smaller key.\<close>

definition heavier :: "fork_infos_map \<Rightarrow> slot_hash_key \<Rightarrow> slot_hash_key \<Rightarrow> bool" where
  "heavier infos c d \<longleftrightarrow> node_weight infos d < node_weight infos c \<or>
     (node_weight infos d = node_weight infos c \<and> c \<le> d)"

definition deeper :: "fork_infos_map \<Rightarrow> slot_hash_key \<Rightarrow> slot_hash_key \<Rightarrow> bool" where
  "deeper infos c d \<longleftrightarrow> fi_height (the (infos d)) < fi_height (the (infos c)) \<or>
     (fi_height (the (infos d)) = fi_height (the (infos c)) \<and> heavier infos c d)"

definition is_best :: "fork_infos_map \<Rightarrow> slot_hash_key set \<Rightarrow> slot_hash_key \<Rightarrow> bool" where
  "is_best infos C c \<longleftrightarrow> c \<in> C \<and> node_candidate infos c \<and> (\<forall>d \<in> C. node_candidate infos d \<longrightarrow> heavier infos c d)"

definition is_deepest :: "fork_infos_map \<Rightarrow> slot_hash_key set \<Rightarrow> slot_hash_key \<Rightarrow> bool" where
  "is_deepest infos C c \<longleftrightarrow> c \<in> C \<and> (\<forall>d \<in> C. deeper infos c d)"

lemma heavier_refl [simp]: "heavier infos c c" by (simp add: heavier_def)

lemma heavier_trans: "heavier infos a b \<Longrightarrow> heavier infos b c \<Longrightarrow> heavier infos a c"
  by (auto simp: heavier_def)

lemma heavier_total: "heavier infos a b \<or> heavier infos b a"
  by (auto simp: heavier_def)

lemma heavier_antisym: "heavier infos a b \<Longrightarrow> heavier infos b a \<Longrightarrow> a = b"
  by (auto simp: heavier_def)

lemma deeper_refl [simp]: "deeper infos c c" by (simp add: deeper_def)

lemma deeper_trans: "deeper infos a b \<Longrightarrow> deeper infos b c \<Longrightarrow> deeper infos a c"
  by (auto simp: deeper_def intro: heavier_trans)

lemma deeper_total: "deeper infos a b \<or> deeper infos b a"
  using heavier_total [of infos a b] by (auto simp: deeper_def)

lemma is_best_insert:
  assumes "is_best infos C b"
  shows "is_best infos (insert c C) (if node_candidate infos c \<and> heavier infos c b then c else b)"
  using assms heavier_trans [of infos c b] heavier_total [of infos c b] unfolding is_best_def by auto

lemma is_best_first:
  assumes "\<forall>d \<in> C. \<not> node_candidate infos d" "node_candidate infos c"
  shows "is_best infos (insert c C) c"
  using assms by (auto simp: is_best_def)

lemma is_deepest_insert:
  assumes "is_deepest infos C b"
  shows "is_deepest infos (insert c C) (if deeper infos c b then c else b)"
  using assms deeper_trans [of infos c b] deeper_total [of infos c b] unfolding is_deepest_def by auto

definition stake_ok :: "fork_infos_map \<Rightarrow> fork_info \<Rightarrow> bool" where
  "stake_ok infos i \<longleftrightarrow>
     fi_stake_voted_subtree i = fi_stake_voted_at i + (\<Sum>c \<in> set (fi_children i). node_weight infos c)"

definition best_ok :: "fork_infos_map \<Rightarrow> slot_hash_key \<Rightarrow> fork_info \<Rightarrow> bool" where
  "best_ok infos k i \<longleftrightarrow>
     (if \<exists>c \<in> set (fi_children i). node_candidate infos c
      then \<exists>c. is_best infos (set (fi_children i)) c \<and> fi_best_slot i = fi_best_slot (the (infos c))
      else fi_best_slot i = k)"

definition deepest_ok :: "fork_infos_map \<Rightarrow> slot_hash_key \<Rightarrow> fork_info \<Rightarrow> bool" where
  "deepest_ok infos k i \<longleftrightarrow>
     (if fi_children i = [] then fi_height i = 1 \<and> fi_deepest_slot i = k
      else \<exists>c. is_deepest infos (set (fi_children i)) c \<and>
        fi_height i = fi_height (the (infos c)) + 1 \<and> fi_deepest_slot i = fi_deepest_slot (the (infos c)))"

definition confirmed_ok :: "fork_infos_map \<Rightarrow> fork_info \<Rightarrow> bool" where
  "confirmed_ok infos i \<longleftrightarrow> (\<forall>c \<in> set (fi_children i). node_confirmed infos c \<longrightarrow> fi_is_duplicate_confirmed i)"

text \<open>
  The best slot is only kept for candidates: a leaf that is added below an invalid block becomes the
  best slot of that block, although it is no candidate itself.
\<close>

definition node_ok :: "fork_infos_map \<Rightarrow> slot_hash_key \<Rightarrow> fork_info \<Rightarrow> bool" where
  "node_ok infos k i \<longleftrightarrow> stake_ok infos i \<and> (fi_is_candidate i \<longrightarrow> best_ok infos k i) \<and>
     deepest_ok infos k i \<and> confirmed_ok infos i"

lemma node_ok_cong:
  assumes "\<And>c. c \<in> set (fi_children i) \<Longrightarrow> infos' c = infos c"
  shows "node_ok infos' k i = node_ok infos k i"
proof -
  have s: "(\<Sum>c \<in> set (fi_children i). node_weight infos' c) = (\<Sum>c \<in> set (fi_children i). node_weight infos c)"
    using assms by (intro sum.cong) auto
  have "stake_ok infos' i = stake_ok infos i" unfolding stake_ok_def s ..
  moreover have "best_ok infos' k i = best_ok infos k i"
    using assms unfolding best_ok_def is_best_def heavier_def by (auto cong: conj_cong)
  moreover have "deepest_ok infos' k i = deepest_ok infos k i"
    using assms unfolding deepest_ok_def is_deepest_def deeper_def heavier_def by (auto cong: conj_cong)
  moreover have "confirmed_ok infos' i = confirmed_ok infos i"
    using assms unfolding confirmed_ok_def by auto
  ultimately show ?thesis by (simp add: node_ok_def)
qed

section \<open>Aggregation\<close>

definition best_vars_ok ::
  "fork_infos_map \<Rightarrow> slot_hash_key \<Rightarrow> slot_hash_key set \<Rightarrow> aggregate_vars \<Rightarrow> bool" where
  "best_vars_ok infos k C v \<longleftrightarrow>
     (if \<exists>c \<in> C. node_candidate infos c
      then is_best infos C (av_best_child v) \<and>
        av_best_child_stake v = node_weight infos (av_best_child v) \<and>
        av_best_slot v = fi_best_slot (the (infos (av_best_child v)))
      else av_best_child v = k \<and> av_best_slot v = k)"

definition deepest_vars_ok ::
  "fork_infos_map \<Rightarrow> slot_hash_key \<Rightarrow> slot_hash_key set \<Rightarrow> aggregate_vars \<Rightarrow> bool" where
  "deepest_vars_ok infos k C v \<longleftrightarrow>
     (if C = {} then av_deepest_child v = k \<and> av_deepest_slot v = k \<and> av_deepest_child_height v = 0
      else is_deepest infos C (av_deepest_child v) \<and>
        av_deepest_child_height v = fi_height (the (infos (av_deepest_child v))) \<and>
        av_deepest_child_stake v = node_weight infos (av_deepest_child v) \<and>
        av_deepest_slot v = fi_deepest_slot (the (infos (av_deepest_child v))))"

definition aggregate_spec ::
  "fork_infos_map \<Rightarrow> slot_hash_key \<Rightarrow> u64 \<Rightarrow> slot_hash_key set \<Rightarrow> aggregate_vars \<Rightarrow> bool" where
  "aggregate_spec infos k at C v \<longleftrightarrow>
     av_stake_voted_subtree v = at + (\<Sum>c \<in> C. node_weight infos c) \<and>
     (av_is_duplicate_confirmed v \<longleftrightarrow> (\<exists>c \<in> C. node_confirmed infos c)) \<and>
     best_vars_ok infos k C v \<and>
     deepest_vars_ok infos k C v"

lemma aggregate_best_spec:
  assumes c: "infos c = Some ci" "c \<noteq> k" "c \<notin> C" "k \<notin> C" and v: "best_vars_ok infos k C v"
  defines "v' \<equiv> aggregate_best k c ci v"
  shows "best_vars_ok infos k (insert c C) v'"
proof (cases "\<exists>c \<in> C. node_candidate infos c")
  case False
  then show ?thesis
    using v c(1) is_best_first [of C infos c] by (auto simp: v'_def aggregate_best_def best_vars_ok_def)
next
  case True
  then have b: "is_best infos C (av_best_child v)" "av_best_child_stake v = node_weight infos (av_best_child v)"
    using v by (auto simp: best_vars_ok_def)
  have "av_best_child v \<noteq> k" "av_best_child v \<noteq> c" using b(1) c(3,4) by (auto simp: is_best_def)
  then have "(fi_is_candidate ci \<and> (av_best_child v = k \<or> fi_stake_voted_subtree ci > av_best_child_stake v \<or>
      (fi_stake_voted_subtree ci = av_best_child_stake v \<and> c < av_best_child v))) \<longleftrightarrow>
      node_candidate infos c \<and> heavier infos c (av_best_child v)"
    using b(2) c(1) by (auto simp: heavier_def)
  then have "av_best_child v' = (if node_candidate infos c \<and> heavier infos c (av_best_child v) then c else av_best_child v)"
    "av_best_child_stake v' = node_weight infos (av_best_child v')"
    "av_best_slot v' = fi_best_slot (the (infos (av_best_child v')))"
    using v True c(1) by (auto simp: v'_def aggregate_best_def best_vars_ok_def)
  then show ?thesis using is_best_insert [OF b(1), of c] True by (simp add: best_vars_ok_def)
qed

lemma ord_cmp_eqs [simp]:
  "ord_cmp a b = Less \<longleftrightarrow> a < b" "ord_cmp a b = Equal \<longleftrightarrow> a = b" "ord_cmp a b = Greater \<longleftrightarrow> b < a"
  by (auto simp: ord_cmp_def)

lemma aggregate_deepest_if:
  "aggregate_deepest k c ci v =
    (if av_deepest_child v = k \<or> av_deepest_child_height v < fi_height ci \<or>
        (fi_height ci = av_deepest_child_height v \<and>
          (av_deepest_child_stake v < fi_stake_voted_subtree ci \<or>
           (fi_stake_voted_subtree ci = av_deepest_child_stake v \<and> c < av_deepest_child v)))
     then v\<lparr>av_deepest_child_height := fi_height ci, av_deepest_child_stake := fi_stake_voted_subtree ci,
            av_deepest_child := c, av_deepest_slot := fi_deepest_slot ci\<rparr>
     else v)"
  by (cases "av_deepest_child v = k"; cases "fi_height ci" "av_deepest_child_height v" rule: linorder_cases;
    cases "fi_stake_voted_subtree ci" "av_deepest_child_stake v" rule: linorder_cases;
    cases c "av_deepest_child v" rule: linorder_cases; auto simp: aggregate_deepest_def Let_def ord_cmp_def)

lemma aggregate_deepest_spec:
  assumes c: "infos c = Some ci" "c \<notin> C" "k \<notin> C" and v: "deepest_vars_ok infos k C v"
  defines "v' \<equiv> aggregate_deepest k c ci v"
  shows "deepest_vars_ok infos k (insert c C) v'"
proof (cases "C = {}")
  case True
  then show ?thesis using v c(1) by (simp add: v'_def aggregate_deepest_if is_deepest_def deepest_vars_ok_def)
next
  case False
  then have b: "is_deepest infos C (av_deepest_child v)" using v by (simp add: deepest_vars_ok_def)
  then have ne: "av_deepest_child v \<noteq> k" "av_deepest_child v \<noteq> c" using c(2,3) by (auto simp: is_deepest_def)
  have "deeper infos c (av_deepest_child v) \<longleftrightarrow> av_deepest_child_height v < fi_height ci \<or>
        (fi_height ci = av_deepest_child_height v \<and>
          (av_deepest_child_stake v < fi_stake_voted_subtree ci \<or>
           (fi_stake_voted_subtree ci = av_deepest_child_stake v \<and> c < av_deepest_child v)))"
    using v False c(1) ne(2) by (auto simp: deeper_def heavier_def deepest_vars_ok_def)
  then have "v' = (if deeper infos c (av_deepest_child v)
      then v\<lparr>av_deepest_child_height := fi_height ci, av_deepest_child_stake := fi_stake_voted_subtree ci,
            av_deepest_child := c, av_deepest_slot := fi_deepest_slot ci\<rparr> else v)"
    using ne(1) by (simp add: v'_def aggregate_deepest_if)
  then show ?thesis
    using is_deepest_insert [OF b, of c] v False c(1) by (cases "deeper infos c (av_deepest_child v)") (simp_all add: deepest_vars_ok_def)
qed

lemma aggregate_best_fields [simp]:
  "av_stake_voted_subtree (aggregate_best k c ci v) = av_stake_voted_subtree v"
  "av_is_duplicate_confirmed (aggregate_best k c ci v) = av_is_duplicate_confirmed v"
  "av_deepest_child (aggregate_best k c ci v) = av_deepest_child v"
  "av_deepest_slot (aggregate_best k c ci v) = av_deepest_slot v"
  "av_deepest_child_height (aggregate_best k c ci v) = av_deepest_child_height v"
  "av_deepest_child_stake (aggregate_best k c ci v) = av_deepest_child_stake v"
  by (simp_all add: aggregate_best_def)

lemma aggregate_deepest_fields [simp]:
  "av_stake_voted_subtree (aggregate_deepest k c ci v) = av_stake_voted_subtree v"
  "av_is_duplicate_confirmed (aggregate_deepest k c ci v) = av_is_duplicate_confirmed v"
  "av_best_child (aggregate_deepest k c ci v) = av_best_child v"
  "av_best_slot (aggregate_deepest k c ci v) = av_best_slot v"
  "av_best_child_stake (aggregate_deepest k c ci v) = av_best_child_stake v"
  by (simp_all add: aggregate_deepest_if)

lemma vars_ok_cong:
  "best_vars_ok infos k C (v\<lparr>av_is_duplicate_confirmed := a, av_stake_voted_subtree := w\<rparr>) = best_vars_ok infos k C v"
  "deepest_vars_ok infos k C (v\<lparr>av_is_duplicate_confirmed := a, av_stake_voted_subtree := w\<rparr>) = deepest_vars_ok infos k C v"
  "deepest_vars_ok infos k C (aggregate_best k c ci v) = deepest_vars_ok infos k C v"
  "best_vars_ok infos k C (aggregate_deepest k c ci v) = best_vars_ok infos k C v"
  by (simp_all add: best_vars_ok_def deepest_vars_ok_def)

lemma best_vars_okD:
  assumes "best_vars_ok infos k (set (fi_children i)) v" "fi_best_slot i = av_best_slot v"
  shows "best_ok infos k i"
  using assms by (cases "\<exists>c \<in> set (fi_children i). node_candidate infos c")
    (simp_all add: best_ok_def best_vars_ok_def, blast)

lemma deepest_vars_okD:
  assumes "deepest_vars_ok infos k (set (fi_children i)) v" "fi_deepest_slot i = av_deepest_slot v"
    "fi_height i = av_deepest_child_height v + 1"
  shows "deepest_ok infos k i"
  using assms by (cases "fi_children i = []") (simp_all add: deepest_ok_def deepest_vars_ok_def, blast)

lemma aggregate_child_spec:
  assumes v: "aggregate_spec infos k at C v" and c: "infos c = Some ci" "c \<noteq> k" "c \<notin> C" "k \<notin> C" "finite C"
  shows "aggregate_spec infos k at (insert c C) (aggregate_child k c ci v)"
proof -
  have "best_vars_ok infos k C v" "deepest_vars_ok infos k C v" using v by (simp_all add: aggregate_spec_def)
  then show ?thesis
    using v c
    by (auto simp: aggregate_spec_def aggregate_child_def vars_ok_cong ac_simps
      intro!: aggregate_best_spec aggregate_deepest_spec)
qed

lemma aggregate_loop_spec:
  assumes "aggregate_spec infos k at C v" "\<And>c. c \<in> set cs \<Longrightarrow> \<exists>ci. infos c = Some ci"
    "distinct cs" "set cs \<inter> C = {}" "k \<notin> set cs \<union> C" "finite C"
  shows "\<exists>v'. aggregate_loop infos k v cs = Some v' \<and> aggregate_spec infos k at (C \<union> set cs) v'"
  using assms
proof (induction cs arbitrary: C v)
  case (Cons c cs)
  obtain ci where ci: "infos c = Some ci" using Cons.prems(2) by auto
  have "aggregate_spec infos k at (insert c C) (aggregate_child k c ci v)"
    using Cons.prems ci by (intro aggregate_child_spec) auto
  from Cons.IH [OF this] Cons.prems obtain v' where
    "aggregate_loop infos k (aggregate_child k c ci v) cs = Some v'" "aggregate_spec infos k at (insert c C \<union> set cs) v'"
    by auto
  then show ?case using ci by auto
qed simp

text \<open>
  Aggregating a node of a well-linked map writes that node, keeps its links, and makes it agree
  with its children.
\<close>

lemma aggregate_slot_ok:
  assumes l: "links_ok (fork_infos self)" and k: "fork_infos self k = Some i"
  shows "\<exists>i'. aggregate_slot self k = Some (put_info self k i') \<and>
    fi_parent i' = fi_parent i \<and> fi_children i' = fi_children i \<and> fi_stake_voted_at i' = fi_stake_voted_at i \<and>
    stake_ok (fork_infos self) i' \<and> best_ok (fork_infos self) k i' \<and> deepest_ok (fork_infos self) k i' \<and>
    (if \<exists>c \<in> set (fi_children i). node_confirmed (fork_infos self) c
     then fi_is_duplicate_confirmed i' \<and> fi_latest_invalid_ancestor i' = None
     else fi_is_duplicate_confirmed i' = fi_is_duplicate_confirmed i \<and>
       fi_latest_invalid_ancestor i' = fi_latest_invalid_ancestor i)"
proof -
  let ?f = "fork_infos self"
  let ?v = "\<lparr>av_stake_voted_subtree = fi_stake_voted_at i, av_best_child_stake = 0, av_best_child = k,
    av_best_slot = k, av_deepest_child_height = 0, av_deepest_child_stake = 0, av_deepest_child = k,
    av_deepest_slot = k, av_is_duplicate_confirmed = False\<rparr>"
  have "aggregate_spec ?f k (fi_stake_voted_at i) {} ?v" by (simp add: aggregate_spec_def best_vars_ok_def deepest_vars_ok_def)
  moreover have "\<And>c. c \<in> set (fi_children i) \<Longrightarrow> \<exists>ci. ?f c = Some ci" using links_okD(4) [OF l k] by blast
  ultimately obtain v where v: "aggregate_loop ?f k ?v (fi_children i) = Some v"
    "aggregate_spec ?f k (fi_stake_voted_at i) (set (fi_children i)) v"
    using aggregate_loop_spec [of ?f k "fi_stake_voted_at i" "{}" ?v "fi_children i"] links_okD(2) [OF l k]
      no_self_child [OF l k] by auto
  let ?i = "(if av_is_duplicate_confirmed v then set_duplicate_confirmed i else i)
    \<lparr>fi_stake_voted_subtree := av_stake_voted_subtree v, fi_height := av_deepest_child_height v + 1,
     fi_best_slot := av_best_slot v, fi_deepest_slot := av_deepest_slot v\<rparr>"
  have sel: "fi_parent ?i = fi_parent i" "fi_children ?i = fi_children i" "fi_stake_voted_at ?i = fi_stake_voted_at i"
    "fi_stake_voted_subtree ?i = av_stake_voted_subtree v" "fi_height ?i = av_deepest_child_height v + 1"
    "fi_best_slot ?i = av_best_slot v" "fi_deepest_slot ?i = av_deepest_slot v"
    by (simp_all add: set_duplicate_confirmed_def)
  have "stake_ok ?f ?i" unfolding stake_ok_def sel using v(2) by (simp add: aggregate_spec_def)
  moreover have "best_ok ?f k ?i" by (rule best_vars_okD [of _ _ _ v], unfold sel) (use v(2) in \<open>simp_all add: aggregate_spec_def\<close>)
  moreover have "deepest_ok ?f k ?i" by (rule deepest_vars_okD [of _ _ _ v], unfold sel) (use v(2) in \<open>simp_all add: aggregate_spec_def\<close>)
  ultimately show ?thesis
    using v k sel
    by (intro exI [of _ ?i]) (simp add: aggregate_slot_def set_duplicate_confirmed_def aggregate_spec_def)
qed

section \<open>Batches of update operations\<close>

type_synonym update_batch = "((slot_hash_key \<times> update_label) \<times> update_operation) list"

fun op_label :: "update_operation \<Rightarrow> update_label" where
  "op_label (Add s) = LAdd"
| "op_label (MarkValid s) = LMarkValid s"
| "op_label (MarkInvalid s) = LMarkInvalid s"
| "op_label (Subtract s) = LSubtract"
| "op_label Aggregate = LAggregate"

definition is_mark :: "update_operation \<Rightarrow> bool" where
  "is_mark op = (case op of MarkValid s \<Rightarrow> True | MarkInvalid s \<Rightarrow> True | _ \<Rightarrow> False)"

definition pending :: "update_batch \<Rightarrow> slot_hash_key \<Rightarrow> bool" where
  "pending L j \<longleftrightarrow> ((j, LAggregate), Aggregate) \<in> set L"

text \<open>
  A batch runs from the greatest key to the smallest; the parent of a node it changes is
  aggregated by it, and so is a node whose validity it changes.
\<close>

definition batch_ok :: "fork_infos_map \<Rightarrow> update_batch \<Rightarrow> bool" where
  "batch_ok infos L \<longleftrightarrow> sorted_wrt (\<lambda>a b. fst b < fst a) L \<and>
     (\<forall>k l op. ((k, l), op) \<in> set L \<longrightarrow> l = op_label op \<and> (is_mark op \<longrightarrow> pending L k) \<and>
        (\<forall>i p. infos k = Some i \<and> fi_parent i = Some p \<longrightarrow> p < k \<and> pending L p))"

definition stake_change :: "update_batch \<Rightarrow> slot_hash_key \<Rightarrow> u64" where
  "stake_change L k = sum_list (map (\<lambda>((j, l), op). if j = k
     then (case op of Add s \<Rightarrow> s | Subtract s \<Rightarrow> - s | _ \<Rightarrow> 0) else 0) L)"

lemma less_LAggregate [simp]: "LAggregate \<le> l" "l < LAggregate \<longleftrightarrow> False" "LAggregate < l \<longleftrightarrow> l \<noteq> LAggregate"
  by (cases l; simp add: less_eq_update_label_def less_update_label_def)+

lemma batch_okD:
  assumes "batch_ok infos L"
  shows "sorted_wrt (\<lambda>a b. fst b < fst a) L" "((k, l), op) \<in> set L \<Longrightarrow> l = op_label op"
    "((k, l), op) \<in> set L \<Longrightarrow> is_mark op \<Longrightarrow> pending L k"
    "((k, l), op) \<in> set L \<Longrightarrow> infos k = Some i \<Longrightarrow> fi_parent i = Some p \<Longrightarrow> p < k \<and> pending L p"
  using assms unfolding batch_ok_def by blast+

lemma batch_ok_tail:
  assumes b: "batch_ok infos (((k, l), op) # L)" and s: "tree_shape infos' = tree_shape infos"
  shows "batch_ok infos' L"
    "is_mark op \<Longrightarrow> pending L k"
    "infos k = Some i \<Longrightarrow> fi_parent i = Some p \<Longrightarrow> pending L p" "l = op_label op"
proof -
  have sorted: "\<And>k' l' op'. ((k', l'), op') \<in> set L \<Longrightarrow> (k', l') < (k, l)"
    and sortedL: "sorted_wrt (\<lambda>a b. fst b < fst a) L"
    using b by (auto simp: batch_ok_def)
  have at: "l' = op_label op' \<and> (is_mark op' \<longrightarrow> pending (((k, l), op) # L) k') \<and>
      (\<forall>i p. infos k' = Some i \<and> fi_parent i = Some p \<longrightarrow> p < k' \<and> pending (((k, l), op) # L) p)"
    if "((k', l'), op') \<in> set (((k, l), op) # L)" for k' l' op'
    using b that unfolding batch_ok_def by blast
  have later: "pending (((k, l), op) # L) j \<Longrightarrow> (j, LAggregate) \<noteq> (k, l) \<Longrightarrow> pending L j" for j
    by (auto simp: pending_def)
  show l: "l = op_label op" using at [of k l op] by simp
  show "is_mark op \<Longrightarrow> pending L k"
    using at [of k l op] later [of k] l by (auto simp: is_mark_def split: update_operation.splits)
  show "infos k = Some i \<Longrightarrow> fi_parent i = Some p \<Longrightarrow> pending L p"
    using at [of k l op] later [of p] by auto
  have lab: "op_label op' = LAggregate \<Longrightarrow> \<not> is_mark op'" for op' by (cases op') (auto simp: is_mark_def)
  have "pending L k'" if "((k', l'), op') \<in> set L" "is_mark op'" for k' l' op'
  proof (rule later)
    show "pending (((k, l), op) # L) k'" using at [of k' l' op'] that by simp
    have "l' \<noteq> LAggregate" using at [of k' l' op'] that lab by auto
    then have "(k', LAggregate) < (k', l')" by simp
    then show "(k', LAggregate) \<noteq> (k, l)" using sorted [OF that(1)] by (metis less_asym)
  qed
  moreover have "p < k' \<and> pending L p"
    if h: "((k', l'), op') \<in> set L" "infos' k' = Some i'" "fi_parent i' = Some p" for k' l' op' i' p
  proof -
    obtain i where "infos k' = Some i" "fi_parent i = Some p"
      using tree_shape_Some [OF s h(2)] h(3) by auto
    then have p: "p < k'" "pending (((k, l), op) # L) p" using at [of k' l' op'] h(1) by auto
    then have "(p, LAggregate) < (k', l')" by simp
    then have "(p, LAggregate) \<noteq> (k, l)" using sorted [OF h(1)] by (metis less_asym)
    then show ?thesis using p later by blast
  qed
  moreover have "l' = op_label op'" if "((k', l'), op') \<in> set L" for k' l' op'
    using at [of k' l' op'] that by simp
  ultimately show "batch_ok infos' L"
    unfolding batch_ok_def using sortedL by blast
qed

definition nodes_ok_but :: "fork_infos_map \<Rightarrow> update_batch \<Rightarrow> bool" where
  "nodes_ok_but infos L \<longleftrightarrow> (\<forall>j i. infos j = Some i \<longrightarrow> node_ok infos j i \<or> pending L j)"

lemma put_keeps_nodes:
  assumes l: "links_ok infos" and k: "infos k = Some i"
    and i': "fi_parent i' = fi_parent i" "fi_children i' = fi_children i"
    and ok: "nodes_ok_but infos (((k, l), op) # L)"
    and parent: "\<And>p. fi_parent i = Some p \<Longrightarrow> pending L p"
    and node: "node_ok infos k i' \<or> pending L k"
  shows "nodes_ok_but (infos(k \<mapsto> i')) L"
  unfolding nodes_ok_but_def
proof (intro allI impI)
  fix j ij assume j: "(infos(k \<mapsto> i')) j = Some ij"
  show "node_ok (infos(k \<mapsto> i')) j ij \<or> pending L j"
  proof (cases "j = k")
    case True
    then have "ij = i'" "k \<notin> set (fi_children ij)" using j i'(2) no_self_child [OF l k] by auto
    moreover from this have "node_ok (infos(k \<mapsto> i')) k ij = node_ok infos k ij" by (intro node_ok_cong) auto
    ultimately show ?thesis using node True by simp
  next
    case False
    then have ij: "infos j = Some ij" using j by simp
    show ?thesis
    proof (cases "k \<in> set (fi_children ij)")
      case True
      then show ?thesis using links_okD(4) [OF l ij True] k parent by auto
    next
      case False
      then have "node_ok (infos(k \<mapsto> i')) j ij = node_ok infos j ij" by (intro node_ok_cong) auto
      then show ?thesis using ok ij \<open>j \<noteq> k\<close> by (auto simp: nodes_ok_but_def pending_def)
    qed
  qed
qed

lemma node_ok_stake:
  "node_ok infos k (i\<lparr>fi_stake_voted_at := fi_stake_voted_at i + w,
     fi_stake_voted_subtree := fi_stake_voted_subtree i + w\<rparr>) = node_ok infos k i"
  (is "node_ok _ _ ?i = _")
proof -
  have "stake_ok infos ?i = stake_ok infos i" by (simp add: stake_ok_def)
  moreover have "best_ok infos k ?i = best_ok infos k i" unfolding best_ok_def by simp
  moreover have "deepest_ok infos k ?i = deepest_ok infos k i" unfolding deepest_ok_def by simp
  ultimately show ?thesis unfolding node_ok_def confirmed_ok_def fi_is_candidate_def by simp
qed

text \<open>One operation.\<close>

lemma process_operation_ok:
  assumes l: "links_ok (fork_infos self)" and b: "batch_ok (fork_infos self) (((k, lab), op) # L)"
    and ok: "nodes_ok_but (fork_infos self) (((k, lab), op) # L)"
    and inv: "\<forall>s i. op = MarkInvalid s \<longrightarrow> fork_infos self k = Some i \<longrightarrow> \<not> fi_is_duplicate_confirmed i"
  shows "\<exists>self'. process_operation self k op = Some self' \<and>
    nodes_ok_but (fork_infos self') L \<and> tree_shape (fork_infos self') = tree_shape (fork_infos self) \<and>
    latest_votes self' = latest_votes self \<and> tree_root self' = tree_root self \<and>
    (\<forall>j. j \<noteq> k \<longrightarrow> fork_infos self' j = fork_infos self j) \<and>
    (\<forall>j i. fork_infos self j = Some i \<longrightarrow> (\<exists>i'. fork_infos self' j = Some i' \<and>
       fi_stake_voted_at i' = fi_stake_voted_at i + stake_change [((k, lab), op)] j))"
proof (cases "fork_infos self k")
  case None
  then have "process_operation self k op = Some self"
    by (simp add: process_operation_def mark_fork_valid_def mark_fork_invalid_def aggregate_slot_def
      add_slot_stake_def subtract_slot_stake_def split: update_operation.split)
  moreover have "nodes_ok_but (fork_infos self) L"
    unfolding nodes_ok_but_def
  proof (intro allI impI)
    fix j i assume "fork_infos self j = Some i"
    then show "node_ok (fork_infos self) j i \<or> pending L j"
      using ok None by (cases "j = k") (auto simp: nodes_ok_but_def pending_def)
  qed
  moreover have "stake_change [((k, lab), op)] j = 0" if "fork_infos self j \<noteq> None" for j
    using that None by (auto simp: stake_change_def)
  ultimately show ?thesis by auto
next
  case (Some i)
  note tail = batch_ok_tail [OF b refl]
  let ?f = "fork_infos self"
  have "\<exists>i'. process_operation self k op = Some (put_info self k i') \<and>
      fi_parent i' = fi_parent i \<and> fi_children i' = fi_children i \<and>
      fi_stake_voted_at i' = fi_stake_voted_at i + stake_change [((k, lab), op)] k \<and>
      (node_ok ?f k i' \<or> pending L k)"
  proof (cases op)
    case (Add w)
    let ?i = "i\<lparr>fi_stake_voted_at := fi_stake_voted_at i + w, fi_stake_voted_subtree := fi_stake_voted_subtree i + w\<rparr>"
    have "node_ok ?f k i \<or> pending L k"
      using ok Some Add by (auto simp: nodes_ok_but_def pending_def)
    then have "node_ok ?f k ?i \<or> pending L k" by (simp add: node_ok_stake)
    then show ?thesis
      using Some Add by (intro exI [of _ ?i]) (simp add: process_operation_def add_slot_stake_def stake_change_def)
  next
    case (Subtract w)
    let ?i = "i\<lparr>fi_stake_voted_at := fi_stake_voted_at i - w, fi_stake_voted_subtree := fi_stake_voted_subtree i - w\<rparr>"
    have "node_ok ?f k i \<or> pending L k"
      using ok Some Subtract by (auto simp: nodes_ok_but_def pending_def)
    then have "node_ok ?f k ?i \<or> pending L k" using node_ok_stake [of ?f k i "- w"] by simp
    then show ?thesis
      using Some Subtract
      by (intro exI [of _ ?i]) (simp add: process_operation_def subtract_slot_stake_def stake_change_def)
  next
    case (MarkValid v)
    then have "pending L k" using tail(2) by (simp add: is_mark_def)
    then show ?thesis
      using Some MarkValid
      by (auto simp: process_operation_def mark_fork_valid_def update_with_newly_valid_ancestor_def Let_def
        stake_change_def split: option.split)
  next
    case (MarkInvalid v)
    then have "pending L k" using tail(2) by (simp add: is_mark_def)
    then show ?thesis
      using Some MarkInvalid inv
      by (auto simp: process_operation_def mark_fork_invalid_def update_with_newly_invalid_ancestor_def
        stake_change_def split: option.split)
  next
    case Aggregate
    then show ?thesis
      using aggregate_slot_ok [OF l Some]
      by (force simp: process_operation_def stake_change_def node_ok_def confirmed_ok_def split: if_splits)
  qed
  then obtain i' where i': "process_operation self k op = Some (put_info self k i')"
      "fi_parent i' = fi_parent i" "fi_children i' = fi_children i"
      "fi_stake_voted_at i' = fi_stake_voted_at i + stake_change [((k, lab), op)] k"
      "node_ok ?f k i' \<or> pending L k"
    by blast
  have "nodes_ok_but (?f(k \<mapsto> i')) L"
    using tail(3) Some by (intro put_keeps_nodes [OF l Some i'(2,3) ok _ i'(5)]) blast
  moreover have "tree_shape (?f(k \<mapsto> i')) = tree_shape ?f" using Some i'(2,3) by (rule tree_shape_put)
  moreover have "stake_change [((k, lab), op)] j = 0" if "j \<noteq> k" for j using that by (simp add: stake_change_def)
  ultimately show ?thesis using i'(1,4) Some by (auto simp: put_info_def)
qed

text \<open>What one operation does to the validity and the best slot of its node.\<close>

definition operation_effect ::
  "fork_infos_map \<Rightarrow> slot_hash_key \<Rightarrow> update_operation \<Rightarrow> fork_info \<Rightarrow> fork_info \<Rightarrow> bool" where
  "operation_effect infos k op i i' \<longleftrightarrow>
    (case op of
       MarkValid s \<Rightarrow>
         fi_is_duplicate_confirmed i' = (fi_is_duplicate_confirmed i \<or> key_slot k = s) \<and>
         fi_latest_invalid_ancestor i' = (case fi_latest_invalid_ancestor i of
           Some x \<Rightarrow> if x \<le> s then None else Some x | None \<Rightarrow> None) \<and> fi_best_slot i' = fi_best_slot i
     | MarkInvalid s \<Rightarrow>
         \<not> fi_is_duplicate_confirmed i \<and> \<not> fi_is_duplicate_confirmed i' \<and>
         fi_latest_invalid_ancestor i' = (case fi_latest_invalid_ancestor i of
           Some x \<Rightarrow> Some (max x s) | None \<Rightarrow> Some s) \<and> fi_best_slot i' = fi_best_slot i
     | Aggregate \<Rightarrow>
         best_ok (infos) k i' \<and>
         (if \<exists>c \<in> set (fi_children i). node_confirmed (infos) c
          then fi_is_duplicate_confirmed i' \<and> fi_latest_invalid_ancestor i' = None
          else fi_is_duplicate_confirmed i' = fi_is_duplicate_confirmed i \<and>
            fi_latest_invalid_ancestor i' = fi_latest_invalid_ancestor i)
     | _ \<Rightarrow> fi_is_duplicate_confirmed i' = fi_is_duplicate_confirmed i \<and>
         fi_latest_invalid_ancestor i' = fi_latest_invalid_ancestor i \<and> fi_best_slot i' = fi_best_slot i)"

lemma process_operation_info:
  assumes l: "links_ok (fork_infos self)" and p: "process_operation self k op = Some self'"
    and k: "fork_infos self k = Some i"
  shows "\<exists>i'. self' = put_info self k i' \<and> fi_parent i' = fi_parent i \<and> fi_children i' = fi_children i \<and>
    operation_effect (fork_infos self) k op i i'"
proof (cases op)
  case Aggregate
  obtain i' where "aggregate_slot self k = Some (put_info self k i')" "fi_parent i' = fi_parent i"
    "fi_children i' = fi_children i" "best_ok (fork_infos self) k i'"
    "if \<exists>c \<in> set (fi_children i). node_confirmed (fork_infos self) c
     then fi_is_duplicate_confirmed i' \<and> fi_latest_invalid_ancestor i' = None
     else fi_is_duplicate_confirmed i' = fi_is_duplicate_confirmed i \<and>
       fi_latest_invalid_ancestor i' = fi_latest_invalid_ancestor i"
    using aggregate_slot_ok [OF l k] by blast
  then show ?thesis using p Aggregate by (intro exI [of _ i']) (simp add: process_operation_def operation_effect_def)
next
  case (MarkValid s)
  then show ?thesis
    using p k
    by (auto simp: process_operation_def mark_fork_valid_def update_with_newly_valid_ancestor_def Let_def
      operation_effect_def split: option.splits if_splits)
next
  case (MarkInvalid s)
  then show ?thesis
    using p k
    by (auto simp: process_operation_def mark_fork_invalid_def update_with_newly_invalid_ancestor_def max_def
      operation_effect_def split: option.splits if_splits)
qed (use p k in \<open>auto simp: process_operation_def add_slot_stake_def subtract_slot_stake_def operation_effect_def\<close>)

lemma process_operation_absent:
  "fork_infos self k = None \<Longrightarrow> process_operation self k op = Some self"
  by (simp add: process_operation_def mark_fork_valid_def mark_fork_invalid_def aggregate_slot_def
      add_slot_stake_def subtract_slot_stake_def split: update_operation.split)

lemma process_operation_shape:
  assumes l: "links_ok (fork_infos self)" and p: "process_operation self k op = Some self'"
  shows "tree_shape (fork_infos self') = tree_shape (fork_infos self)" "links_ok (fork_infos self')"
    "j \<noteq> k \<Longrightarrow> fork_infos self' j = fork_infos self j"
proof -
  show sh: "tree_shape (fork_infos self') = tree_shape (fork_infos self)"
  proof (cases "fork_infos self k")
    case None
    then show ?thesis using process_operation_absent [OF None] p by simp
  next
    case (Some i)
    from process_operation_info [OF l p Some] obtain i' where i': "self' = put_info self k i'"
      "fi_parent i' = fi_parent i" "fi_children i' = fi_children i" by blast
    show ?thesis unfolding i'(1) put_info_def using tree_shape_put [of "fork_infos self" k i i'] Some i' by simp
  qed
  show "links_ok (fork_infos self')" by (rule links_ok_shape [OF sh [symmetric] l])
  show "j \<noteq> k \<Longrightarrow> fork_infos self' j = fork_infos self j"
    using process_operation_info [OF l p] process_operation_absent [of self k op] p
    by (cases "fork_infos self k") (auto simp: put_info_def)
qed

definition marks_unconfirmed :: "fork_infos_map \<Rightarrow> update_batch \<Rightarrow> bool" where
  "marks_unconfirmed infos L \<longleftrightarrow> (\<forall>k l s i. ((k, l), MarkInvalid s) \<in> set L \<longrightarrow> infos k = Some i \<longrightarrow>
     \<not> fi_is_duplicate_confirmed i)"

lemma marks_unconfirmed_tail:
  assumes l: "links_ok (fork_infos self)" and b: "batch_ok (fork_infos self) (((k, lab), op) # L)"
    and m: "marks_unconfirmed (fork_infos self) (((k, lab), op) # L)"
    and p: "process_operation self k op = Some self'"
  shows "marks_unconfirmed (fork_infos self') L"
  unfolding marks_unconfirmed_def
proof (intro allI impI)
  fix j l' s i assume j: "((j, l'), MarkInvalid s) \<in> set L" "fork_infos self' j = Some i"
  show "\<not> fi_is_duplicate_confirmed i"
  proof (cases "j = k")
    case False
    then show ?thesis using m j process_operation_shape(3) [OF l p False] by (auto simp: marks_unconfirmed_def)
  next
    case True
    have "(k, l') < (k, lab)" using b j(1) True by (force simp: batch_ok_def)
    moreover have "l' = LMarkInvalid s"
      using batch_okD(2) [OF b, of j l' "MarkInvalid s"] j(1) by simp
    moreover have "lab = op_label op" using batch_okD(2) [OF b, of k lab op] by simp
    ultimately have op: "(\<exists>t. op = MarkInvalid t) \<or> (\<exists>t. op = Subtract t)"
      by (cases op) (auto simp: less_update_label_def)
    obtain i0 where i0: "fork_infos self k = Some i0"
      using j(2) True process_operation_absent [of self k op] p by (cases "fork_infos self k") auto
    then have "\<not> fi_is_duplicate_confirmed i0" using m j(1) True by (auto simp: marks_unconfirmed_def)
    then show ?thesis
      using process_operation_info [OF l p i0] op j(2) True by (auto simp: put_info_def operation_effect_def)
  qed
qed

lemma process_loop_ok:
  assumes "links_ok (fork_infos self)" "batch_ok (fork_infos self) L" "nodes_ok_but (fork_infos self) L"
    "marks_unconfirmed (fork_infos self) L"
  shows "\<exists>self'. process_loop self L = Some self' \<and> nodes_ok_but (fork_infos self') [] \<and>
    tree_shape (fork_infos self') = tree_shape (fork_infos self) \<and>
    latest_votes self' = latest_votes self \<and> tree_root self' = tree_root self \<and>
    (\<forall>j i. fork_infos self j = Some i \<longrightarrow> (\<exists>i'. fork_infos self' j = Some i' \<and>
       fi_stake_voted_at i' = fi_stake_voted_at i + stake_change L j))"
  using assms
proof (induction L arbitrary: self)
  case Nil
  then show ?case by (simp add: stake_change_def)
next
  case (Cons x L)
  obtain k lab op where x: "x = ((k, lab), op)" by (metis prod.exhaust)
  note prems = Cons.prems [unfolded x]
  have "\<forall>s i. op = MarkInvalid s \<longrightarrow> fork_infos self k = Some i \<longrightarrow> \<not> fi_is_duplicate_confirmed i"
    using prems(4) by (auto simp: marks_unconfirmed_def)
  from process_operation_ok [OF prems(1-3) this] obtain s1 where s1:
    "process_operation self k op = Some s1" "nodes_ok_but (fork_infos s1) L"
    "tree_shape (fork_infos s1) = tree_shape (fork_infos self)" "latest_votes s1 = latest_votes self"
    "tree_root s1 = tree_root self"
    "\<And>j i. fork_infos self j = Some i \<Longrightarrow> \<exists>i'. fork_infos s1 j = Some i' \<and>
       fi_stake_voted_at i' = fi_stake_voted_at i + stake_change [((k, lab), op)] j" by blast
  have "links_ok (fork_infos s1)" by (rule links_ok_shape [OF s1(3) [symmetric] prems(1)])
  from Cons.IH [OF this batch_ok_tail(1) [OF prems(2) s1(3)] s1(2)
      marks_unconfirmed_tail [OF prems(1,2,4) s1(1)]] obtain s2 where s2:
    "process_loop s1 L = Some s2" "nodes_ok_but (fork_infos s2) []"
    "tree_shape (fork_infos s2) = tree_shape (fork_infos s1)" "latest_votes s2 = latest_votes s1"
    "tree_root s2 = tree_root s1"
    "\<And>j i. fork_infos s1 j = Some i \<Longrightarrow> \<exists>i'. fork_infos s2 j = Some i' \<and>
       fi_stake_voted_at i' = fi_stake_voted_at i + stake_change L j" by blast
  have "\<exists>i'. fork_infos s2 j = Some i' \<and> fi_stake_voted_at i' = fi_stake_voted_at i + stake_change (x # L) j"
    if h: "fork_infos self j = Some i" for j i
  proof -
    obtain i1 where i1: "fork_infos s1 j = Some i1"
      "fi_stake_voted_at i1 = fi_stake_voted_at i + stake_change [((k, lab), op)] j" using s1(6) [OF h] by blast
    show ?thesis using s2(6) [OF i1(1)] i1(2) by (auto simp: x stake_change_def)
  qed
  then show ?case using s1 s2 by (simp add: x)
qed

text \<open>A predicate that every operation of a batch keeps.\<close>

lemma process_loop_invariant:
  assumes "process_loop self L = Some self'" "links_ok (fork_infos self)" "I self"
    and "\<And>s k l op s'. ((k, l), op) \<in> set L \<Longrightarrow> links_ok (fork_infos s) \<Longrightarrow> I s \<Longrightarrow>
      process_operation s k op = Some s' \<Longrightarrow> I s'"
  shows "I self'"
  using assms
proof (induction L arbitrary: self)
  case (Cons x L)
  obtain k l op where x: "x = ((k, l), op)" by (metis prod.exhaust)
  obtain s1 where s1: "process_operation self k op = Some s1" "process_loop s1 L = Some self'"
    using Cons.prems(1) by (auto simp: x bind_eq_Some_conv)
  have "((k, l), op) \<in> set (x # L)" by (simp add: x)
  then have "I s1" by (rule Cons.prems(4) [OF _ Cons.prems(2,3) s1(1)])
  moreover have "links_ok (fork_infos s1)" by (rule process_operation_shape(2) [OF Cons.prems(2) s1(1)])
  moreover have "\<And>s k l op s'. ((k, l), op) \<in> set L \<Longrightarrow> links_ok (fork_infos s) \<Longrightarrow> I s \<Longrightarrow>
      process_operation s k op = Some s' \<Longrightarrow> I s'" using Cons.prems(4) by (meson list.set_intros(2))
  ultimately show ?case using Cons.IH [OF s1(2)] by blast
qed simp

text \<open>
  A confirmed node is a candidate, and the latest invalid ancestor of a node does not come after it.
\<close>

definition flags_ok :: "fork_infos_map \<Rightarrow> bool" where
  "flags_ok infos \<longleftrightarrow> (\<forall>j i. infos j = Some i \<longrightarrow>
     (fi_is_duplicate_confirmed i \<longrightarrow> fi_latest_invalid_ancestor i = None) \<and>
     (\<forall>x. fi_latest_invalid_ancestor i = Some x \<longrightarrow> x \<le> key_slot j))"

text \<open>The best slot of a node is in its subtree.\<close>

definition best_below :: "fork_infos_map \<Rightarrow> bool" where
  "best_below infos \<longleftrightarrow> (\<forall>j i. infos j = Some i \<longrightarrow> fi_best_slot i \<in> subtree infos j)"

lemma process_operation_flags:
  assumes l: "links_ok (fork_infos self)" and f: "flags_ok (fork_infos self)"
    and p: "process_operation self k op = Some self'"
    and s: "\<forall>s. op = MarkInvalid s \<longrightarrow> s \<le> key_slot k"
  shows "flags_ok (fork_infos self')"
proof (cases "fork_infos self k")
  case None
  then show ?thesis using process_operation_absent [OF None] p f by simp
next
  case (Some i)
  then have i: "fi_is_duplicate_confirmed i \<Longrightarrow> fi_latest_invalid_ancestor i = None"
    "\<And>x. fi_latest_invalid_ancestor i = Some x \<Longrightarrow> x \<le> key_slot k"
    using f by (auto simp: flags_ok_def)
  obtain i' where i': "self' = put_info self k i'" and eff: "operation_effect (fork_infos self) k op i i'"
    using process_operation_info [OF l p Some] by blast
  have "(fi_is_duplicate_confirmed i' \<longrightarrow> fi_latest_invalid_ancestor i' = None) \<and>
     (\<forall>x. fi_latest_invalid_ancestor i' = Some x \<longrightarrow> x \<le> key_slot k)"
    using eff i s by (cases op) (auto simp: operation_effect_def split: option.splits if_splits)
  then show ?thesis using f by (auto simp: i' put_info_def flags_ok_def)
qed

lemma process_operation_best_below:
  assumes l: "links_ok (fork_infos self)" and b: "best_below (fork_infos self)"
    and p: "process_operation self k op = Some self'"
  shows "best_below (fork_infos self')"
proof (cases "fork_infos self k")
  case None
  then show ?thesis using process_operation_absent [OF None] p b by simp
next
  case (Some i)
  have sub: "subtree (fork_infos self') j = subtree (fork_infos self) j" for j
    by (rule subtree_shape [OF process_operation_shape(1) [OF l p]])
  obtain i' where i': "self' = put_info self k i'" "fi_children i' = fi_children i"
    and eff: "best_ok (fork_infos self) k i' \<or> fi_best_slot i' = fi_best_slot i"
    using process_operation_info [OF l p Some] by (cases op) (auto simp: operation_effect_def)
  have "fi_best_slot i' \<in> subtree (fork_infos self) k"
  proof (cases "fi_best_slot i' = fi_best_slot i")
    case True
    then show ?thesis using b Some by (auto simp: best_below_def)
  next
    case False
    then have "fi_best_slot i' = k \<or> (\<exists>c \<in> set (fi_children i). fi_best_slot i' = fi_best_slot (the (fork_infos self c)))"
      using eff i'(2) by (auto simp: best_ok_def is_best_def split: if_splits)
    then show ?thesis
    proof
      assume "\<exists>c \<in> set (fi_children i). fi_best_slot i' = fi_best_slot (the (fork_infos self c))"
      then obtain c ci where c: "c \<in> set (fi_children i)" "fork_infos self c = Some ci" "fi_best_slot i' = fi_best_slot ci"
        using links_okD(4) [OF l Some] by force
      then have "fi_best_slot ci \<in> subtree (fork_infos self) c" using b by (auto simp: best_below_def)
      then show ?thesis using c subtree_of_child Some by (metis subtree_trans)
    qed simp
  qed
  then show ?thesis unfolding best_below_def sub using b by (auto simp: i'(1) put_info_def best_below_def)
qed

text \<open>
  A batch that marks nothing valid leaves the confirmed nodes as they are, and the invalid
  ancestors but for the nodes it marks.
\<close>

definition confirmed_closed :: "fork_infos_map \<Rightarrow> bool" where
  "confirmed_closed infos \<longleftrightarrow> (\<forall>j i. infos j = Some i \<longrightarrow> confirmed_ok infos i)"

definition mark_invalid_ancestor :: "slot \<Rightarrow> slot option \<Rightarrow> slot option" where
  "mark_invalid_ancestor s a = Some (case a of Some x \<Rightarrow> max x s | None \<Rightarrow> s)"

definition marked_invalid :: "update_batch \<Rightarrow> slot_hash_key \<Rightarrow> slot \<Rightarrow> bool" where
  "marked_invalid L j s \<longleftrightarrow> ((j, LMarkInvalid s), MarkInvalid s) \<in> set L"

lemma process_operation_validity:
  assumes l: "links_ok (fork_infos self)" and f: "flags_ok (fork_infos self)" and c: "confirmed_closed (fork_infos self)"
    and p: "process_operation self k op = Some self'" and op: "\<And>v. op \<noteq> MarkValid v"
    and s: "\<forall>t. op = MarkInvalid t \<longrightarrow> t = s"
    and j: "fork_infos self j = Some i"
  shows "\<exists>i'. fork_infos self' j = Some i' \<and> fi_is_duplicate_confirmed i' = fi_is_duplicate_confirmed i \<and>
    fi_latest_invalid_ancestor i' = (if j = k \<and> op = MarkInvalid s
      then mark_invalid_ancestor s (fi_latest_invalid_ancestor i) else fi_latest_invalid_ancestor i)"
proof (cases "j = k")
  case False
  then show ?thesis using process_operation_shape(3) [OF l p False] j by simp
next
  case True
  with j have k: "fork_infos self k = Some i" by simp
  obtain i' where i': "self' = put_info self k i'" "operation_effect (fork_infos self) k op i i'"
    using process_operation_info [OF l p k] by blast
  have "fi_is_duplicate_confirmed i \<Longrightarrow> fi_latest_invalid_ancestor i = None"
    using f k by (auto simp: flags_ok_def)
  moreover have "\<exists>c \<in> set (fi_children i). node_confirmed (fork_infos self) c \<Longrightarrow> fi_is_duplicate_confirmed i"
    using c k by (auto simp: confirmed_closed_def confirmed_ok_def)
  ultimately have "fi_is_duplicate_confirmed i' = fi_is_duplicate_confirmed i \<and>
    fi_latest_invalid_ancestor i' = (if op = MarkInvalid s
      then mark_invalid_ancestor s (fi_latest_invalid_ancestor i) else fi_latest_invalid_ancestor i)"
    using i'(2) op s
    by (cases op) (auto simp: operation_effect_def mark_invalid_ancestor_def split: option.splits if_splits)
  then show ?thesis using i'(1) True by (auto simp: put_info_def)
qed

lemma confirmed_closed_cong:
  assumes sh: "tree_shape infos' = tree_shape infos" and l: "links_ok infos"
    and same: "\<And>j i. infos j = Some i \<Longrightarrow> \<exists>i'. infos' j = Some i' \<and> fi_is_duplicate_confirmed i' = fi_is_duplicate_confirmed i"
    and c: "confirmed_closed infos"
  shows "confirmed_closed infos'"
  unfolding confirmed_closed_def confirmed_ok_def
proof (intro allI impI ballI)
  fix j i' c assume j: "infos' j = Some i'" "c \<in> set (fi_children i')" "node_confirmed infos' c"
  obtain i where i: "infos j = Some i" "fi_children i = fi_children i'"
    using tree_shape_Some [OF sh j(1)] by auto
  have cm: "c \<in> set (fi_children i)" using j(2) i(2) by simp
  obtain ci where ci: "infos c = Some ci" using links_okD(4) [OF l i(1) cm] by blast
  have "fi_is_duplicate_confirmed ci" using same [OF ci] j(3) by auto
  then have "fi_is_duplicate_confirmed i"
    using c i(1) cm ci unfolding confirmed_closed_def confirmed_ok_def by force
  then show "fi_is_duplicate_confirmed i'" using same [OF i(1)] j(1) by auto
qed

lemma process_loop_validity:
  assumes "process_loop self L = Some self'" "links_ok (fork_infos self)" "flags_ok (fork_infos self)"
    "confirmed_closed (fork_infos self)"
    "\<And>k l op. ((k, l), op) \<in> set L \<Longrightarrow> (\<forall>v. op \<noteq> MarkValid v) \<and> (\<forall>t. op = MarkInvalid t \<longrightarrow> l = LMarkInvalid s \<and> t = s \<and> s \<le> key_slot k)"
    and "fork_infos self j = Some i"
  shows "\<exists>i'. fork_infos self' j = Some i' \<and> fi_is_duplicate_confirmed i' = fi_is_duplicate_confirmed i \<and>
    fi_latest_invalid_ancestor i' = (if marked_invalid L j s
      then mark_invalid_ancestor s (fi_latest_invalid_ancestor i) else fi_latest_invalid_ancestor i)"
  using assms
proof (induction L arbitrary: self i)
  case (Cons x L)
  obtain k l op where x: "x = ((k, l), op)" by (metis prod.exhaust)
  obtain s1 where s1: "process_operation self k op = Some s1" "process_loop s1 L = Some self'"
    using Cons.prems(1) by (auto simp: x bind_eq_Some_conv)
  have op: "\<And>v. op \<noteq> MarkValid v" "\<forall>t. op = MarkInvalid t \<longrightarrow> t = s" "\<forall>t. op = MarkInvalid t \<longrightarrow> t \<le> key_slot k"
    "op = MarkInvalid s \<Longrightarrow> l = LMarkInvalid s"
    using Cons.prems(5) [of k l op] by (auto simp: x)
  note step = process_operation_validity [OF Cons.prems(2-4) s1(1) op(1,2)]
  have sh: "tree_shape (fork_infos s1) = tree_shape (fork_infos self)" and lk: "links_ok (fork_infos s1)"
    using process_operation_shape [OF Cons.prems(2) s1(1)] by auto
  have fl: "flags_ok (fork_infos s1)" by (rule process_operation_flags [OF Cons.prems(2,3) s1(1) op(3)])
  have cc: "confirmed_closed (fork_infos s1)"
    using step by (intro confirmed_closed_cong [OF sh Cons.prems(2) _ Cons.prems(4)]) blast
  obtain i1 where i1: "fork_infos s1 j = Some i1" "fi_is_duplicate_confirmed i1 = fi_is_duplicate_confirmed i"
    "fi_latest_invalid_ancestor i1 = (if j = k \<and> op = MarkInvalid s
      then mark_invalid_ancestor s (fi_latest_invalid_ancestor i) else fi_latest_invalid_ancestor i)"
    using step [OF Cons.prems(6)] by blast
  have idem: "mark_invalid_ancestor s (mark_invalid_ancestor s a) = mark_invalid_ancestor s a" for a
    by (simp add: mark_invalid_ancestor_def split: option.split)
  have mem: "marked_invalid (x # L) j s \<longleftrightarrow> (j = k \<and> op = MarkInvalid s) \<or> marked_invalid L j s"
    using op(4) by (auto simp: marked_invalid_def x)
  have rest: "\<And>k l op. ((k, l), op) \<in> set L \<Longrightarrow> (\<forall>v. op \<noteq> MarkValid v) \<and>
      (\<forall>t. op = MarkInvalid t \<longrightarrow> l = LMarkInvalid s \<and> t = s \<and> s \<le> key_slot k)"
    by (rule Cons.prems(5)) simp
  show ?case
    using Cons.IH [OF s1(2) lk fl cc rest i1(1)] i1(2,3) by (auto simp: mem idem)
qed (simp add: marked_invalid_def)

text \<open>A confirmed node stays confirmed, and a node that is marked valid by its own slot becomes so.\<close>

lemma process_loop_confirms:
  assumes "process_loop self L = Some self'" "links_ok (fork_infos self)" "fork_infos self j = Some i"
    "fi_is_duplicate_confirmed i \<or> (\<exists>l. ((j, l), MarkValid (key_slot j)) \<in> set L)"
  shows "\<exists>i'. fork_infos self' j = Some i' \<and> fi_is_duplicate_confirmed i'"
  using assms
proof (induction L arbitrary: self i)
  case (Cons x L)
  obtain k l op where x: "x = ((k, l), op)" by (metis prod.exhaust)
  obtain s1 where s1: "process_operation self k op = Some s1" "process_loop s1 L = Some self'"
    using Cons.prems(1) by (auto simp: x bind_eq_Some_conv)
  have lk: "links_ok (fork_infos s1)" by (rule process_operation_shape(2) [OF Cons.prems(2) s1(1)])
  show ?case
  proof (cases "j = k")
    case False
    then have "fork_infos s1 j = Some i"
      using process_operation_shape(3) [OF Cons.prems(2) s1(1) False] Cons.prems(3) by simp
    then show ?thesis using Cons.IH [OF s1(2) lk] Cons.prems(4) False by (auto simp: x)
  next
    case True
    then have k: "fork_infos self k = Some i" using Cons.prems(3) by simp
    obtain i1 where i1: "s1 = put_info self k i1" "operation_effect (fork_infos self) k op i i1"
      using process_operation_info [OF Cons.prems(2) s1(1) k] by blast
    have "op \<noteq> MarkInvalid t" if "fi_is_duplicate_confirmed i" for t
      using that i1(2) by (auto simp: operation_effect_def)
    then have "fi_is_duplicate_confirmed i1 \<or> (\<exists>l. ((j, l), MarkValid (key_slot j)) \<in> set L)"
      using Cons.prems(4) i1(2) True
      by (cases op) (auto simp: x operation_effect_def split: if_splits)
    then show ?thesis using Cons.IH [OF s1(2) lk] i1(1) True by (auto simp: put_info_def)
  qed
qed simp

end
