(* ===== verification/Fork_Batches.thy ===== *)
theory Fork_Batches
  imports Fork_Aggregate
begin

text \<open>
  The batches that the fork choice builds: ancestors are aggregated with the nodes that change, so
  every batch brings the whole tree up to date.
\<close>

section \<open>Ancestors\<close>

definition ancestors :: "fork_infos_map \<Rightarrow> slot_hash_key \<Rightarrow> slot_hash_key set" where
  "ancestors infos k = {a. infos a \<noteq> None \<and> a \<noteq> k \<and> k \<in> subtree infos a}"

lemma tree_parent:
  assumes t: "tree_ok infos root" and k: "infos k = Some i" and p: "fi_parent i = Some p"
  shows "\<exists>pi. infos p = Some pi \<and> k \<in> set (fi_children pi) \<and> key_slot p < key_slot k"
proof -
  have "k \<noteq> root" using tree_okD(2) [OF t] k p by auto
  then obtain pi where "infos p = Some pi" "k \<in> set (fi_children pi)" using tree_okD(3) [OF t k] p by auto
  then show ?thesis using links_okD(3) [OF tree_okD(1) [OF t]] by blast
qed

lemma ancestors_root:
  assumes t: "tree_ok infos root" and k: "infos k = Some i" and p: "fi_parent i = None"
  shows "ancestors infos k = {}"
proof -
  have "False" if "a \<in> ancestors infos k" for a
  proof -
    have a: "k \<in> subtree infos a" "k \<noteq> a" using that by (auto simp: ancestors_def)
    then obtain q qi where "infos q = Some qi" "k \<in> set (fi_children qi)" by (auto elim: subtree_parent)
    then show False using links_okD(4) [OF tree_okD(1) [OF t]] k p by force
  qed
  then show ?thesis by blast
qed

lemma ancestors_step:
  assumes t: "tree_ok infos root" and k: "infos k = Some i" and p: "fi_parent i = Some p"
  shows "ancestors infos k = insert p (ancestors infos p)"
proof -
  obtain pi where pi: "infos p = Some pi" "k \<in> set (fi_children pi)" "key_slot p < key_slot k"
    using tree_parent [OF t k p] by blast
  note l = tree_okD(1) [OF t]
  show ?thesis
  proof (intro equalityI subsetI)
    fix a assume "a \<in> ancestors infos k"
    then have a: "infos a \<noteq> None" "a \<noteq> k" "k \<in> subtree infos a" by (auto simp: ancestors_def)
    then obtain q qi where q: "q \<in> subtree infos a" "infos q = Some qi" "k \<in> set (fi_children qi)"
      by (metis subtree_parent)
    have "q = p" using parent_unique [OF l q(2) pi(1) q(3) pi(2)] .
    then show "a \<in> insert p (ancestors infos p)" using a(1) q(1) by (auto simp: ancestors_def)
  next
    fix a assume "a \<in> insert p (ancestors infos p)"
    then have "infos a \<noteq> None" "p \<in> subtree infos a" using pi(1) by (auto simp: ancestors_def)
    moreover from this have "k \<in> subtree infos a" using subtree_child pi by metis
    moreover have "a \<noteq> k" using subtree_slot [OF l \<open>p \<in> subtree infos a\<close>] pi(3) by auto
    ultimately show "a \<in> ancestors infos k" by (simp add: ancestors_def)
  qed
qed

lemma ancestor_iterator_ok:
  assumes t: "tree_ok infos root" and k: "infos k = Some i"
  shows "\<exists>as. ancestor_iterator infos k = Some as \<and> set as = ancestors infos k \<and> distinct as \<and>
    (\<forall>ys a zs. as = ys @ a # zs \<longrightarrow> set zs = ancestors infos a)"
  using t k
proof (induction rule: tree_up_induct)
  case (node k i)
  show ?case
  proof (cases "fi_parent i")
    case None
    then show ?thesis
      using node(1) ancestors_root [OF t node(1)]
      by (subst ancestor_iterator.simps) (simp add: ancestor_next_def)
  next
    case (Some p)
    obtain as where as: "ancestor_iterator infos p = Some as" "set as = ancestors infos p" "distinct as"
      "\<And>ys a zs. as = ys @ a # zs \<Longrightarrow> set zs = ancestors infos a"
      using node(2) [OF Some] by blast
    have "ancestor_iterator infos k = Some (p # as)"
      using node(1) Some as(1) by (subst ancestor_iterator.simps) (simp add: ancestor_next_def)
    moreover have "p \<notin> set as" using as(2) by (simp add: ancestors_def)
    moreover have "set zs = ancestors infos a" if "p # as = ys @ a # zs" for ys a zs
      using that as(2,4) by (cases ys) auto
    ultimately show ?thesis using as(2,3) ancestors_step [OF t node(1) Some] by auto
  qed
qed

lemma ancestor_iterator_absent: "infos k = None \<Longrightarrow> ancestor_iterator infos k = Some []"
  by (subst ancestor_iterator.simps) (simp add: ancestor_next_def)

section \<open>Operations by label\<close>

abbreviation aggregates :: "update_operations \<Rightarrow> slot_hash_key set" where
  "aggregates ops \<equiv> {j. RBT.lookup ops (j, LAggregate) = Some Aggregate}"

definition ops_labelled :: "update_operations \<Rightarrow> bool" where
  "ops_labelled ops \<longleftrightarrow> (\<forall>k l op. RBT.lookup ops (k, l) = Some op \<longrightarrow> l = op_label op)"

text \<open>The aggregated nodes are closed under parents, and hold the parents of all nodes with an operation.\<close>

definition ops_closed :: "fork_infos_map \<Rightarrow> update_operations \<Rightarrow> bool" where
  "ops_closed infos ops \<longleftrightarrow> (\<forall>k l op i p. RBT.lookup ops (k, l) = Some op \<longrightarrow> infos k = Some i \<longrightarrow>
     fi_parent i = Some p \<longrightarrow> p \<in> aggregates ops)"

definition aggregates_closed :: "fork_infos_map \<Rightarrow> update_operations \<Rightarrow> bool" where
  "aggregates_closed infos ops \<longleftrightarrow> (\<forall>k i p. k \<in> aggregates ops \<longrightarrow> infos k = Some i \<longrightarrow>
     fi_parent i = Some p \<longrightarrow> p \<in> aggregates ops)"

definition ops_marks :: "update_operations \<Rightarrow> bool" where
  "ops_marks ops \<longleftrightarrow> (\<forall>k l op. RBT.lookup ops (k, l) = Some op \<longrightarrow> is_mark op \<longrightarrow> k \<in> aggregates ops)"

lemma aggregate_present:
  "ops_labelled ops \<Longrightarrow> RBT.lookup ops (j, LAggregate) \<noteq> None \<longleftrightarrow> j \<in> aggregates ops"
proof -
  have "op_label op = LAggregate \<Longrightarrow> op = Aggregate" for op by (cases op) auto
  then show "ops_labelled ops \<Longrightarrow> RBT.lookup ops (j, LAggregate) \<noteq> None \<longleftrightarrow> j \<in> aggregates ops"
    unfolding ops_labelled_def by (cases "RBT.lookup ops (j, LAggregate)") auto
qed

lemma aggregates_closed_ancestors:
  assumes t: "tree_ok infos root" and c: "aggregates_closed infos ops" and k: "infos k = Some i" "k \<in> aggregates ops"
  shows "ancestors infos k \<subseteq> aggregates ops"
  using t k
proof (induction rule: tree_up_induct)
  case (node k i)
  show ?case
  proof (cases "fi_parent i")
    case None
    then show ?thesis using ancestors_root [OF t node(1)] by simp
  next
    case (Some p)
    then have "p \<in> aggregates ops" using c node(1,3) by (auto simp: aggregates_closed_def)
    then show ?thesis using node(2) [OF Some] ancestors_step [OF t node(1) Some] by simp
  qed
qed

lemma batch_ok_entries:
  assumes t: "tree_ok infos root" and l: "ops_labelled ops" and c: "ops_closed infos ops" and m: "ops_marks ops"
  shows "batch_ok infos (rev (RBT.entries ops))"
  unfolding batch_ok_def
proof (intro conjI allI impI)
  have "sorted_wrt (<) (map fst (RBT.entries ops))"
    using RBT.sorted_entries [of ops] RBT.distinct_entries [of ops] by (simp add: strict_sorted_iff)
  then show "sorted_wrt (\<lambda>a b. fst b < fst a) (rev (RBT.entries ops))"
    by (simp add: sorted_wrt_rev sorted_wrt_map)
  fix k l op assume "((k, l), op) \<in> set (rev (RBT.entries ops))"
  then have lk: "RBT.lookup ops (k, l) = Some op" by (simp add: RBT.lookup_in_tree)
  show "l = op_label op" using lk \<open>ops_labelled ops\<close> by (auto simp: ops_labelled_def)
  show "pending (rev (RBT.entries ops)) k" if "is_mark op"
    using m lk that by (auto simp: ops_marks_def pending_def RBT.lookup_in_tree [symmetric])
  fix i p assume ip: "infos k = Some i \<and> fi_parent i = Some p"
  then show "pending (rev (RBT.entries ops)) p"
    using c lk by (auto simp: ops_closed_def pending_def RBT.lookup_in_tree [symmetric])
  show "p < k" using tree_parent [OF t, of k i p] ip slot_less_key by blast
qed

lemma aggregate_ancestors_loop_ok:
  assumes "ops_labelled ops" "distinct as" "\<And>ys a zs. as = ys @ a # zs \<Longrightarrow> a \<in> aggregates ops \<Longrightarrow> set zs \<subseteq> aggregates ops"
  shows "RBT.lookup (aggregate_ancestors_loop None ops as) =
    (\<lambda>(k, l). if l = LAggregate \<and> k \<in> set as then Some Aggregate else RBT.lookup ops (k, l))"
  using assms
proof (induction as arbitrary: ops)
  case (Cons a as)
  show ?case
  proof (cases "a \<in> aggregates ops")
    case True
    then have "set as \<subseteq> aggregates ops" using Cons.prems(3) [of "[]" a as] by simp
    then show ?thesis
      using True aggregate_present [OF Cons.prems(1), of a]
      by (auto simp: do_insert_aggregate_operation_def fun_eq_iff)
  next
    case False
    let ?ops = "RBT.insert (a, LAggregate) Aggregate ops"
    have "aggregate_ancestors_loop None ops (a # as) = aggregate_ancestors_loop None ?ops as"
      using False aggregate_present [OF Cons.prems(1), of a] by (simp add: do_insert_aggregate_operation_def)
    moreover have "ops_labelled ?ops" using Cons.prems(1) by (auto simp: ops_labelled_def)
    moreover have "set zs \<subseteq> aggregates ?ops" if "as = ys @ b # zs" "b \<in> aggregates ?ops" for ys b zs
    proof -
      have "b \<noteq> a" using Cons.prems(2) that(1) by auto
      then have "b \<in> aggregates ops" using that(2) by simp
      then have "set zs \<subseteq> aggregates ops" using Cons.prems(3) [of "a # ys" b zs] that(1) by simp
      then show ?thesis by auto
    qed
    ultimately show ?thesis using Cons.IH [of ?ops] Cons.prems(2) by (auto simp: fun_eq_iff)
  qed
qed (auto simp: fun_eq_iff)

text \<open>
  Inserting the aggregation of the ancestors of a node adds exactly these, if the loop does not stop
  at an ancestor that is aggregated while one further up is not.
\<close>

lemma insert_aggregate_gen:
  assumes t: "tree_ok (fork_infos self) root" and l: "ops_labelled ops"
    and c: "\<And>a. a \<in> ancestors (fork_infos self) k \<Longrightarrow> a \<in> aggregates ops \<Longrightarrow>
      ancestors (fork_infos self) a \<subseteq> aggregates ops"
  shows "\<exists>ops'. insert_aggregate_operations self ops k = Some ops' \<and>
    RBT.lookup ops' = (\<lambda>(j, l). if l = LAggregate \<and> fork_infos self k \<noteq> None \<and> j \<in> ancestors (fork_infos self) k
      then Some Aggregate else RBT.lookup ops (j, l))"
proof (cases "fork_infos self k")
  case None
  then show ?thesis
    by (simp add: insert_aggregate_operations_def do_insert_aggregate_operations_across_ancestors_def
      ancestor_iterator_absent)
next
  case (Some i)
  obtain as where as: "ancestor_iterator (fork_infos self) k = Some as" "set as = ancestors (fork_infos self) k" "distinct as"
    "\<And>ys a zs. as = ys @ a # zs \<Longrightarrow> set zs = ancestors (fork_infos self) a"
    using ancestor_iterator_ok [OF t Some] by blast
  have "set zs \<subseteq> aggregates ops" if "as = ys @ a # zs" "a \<in> aggregates ops" for ys a zs
  proof -
    have "a \<in> ancestors (fork_infos self) k" using that(1) as(2) by auto
    then show ?thesis using c that(2) as(4) [OF that(1)] by blast
  qed
  from aggregate_ancestors_loop_ok [OF l as(3) this] show ?thesis
    using as(1,2) Some
    by (simp add: insert_aggregate_operations_def do_insert_aggregate_operations_across_ancestors_def)
qed

lemma insert_aggregate_ok:
  assumes t: "tree_ok (fork_infos self) root" and l: "ops_labelled ops" and c: "aggregates_closed (fork_infos self) ops"
  shows "\<exists>ops'. insert_aggregate_operations self ops k = Some ops' \<and>
    RBT.lookup ops' = (\<lambda>(j, l). if l = LAggregate \<and> fork_infos self k \<noteq> None \<and> j \<in> ancestors (fork_infos self) k
      then Some Aggregate else RBT.lookup ops (j, l))"
proof (rule insert_aggregate_gen [OF t l])
  fix a assume "a \<in> ancestors (fork_infos self) k" "a \<in> aggregates ops"
  moreover from this obtain ai where "fork_infos self a = Some ai" by (auto simp: ancestors_def)
  ultimately show "ancestors (fork_infos self) a \<subseteq> aggregates ops" using aggregates_closed_ancestors [OF t c] by blast
qed

section \<open>Batches of votes\<close>

lemma ancestors_parent:
  assumes t: "tree_ok infos root" and a: "a \<in> ancestors infos k" "infos a = Some i" "fi_parent i = Some p"
  shows "p \<in> ancestors infos k"
proof -
  obtain pi where p: "infos p = Some pi" "a \<in> set (fi_children pi)" "key_slot p < key_slot a"
    using tree_parent [OF t a(2,3)] by blast
  have k: "k \<in> subtree infos a" "k \<noteq> a" using a(1) by (auto simp: ancestors_def)
  have "key_slot a < key_slot k" using subtree_slot [OF tree_okD(1) [OF t] k(1)] k(2) by simp
  then have "p \<noteq> k" using p(3) by auto
  moreover have "k \<in> subtree infos p" using subtree_trans [OF k(1)] subtree_of_child p(1,2) by metis
  ultimately show ?thesis using p(1) by (simp add: ancestors_def)
qed

lemma parent_ancestor:
  assumes t: "tree_ok infos root" and k: "infos k = Some i" "fi_parent i = Some p"
  shows "p \<in> ancestors infos k"
  using ancestors_step [OF t k] by simp

text \<open>The stake that a batch of votes moves to a node.\<close>

definition op_stake :: "update_operation option \<Rightarrow> u64" where
  "op_stake op = (case op of Some (Add s) \<Rightarrow> s | Some (Subtract s) \<Rightarrow> - s | _ \<Rightarrow> 0)"

definition ops_change :: "update_operations \<Rightarrow> slot_hash_key \<Rightarrow> u64" where
  "ops_change ops k = op_stake (RBT.lookup ops (k, LAdd)) + op_stake (RBT.lookup ops (k, LSubtract))"

lemma stake_change_entries:
  assumes l: "ops_labelled ops"
  shows "stake_change (rev (RBT.entries ops)) k = ops_change ops k"
proof -
  let ?g = "\<lambda>kl. if fst kl = k then op_stake (RBT.lookup ops kl) else 0"
  let ?f = "\<lambda>((j, l), op). if j = k then (case op of Add s \<Rightarrow> s | Subtract s \<Rightarrow> - s | _ \<Rightarrow> 0) else (0 :: u64)"
  have "stake_change (rev (RBT.entries ops)) k = sum_list (map ?f (RBT.entries ops))"
    unfolding stake_change_def rev_map [symmetric] sum_list_rev ..
  also have "\<dots> = sum_list (map ?g (map fst (RBT.entries ops)))"
    unfolding map_map
    by (rule arg_cong [where f = sum_list], rule map_cong [OF refl])
      (auto simp: RBT.lookup_in_tree [symmetric] op_stake_def)
  also have "\<dots> = sum ?g (set (map fst (RBT.entries ops)))"
    by (rule sum_list_distinct_conv_sum_set [OF RBT.distinct_entries])
  also have "\<dots> = sum ?g {(k, LAdd), (k, LSubtract)}"
  proof (rule sum.mono_neutral_cong)
    show "?g kl = 0" if "kl \<in> {(k, LAdd), (k, LSubtract)} - set (map fst (RBT.entries ops))" for kl
    proof -
      have "RBT.lookup ops kl = None"
        using that by (cases "RBT.lookup ops kl") (force simp: RBT.lookup_in_tree)+
      then show ?thesis by (simp add: op_stake_def)
    qed
    show "?g kl = 0" if "kl \<in> set (map fst (RBT.entries ops)) - {(k, LAdd), (k, LSubtract)}" for kl
    proof (cases "RBT.lookup ops kl")
      case (Some op)
      obtain j m where kl: "kl = (j, m)" by (cases kl)
      then have "m = op_label op" using l Some by (auto simp: ops_labelled_def)
      then show ?thesis using that Some kl by (cases op) (auto simp: op_stake_def)
    qed (simp add: op_stake_def)
  qed auto
  also have "\<dots> = ops_change ops k" by (simp add: ops_change_def)
  finally show ?thesis .
qed

text \<open>A batch that only moves stake.\<close>

definition vote_ops :: "fork_infos_map \<Rightarrow> update_operations \<Rightarrow> bool" where
  "vote_ops infos ops \<longleftrightarrow> ops_labelled ops \<and> ops_closed infos ops \<and>
     (\<forall>kl op. RBT.lookup ops kl = Some op \<longrightarrow> \<not> is_mark op)"

lemma vote_ops_empty: "vote_ops infos RBT.empty"
  by (simp add: vote_ops_def ops_labelled_def ops_closed_def)

lemma entry_stake_ok:
  assumes lab: "ops_labelled ops" and mk: "l = LAdd \<and> mk = Add \<or> l = LSubtract \<and> mk = Subtract"
  shows "\<exists>ops' s'. entry_stake ops (k, l) mk s = Some ops' \<and>
    RBT.lookup ops' = (RBT.lookup ops)((k, l) \<mapsto> mk s') \<and>
    op_stake (Some (mk s')) = op_stake (RBT.lookup ops (k, l)) + op_stake (Some (mk s))"
proof (cases "RBT.lookup ops (k, l)")
  case None
  then show ?thesis by (intro exI [of _ "RBT.insert (k, l) (mk s) ops"] exI [of _ s])
    (simp add: entry_stake_def op_stake_def)
next
  case (Some op)
  then have "op_label op = l" using lab by (auto simp: ops_labelled_def)
  then obtain t where t: "op = mk t" using mk by (cases op) auto
  then show ?thesis
    using Some mk
    by (intro exI [of _ "RBT.insert (k, l) (mk (t + s)) ops"] exI [of _ "t + s"])
      (auto simp: entry_stake_def update_stake_def op_stake_def)
qed

lemma move_stake_ok:
  assumes t: "tree_ok (fork_infos self) root" and v: "vote_ops (fork_infos self) ops"
    and mk: "l = LAdd \<and> mk = Add \<or> l = LSubtract \<and> mk = Subtract"
  shows "\<exists>ops'. Option.bind (entry_stake ops (k, l) mk s) (\<lambda>ops. insert_aggregate_operations self ops k) = Some ops' \<and>
    vote_ops (fork_infos self) ops' \<and>
    (\<forall>j. ops_change ops' j = ops_change ops j + (if j = k then op_stake (Some (mk s)) else 0))"
proof -
  let ?f = "fork_infos self"
  have lab: "ops_labelled ops" and cl: "ops_closed ?f ops" and nm: "\<And>kl op. RBT.lookup ops kl = Some op \<Longrightarrow> \<not> is_mark op"
    using v by (auto simp: vote_ops_def)
  obtain o1 s' where o1: "entry_stake ops (k, l) mk s = Some o1" "RBT.lookup o1 = (RBT.lookup ops)((k, l) \<mapsto> mk s')"
    "op_stake (Some (mk s')) = op_stake (RBT.lookup ops (k, l)) + op_stake (Some (mk s))"
    using entry_stake_ok [OF lab mk] by blast
  have lab1: "ops_labelled o1" using lab mk by (auto simp: ops_labelled_def o1(2))
  have agg: "aggregates o1 = aggregates ops" using mk by (auto simp: o1(2))
  have "aggregates_closed ?f o1" unfolding aggregates_closed_def agg using cl by (auto simp: ops_closed_def)
  from insert_aggregate_ok [OF t lab1 this, of k] obtain o2 where
    o2: "insert_aggregate_operations self o1 k = Some o2"
    "RBT.lookup o2 = (\<lambda>(j, l). if l = LAggregate \<and> ?f k \<noteq> None \<and> j \<in> ancestors ?f k
      then Some Aggregate else RBT.lookup o1 (j, l))" by blast
  have agg2: "aggregates o2 = aggregates ops \<union> (if ?f k \<noteq> None then ancestors ?f k else {})"
    using agg by (auto simp: o2(2))
  have "ops_labelled o2" using lab1 by (auto simp: ops_labelled_def o2(2) split: if_splits)
  moreover have "ops_closed ?f o2"
    unfolding ops_closed_def
  proof (intro allI impI)
    fix j m op i p assume h: "RBT.lookup o2 (j, m) = Some op" "?f j = Some i" "fi_parent i = Some p"
    then consider "?f k \<noteq> None" "j \<in> ancestors ?f k" | "j = k" | "RBT.lookup ops (j, m) = Some op"
      by (auto simp: o2(2) o1(2) split: if_splits)
    then show "p \<in> aggregates o2"
    proof cases
      case 1 then show ?thesis using ancestors_parent [OF t _ h(2,3)] agg2 by auto
    next
      case 2 then show ?thesis using parent_ancestor [OF t h(2,3)] agg2 h(2) by auto
    next
      case 3 then show ?thesis using cl h(2,3) agg2 by (auto simp: ops_closed_def)
    qed
  qed
  moreover have "\<not> is_mark op" if "RBT.lookup o2 kl = Some op" for kl op
    using that nm mk by (cases kl) (auto simp: o2(2) o1(2) is_mark_def split: if_splits)
  moreover have "ops_change o2 j = ops_change ops j + (if j = k then op_stake (Some (mk s)) else 0)" for j
    using mk o1(3) by (auto simp: ops_change_def o2(2) o1(2))
  ultimately show ?thesis using o1(1) o2(1) by (auto simp: vote_ops_def)
qed

section \<open>Traversals\<close>

definition diff_visits :: "fork_choice \<Rightarrow> slot_hash_key \<Rightarrow> slot_hash_key \<Rightarrow> bool" where
  "diff_visits self r2 x \<longleftrightarrow> (\<forall>rest reach. distinct reach \<longrightarrow> (\<exists>reach'.
     distinct reach' \<and> set reach' = set reach \<union> (subtree (fork_infos self) x - subtree (fork_infos self) r2) \<and>
     subtree_diff_loop self r2 (x # rest, reach) = subtree_diff_loop self r2 (rest, reach')))"

lemma diff_visits_list:
  assumes "\<And>c. c \<in> set cs \<Longrightarrow> diff_visits self r2 c" "distinct reach"
  shows "\<exists>reach'. distinct reach' \<and>
    set reach' = set reach \<union> ((\<Union>c \<in> set cs. subtree (fork_infos self) c) - subtree (fork_infos self) r2) \<and>
    subtree_diff_loop self r2 (cs @ rest, reach) = subtree_diff_loop self r2 (rest, reach')"
  using assms
proof (induction cs arbitrary: reach)
  case (Cons c cs)
  obtain r1 where r1: "distinct r1"
    "set r1 = set reach \<union> (subtree (fork_infos self) c - subtree (fork_infos self) r2)"
    "subtree_diff_loop self r2 (c # (cs @ rest), reach) = subtree_diff_loop self r2 (cs @ rest, r1)"
    using Cons.prems unfolding diff_visits_def by (meson list.set_intros(1))
  obtain r3 where r3: "distinct r3"
    "set r3 = set r1 \<union> ((\<Union>c \<in> set cs. subtree (fork_infos self) c) - subtree (fork_infos self) r2)"
    "subtree_diff_loop self r2 (cs @ rest, r1) = subtree_diff_loop self r2 (rest, r3)"
    using Cons.IH [OF _ r1(1)] Cons.prems(1) by auto
  have "set r3 = set reach \<union> ((\<Union>c \<in> set (c # cs). subtree (fork_infos self) c) - subtree (fork_infos self) r2)"
    unfolding r3(2) r1(2) by auto
  then show ?case using r1(3) r3(1,3) by (intro exI [of _ r3]) simp
qed auto

lemma diff_visits_node:
  assumes l: "links_ok (fork_infos self)" and x: "fork_infos self x = Some i"
    and out: "x \<in> subtree (fork_infos self) r2 \<longrightarrow> x = r2"
  shows "diff_visits self r2 x"
  using l x out
proof (induction rule: tree_down_induct)
  case (node x i)
  let ?f = "fork_infos self"
  show ?case
  proof (cases "x = r2")
    case True
    then show ?thesis
      unfolding diff_visits_def by (subst subtree_diff_loop.simps) auto
  next
    case False
    then have x: "x \<notin> subtree ?f r2" using node(3) by blast
    have c: "diff_visits self r2 c" if "c \<in> set (rev (fi_children i))" for c
    proof (rule node(2))
      show "c \<in> set (fi_children i)" using that by simp
      show "c \<in> subtree ?f r2 \<longrightarrow> c = r2"
      proof (intro impI, rule ccontr)
        assume "c \<in> subtree ?f r2" "c \<noteq> r2"
        then obtain p pi where "p \<in> subtree ?f r2" "?f p = Some pi" "c \<in> set (fi_children pi)"
          by (auto elim: subtree_parent)
        then show False using parent_unique [OF l _ node(1), of p] that x by auto
      qed
    qed
    show ?thesis
      unfolding diff_visits_def
    proof (intro allI impI)
      fix rest reach assume d: "distinct (reach :: slot_hash_key list)"
      have step: "subtree_diff_loop self r2 (x # rest, reach) =
          subtree_diff_loop self r2 (rev (fi_children i) @ rest, List.insert x reach)"
        using False node(1) by (subst subtree_diff_loop.simps) (simp add: fc_children_def)
      have "distinct (List.insert x reach)" using d by simp
      from diff_visits_list [of "rev (fi_children i)", OF c this] obtain r' where r': "distinct r'"
        "set r' = set (List.insert x reach) \<union>
          ((\<Union>c \<in> set (rev (fi_children i)). subtree ?f c) - subtree ?f r2)"
        "subtree_diff_loop self r2 (rev (fi_children i) @ rest, List.insert x reach) =
          subtree_diff_loop self r2 (rest, r')" by blast
      have "set r' = set reach \<union> (subtree ?f x - subtree ?f r2)"
        unfolding r'(2) subtree_unfold [of ?f x i, OF node(1)] using x by auto
      then show "\<exists>reach'. distinct reach' \<and> set reach' = set reach \<union> (subtree ?f x - subtree ?f r2) \<and>
          subtree_diff_loop self r2 (x # rest, reach) = subtree_diff_loop self r2 (rest, reach')"
        using r'(1,3) step by auto
    qed
  qed
qed

lemma subtree_diff_ok:
  assumes l: "links_ok (fork_infos self)" and x: "fork_infos self x \<noteq> None"
    and out: "x \<in> subtree (fork_infos self) r2 \<longrightarrow> x = r2"
  shows "\<exists>ks. subtree_diff self x r2 = Some ks \<and> distinct ks \<and>
    set ks = subtree (fork_infos self) x - subtree (fork_infos self) r2"
proof -
  obtain i where i: "fork_infos self x = Some i" using x by blast
  note visits = diff_visits_node [OF l i out, unfolded diff_visits_def, rule_format]
  from visits [of "[]" "[]", OF distinct.simps(1) [THEN iffD2, OF TrueI]] obtain ks where ks: "distinct ks"
      "set ks = set [] \<union> (subtree (fork_infos self) x - subtree (fork_infos self) r2)"
      "subtree_diff_loop self r2 ([x], []) = subtree_diff_loop self r2 ([], ks)"
    by blast
  have "subtree_diff_loop self r2 ([], ks) = Some ks" by (subst subtree_diff_loop.simps) simp
  then show ?thesis using i ks by (intro exI [of _ ks]) (simp add: subtree_diff_def)
qed

lemma remove_nodes_ok:
  assumes "distinct ks" "\<And>k. k \<in> set ks \<Longrightarrow> fork_infos self k \<noteq> None"
  shows "remove_nodes self ks = Some (self\<lparr>fork_infos := (fork_infos self) |` (- set ks)\<rparr>)"
  using assms
proof (induction ks arbitrary: self)
  case (Cons k ks)
  let ?s = "self\<lparr>fork_infos := (fork_infos self)(k := None)\<rparr>"
  have "remove_nodes ?s ks = Some (?s\<lparr>fork_infos := (fork_infos ?s) |` (- set ks)\<rparr>)"
    using Cons.prems by (intro Cons.IH) auto
  moreover have "((fork_infos self)(k := None)) |` (- set ks) = (fork_infos self) |` (- set (k # ks))"
    by (auto simp: restrict_map_def fun_eq_iff)
  ultimately show ?case using Cons.prems(2) by auto
next
  case Nil
  then show ?case by (cases self) (simp add: restrict_map_def)
qed

end
