(* ===== verification/Fork_Votes.thy ===== *)
theory Fork_Votes
  imports Fork_Batches
begin

text \<open>
  Votes and duplicate blocks: the invariant of the fork choice, and that adding votes and marking
  forks valid or invalid keep it.
\<close>

section \<open>Invariants\<close>

definition fc_inv :: "fork_choice \<Rightarrow> bool" where
  "fc_inv self \<longleftrightarrow> tree_ok (fork_infos self) (tree_root self) \<and> nodes_ok_but (fork_infos self) [] \<and>
     flags_ok (fork_infos self) \<and> best_below (fork_infos self)"

text \<open>The stake of the validators whose latest vote is for a node.\<close>

definition voted_stake :: "stake_env \<Rightarrow> (pubkey \<rightharpoonup> slot_hash_key) \<Rightarrow> slot_hash_key \<Rightarrow> u64" where
  "voted_stake env votes k = (\<Sum>pk \<in> {pk. votes pk = Some k}. stake_update env pk (key_slot k))"

definition votes_inv :: "stake_env \<Rightarrow> fork_choice \<Rightarrow> bool" where
  "votes_inv env self \<longleftrightarrow> finite (dom (latest_votes self)) \<and>
     (\<forall>k i. fork_infos self k = Some i \<longrightarrow> fi_stake_voted_at i = voted_stake env (latest_votes self) k)"

lemma fc_invD:
  assumes "fc_inv self"
  shows "tree_ok (fork_infos self) (tree_root self)" "links_ok (fork_infos self)" "nodes_ok_but (fork_infos self) []"
    "flags_ok (fork_infos self)" "best_below (fork_infos self)" "confirmed_closed (fork_infos self)"
    "fork_infos self k = Some i \<Longrightarrow> node_ok (fork_infos self) k i"
  using assms
  by (auto simp: fc_inv_def nodes_ok_but_def pending_def tree_ok_def confirmed_closed_def node_ok_def)

lemma voted_stake_update:
  assumes fin: "finite (dom votes)" and new: "votes pk \<noteq> Some n"
  shows "voted_stake env (votes(pk \<mapsto> n)) k = voted_stake env votes k
    + (if n = k then stake_update env pk (key_slot k) else 0)
    - (if votes pk = Some k then stake_update env pk (key_slot k) else 0)"
proof -
  let ?S = "{p. votes p = Some k}"
  have fS: "finite ?S" by (rule finite_subset [OF _ fin]) auto
  consider "n = k" | "n \<noteq> k" "votes pk = Some k" | "n \<noteq> k" "votes pk \<noteq> Some k" by blast
  then show ?thesis
  proof cases
    case 1
    then have "{p. (votes(pk \<mapsto> n)) p = Some k} = insert pk ?S" "pk \<notin> ?S" using new by auto
    then show ?thesis using fS 1 new by (simp add: voted_stake_def add.commute)
  next
    case 2
    then have "{p. (votes(pk \<mapsto> n)) p = Some k} = ?S - {pk}" "pk \<in> ?S" by auto
    then show ?thesis using fS 2 by (simp add: voted_stake_def sum_diff1)
  next
    case 3
    then have "{p. (votes(pk \<mapsto> n)) p = Some k} = ?S" by auto
    then show ?thesis using 3 by (simp add: voted_stake_def)
  qed
qed

section \<open>Adding votes\<close>

lemma subtract_old_vote_ok:
  assumes t: "tree_ok (fork_infos self) root" and v: "vote_ops (fork_infos self) ops"
    and newer: "\<And>old. old_vote = Some old \<Longrightarrow>
      (if key_slot n = key_slot old then key_hash n < key_hash old else key_slot n > key_slot old)"
  shows "\<exists>ops'. subtract_old_vote env self ops pk n old_vote = Some ops' \<and> vote_ops (fork_infos self) ops' \<and>
    (\<forall>j. ops_change ops' j = ops_change ops j -
      (if old_vote = Some j then stake_update env pk (key_slot j) else 0))"
proof (cases old_vote)
  case None
  then show ?thesis using v by (simp add: subtract_old_vote_def)
next
  case (Some old)
  let ?s = "stake_update env pk (key_slot old)"
  show ?thesis
  proof (cases "?s > 0")
    case False
    then have "?s = 0" by (simp add: word_gt_0)
    then show ?thesis using Some v newer [OF Some] False by (auto simp: subtract_old_vote_def)
  next
    case True
    have "subtract_old_vote env self ops pk n old_vote =
        Option.bind (entry_stake ops (old, LSubtract) Subtract ?s) (\<lambda>ops. insert_aggregate_operations self ops old)"
      using True Some newer [OF Some] by (simp add: subtract_old_vote_def Let_def)
    moreover obtain ops' where "Option.bind (entry_stake ops (old, LSubtract) Subtract ?s)
        (\<lambda>ops. insert_aggregate_operations self ops old) = Some ops'" "vote_ops (fork_infos self) ops'"
      "\<And>j. ops_change ops' j = ops_change ops j + (if j = old then op_stake (Some (Subtract ?s)) else 0)"
      using move_stake_ok [OF t v, of LSubtract Subtract old ?s] by blast
    ultimately show ?thesis using Some by (auto simp: op_stake_def)
  qed
qed

lemma generate_loop_ok:
  assumes "tree_ok (fork_infos self) (tree_root self)" "vote_ops (fork_infos self) ops" "finite (dom (latest_votes self))"
    "distinct (map fst vs)" "fst ` set vs \<inter> dom observed = {}"
  shows "\<exists>self' ops'. generate_loop env vs self ops observed = Some (self', ops') \<and>
    fork_infos self' = fork_infos self \<and> tree_root self' = tree_root self \<and>
    vote_ops (fork_infos self) ops' \<and> finite (dom (latest_votes self')) \<and>
    (\<forall>k. ops_change ops' k - ops_change ops k =
      voted_stake env (latest_votes self') k - voted_stake env (latest_votes self) k)"
  using assms
proof (induction vs arbitrary: self ops observed)
  case (Cons v vs)
  obtain pk n where v: "v = (pk, n)" by (cases v)
  let ?old = "latest_votes self pk"
  let ?stale = "case ?old of Some latest \<Rightarrow> key_slot n < key_slot latest \<or>
      (key_slot n = key_slot latest \<and> key_hash n \<ge> key_hash latest) | None \<Rightarrow> False"
  have obs: "observed pk = None" using Cons.prems(5) by (auto simp: v)
  have obs': "fst ` set vs \<inter> dom observed = {}" "fst ` set vs \<inter> dom (observed(pk \<mapsto> key_slot n)) = {}"
    using Cons.prems(4,5) by (auto simp: v)
  have d: "distinct (map fst vs)" using Cons.prems(4) by simp
  show ?case
  proof (cases "key_slot n < key_slot (tree_root self)")
    case True
    then show ?thesis using Cons.IH [OF Cons.prems(1-3) d obs'(1)] by (simp add: v)
  next
    case False
    show ?thesis
    proof (cases ?stale)
      case True
      then have "generate_loop env (v # vs) self ops observed =
          generate_loop env vs self ops (observed(pk \<mapsto> key_slot n))"
        using False obs by (simp add: v Let_def)
      then show ?thesis by (simp only:) (rule Cons.IH [OF Cons.prems(1-3) d obs'(2)])
    next
      case fresh: False
      let ?self = "self\<lparr>latest_votes := (latest_votes self)(pk \<mapsto> n)\<rparr>"
      have t: "tree_ok (fork_infos ?self) (tree_root ?self)" and vo: "vote_ops (fork_infos ?self) ops"
        using Cons.prems(1,2) by simp_all
      have newer: "if key_slot n = key_slot old then key_hash n < key_hash old else key_slot n > key_slot old"
        if "?old = Some old" for old using fresh that by (auto simp: not_less order.order_iff_strict)
      then have "?old \<noteq> Some n" by fastforce
      note vst = voted_stake_update [OF Cons.prems(3) this, of env]
      obtain o1 where o1: "subtract_old_vote env ?self ops pk n ?old = Some o1" "vote_ops (fork_infos ?self) o1"
        "\<And>j. ops_change o1 j = ops_change ops j - (if ?old = Some j then stake_update env pk (key_slot j) else 0)"
        using subtract_old_vote_ok [OF t vo newer, of ?old env pk] by blast
      obtain o2 where o2: "Option.bind (entry_stake o1 (n, LAdd) Add (stake_update env pk (key_slot n)))
          (\<lambda>ops. insert_aggregate_operations ?self ops n) = Some o2" "vote_ops (fork_infos ?self) o2"
        "\<And>j. ops_change o2 j = ops_change o1 j + (if j = n then op_stake (Some (Add (stake_update env pk (key_slot n)))) else 0)"
        using move_stake_ok [OF t o1(2), of LAdd Add n "stake_update env pk (key_slot n)"] by blast
      have "generate_loop env (v # vs) self ops observed = generate_loop env vs ?self o2 (observed(pk \<mapsto> key_slot n))"
        using False fresh obs o1(1) o2(1) by (auto simp: v Let_def bind_eq_Some_conv)
      moreover have "finite (dom (latest_votes ?self))" using Cons.prems(3) by simp
      from Cons.IH [OF t o2(2) this d obs'(2)] obtain s3 o3 where s3:
        "generate_loop env vs ?self o2 (observed(pk \<mapsto> key_slot n)) = Some (s3, o3)"
        "fork_infos s3 = fork_infos ?self" "tree_root s3 = tree_root ?self" "vote_ops (fork_infos ?self) o3"
        "finite (dom (latest_votes s3))" "\<And>k. ops_change o3 k - ops_change o2 k =
          voted_stake env (latest_votes s3) k - voted_stake env (latest_votes ?self) k"
        by blast
      moreover have "ops_change o3 k - ops_change ops k =
          voted_stake env (latest_votes s3) k - voted_stake env (latest_votes self) k" for k
      proof -
        have e: "ops_change o2 k - ops_change ops k =
            voted_stake env (latest_votes ?self) k - voted_stake env (latest_votes self) k"
          using vst [of k] by (simp add: o2(3) o1(3) op_stake_def)
        have "ops_change o3 k - ops_change ops k =
            (ops_change o3 k - ops_change o2 k) + (ops_change o2 k - ops_change ops k)" by simp
        also have "\<dots> = (voted_stake env (latest_votes s3) k - voted_stake env (latest_votes ?self) k) +
            (voted_stake env (latest_votes ?self) k - voted_stake env (latest_votes self) k)"
          by (simp only: s3(6) e)
        also have "\<dots> = voted_stake env (latest_votes s3) k - voted_stake env (latest_votes self) k" by simp
        finally show ?thesis .
      qed
      ultimately show ?thesis by (intro exI [of _ s3] exI [of _ o3]) simp
    qed
  qed
qed simp

text \<open>Processing a closed batch keeps the invariant of the tree.\<close>

lemma process_ops_ok:
  assumes inv: "fc_inv self" and l: "ops_labelled ops" and c: "ops_closed (fork_infos self) ops" and m: "ops_marks ops"
    and u: "\<And>k s i. RBT.lookup ops (k, LMarkInvalid s) = Some (MarkInvalid s) \<Longrightarrow> fork_infos self k = Some i \<Longrightarrow>
      \<not> fi_is_duplicate_confirmed i \<and> s \<le> key_slot k"
  shows "\<exists>self'. process_update_operations self ops = Some self' \<and> fc_inv self' \<and>
    tree_shape (fork_infos self') = tree_shape (fork_infos self) \<and>
    latest_votes self' = latest_votes self \<and> tree_root self' = tree_root self \<and>
    (\<forall>j i. fork_infos self j = Some i \<longrightarrow> (\<exists>i'. fork_infos self' j = Some i' \<and>
       fi_stake_voted_at i' = fi_stake_voted_at i + ops_change ops j))"
proof -
  let ?L = "rev (RBT.entries ops)"
  note t = fc_invD(1) [OF inv] and lk = fc_invD(2) [OF inv]
  have entry: "RBT.lookup ops (k, lab) = Some op \<and> lab = op_label op" if "((k, lab), op) \<in> set ?L" for k lab op
    using that l by (auto simp: RBT.lookup_in_tree ops_labelled_def)
  have b: "batch_ok (fork_infos self) ?L" by (rule batch_ok_entries [OF t l c m])
  have ok: "nodes_ok_but (fork_infos self) ?L"
    using fc_invD(3) [OF inv] by (auto simp: nodes_ok_but_def pending_def)
  have mu: "marks_unconfirmed (fork_infos self) ?L"
    unfolding marks_unconfirmed_def using entry u by fastforce
  obtain self' where s': "process_loop self ?L = Some self'" "nodes_ok_but (fork_infos self') []"
    "tree_shape (fork_infos self') = tree_shape (fork_infos self)" "latest_votes self' = latest_votes self"
    "tree_root self' = tree_root self"
    "\<forall>j i. fork_infos self j = Some i \<longrightarrow> (\<exists>i'. fork_infos self' j = Some i' \<and>
       fi_stake_voted_at i' = fi_stake_voted_at i + stake_change ?L j)"
    using process_loop_ok [OF lk b ok mu] by blast
  have dom': "fork_infos s k = Some i \<Longrightarrow> dom (fork_infos s) = dom (fork_infos self) \<Longrightarrow> \<exists>i. fork_infos self k = Some i" for s k i
    by auto
  have "flags_ok (fork_infos self') \<and> dom (fork_infos self') = dom (fork_infos self)"
  proof (rule process_loop_invariant [OF s'(1) lk])
    fix s k lab op s'
    assume h: "((k, lab), op) \<in> set ?L" "links_ok (fork_infos s)"
      "flags_ok (fork_infos s) \<and> dom (fork_infos s) = dom (fork_infos self)" "process_operation s k op = Some s'"
    have d: "dom (fork_infos s') = dom (fork_infos self)"
      using tree_shape_dom [OF process_operation_shape(1) [OF h(2,4)]] h(3) by simp
    show "flags_ok (fork_infos s') \<and> dom (fork_infos s') = dom (fork_infos self)"
    proof (cases "fork_infos s k")
      case None
      then show ?thesis using process_operation_absent [OF None] h d by simp
    next
      case (Some i)
      then obtain i0 where "fork_infos self k = Some i0" using h(3) dom' by blast
      then have "\<forall>x. op = MarkInvalid x \<longrightarrow> x \<le> key_slot k" using entry [OF h(1)] u by auto
      then show ?thesis using process_operation_flags [OF h(2) _ h(4)] h(3) d by blast
    qed
  qed (use fc_invD(4) [OF inv] in simp)
  moreover have "best_below (fork_infos self')"
    by (rule process_loop_invariant [OF s'(1) lk, where I = "\<lambda>s. best_below (fork_infos s)"])
      (use fc_invD(5) [OF inv] process_operation_best_below in auto)
  ultimately have "fc_inv self'"
    using s'(2,5) tree_ok_shape [OF s'(3) [symmetric] t] by (simp add: fc_inv_def)
  then show ?thesis using s' stake_change_entries [OF l] by (simp add: process_update_operations_def)
qed

text \<open>A batch without marks changes neither the confirmed nor the invalid blocks.\<close>

lemma process_ops_validity:
  assumes inv: "fc_inv self" and p: "process_update_operations self ops = Some self'"
    and m: "\<And>kl op. RBT.lookup ops kl = Some op \<Longrightarrow> \<not> is_mark op" and j: "fork_infos self j = Some i"
  shows "\<exists>i'. fork_infos self' j = Some i' \<and> fi_is_duplicate_confirmed i' = fi_is_duplicate_confirmed i \<and>
    fi_latest_invalid_ancestor i' = fi_latest_invalid_ancestor i"
proof -
  have nm: "\<not> is_mark op" if "(kl, op) \<in> set (rev (RBT.entries ops))" for kl op
    using that m by (auto simp: RBT.lookup_in_tree)
  have "\<not> marked_invalid (rev (RBT.entries ops)) j s" for s
    using nm [of "(j, LMarkInvalid s)" "MarkInvalid s"] by (auto simp: marked_invalid_def is_mark_def)
  moreover have "(\<forall>v. op \<noteq> MarkValid v) \<and> (\<forall>t. op = MarkInvalid t \<longrightarrow> l = LMarkInvalid 0 \<and> t = 0 \<and> 0 \<le> key_slot k)"
    if "((k, l), op) \<in> set (rev (RBT.entries ops))" for k l op
    using nm [OF that] by (auto simp: is_mark_def)
  ultimately show ?thesis
    using process_loop_validity [of self _ self' 0 j i] p fc_invD(2,4,6) [OF inv] j
    unfolding process_update_operations_def by (metis (no_types, lifting))
qed

lemma add_votes_ok:
  assumes inv: "fc_inv self" and v: "votes_inv env self" and d: "distinct (map fst vs)"
  shows "\<exists>self' best. add_votes env self vs = Some (self', best) \<and> best_overall_slot self' = Some best \<and>
    fc_inv self' \<and> votes_inv env self' \<and>
    tree_shape (fork_infos self') = tree_shape (fork_infos self) \<and> tree_root self' = tree_root self"
proof -
  have t: "tree_ok (fork_infos self) (tree_root self)" by (rule fc_invD(1) [OF inv])
  obtain s1 ops where s1: "generate_loop env vs self RBT.empty Map.empty = Some (s1, ops)"
    "fork_infos s1 = fork_infos self" "tree_root s1 = tree_root self" "vote_ops (fork_infos self) ops"
    "finite (dom (latest_votes s1))" "\<And>k. ops_change ops k - ops_change RBT.empty k =
      voted_stake env (latest_votes s1) k - voted_stake env (latest_votes self) k"
    using generate_loop_ok [OF t vote_ops_empty _ d, of Map.empty env] v by (auto simp: votes_inv_def)
  have inv1: "fc_inv s1" using inv s1(2,3) by (simp add: fc_inv_def)
  have o: "ops_labelled ops" "ops_closed (fork_infos s1) ops" "\<And>kl op. RBT.lookup ops kl = Some op \<Longrightarrow> \<not> is_mark op"
    using s1(2,4) by (auto simp: vote_ops_def)
  then have "ops_marks ops" by (auto simp: ops_marks_def)
  moreover have "\<not> fi_is_duplicate_confirmed i \<and> s \<le> key_slot k"
    if "RBT.lookup ops (k, LMarkInvalid s) = Some (MarkInvalid s)" for k s i
    using o(3) [OF that] by (simp add: is_mark_def)
  ultimately obtain s2 where s2: "process_update_operations s1 ops = Some s2" "fc_inv s2"
    "tree_shape (fork_infos s2) = tree_shape (fork_infos s1)" "latest_votes s2 = latest_votes s1"
    "tree_root s2 = tree_root s1"
    "\<And>j i. fork_infos s1 j = Some i \<Longrightarrow> \<exists>i'. fork_infos s2 j = Some i' \<and>
       fi_stake_voted_at i' = fi_stake_voted_at i + ops_change ops j"
    using process_ops_ok [OF inv1 o(1,2)] by blast
  have zero: "ops_change RBT.empty k = 0" for k by (simp add: ops_change_def op_stake_def)
  have "fi_stake_voted_at i' = voted_stake env (latest_votes s2) k" if k: "fork_infos s2 k = Some i'" for k i'
  proof -
    obtain i where i: "fork_infos self k = Some i" using tree_shape_Some [OF s2(3) k] s1(2) by auto
    then have "fi_stake_voted_at i = voted_stake env (latest_votes self) k" using v by (simp add: votes_inv_def)
    then show ?thesis using s2(6) [of k i] i k s1(2) s1(6) [of k] s2(4) zero by auto
  qed
  then have "votes_inv env s2" using s1(5) s2(4) by (simp add: votes_inv_def)
  moreover obtain best where "best_overall_slot s2 = Some best"
    using tree_okD(2) [OF fc_invD(1) [OF s2(2)]] by (auto simp: best_overall_slot_def best_slot_def)
  moreover from this have "add_votes env self vs = Some (s2, best)"
    using s1(1) s2(1) by (simp add: add_votes_def generate_update_operations_def)
  ultimately show ?thesis using s2 s1(2,3) by auto
qed

section \<open>Duplicate blocks\<close>

lemma mark_subtree_loop_lookup:
  assumes "is_mark v" "ops_labelled ops" "distinct ks" "set ks \<inter> aggregates ops = {}"
  shows "RBT.lookup (mark_subtree_loop v ops ks) = (\<lambda>(j, l). if j \<in> set ks \<and> l = LAggregate then Some Aggregate
    else if j \<in> set ks \<and> l = op_label v then Some v else RBT.lookup ops (j, l))"
  using assms
proof (induction ks arbitrary: ops)
  case (Cons k ks)
  let ?o = "RBT.insert (k, LAggregate) Aggregate (RBT.insert (k, op_label v) v ops)"
  have "RBT.lookup ops (k, LAggregate) = None"
    using Cons.prems(2,4) aggregate_present [of ops k] by auto
  then have step: "fst (do_insert_aggregate_operation ops (Some v) k) = ?o"
    using Cons.prems(1) by (cases v) (simp_all add: do_insert_aggregate_operation_def is_mark_def)
  have "op_label v \<noteq> LAggregate" using Cons.prems(1) by (cases v) (simp_all add: is_mark_def)
  then have "ops_labelled ?o" using Cons.prems(2) by (auto simp: ops_labelled_def)
  moreover have "set ks \<inter> aggregates ?o = {}" using Cons.prems(3,4) \<open>op_label v \<noteq> LAggregate\<close> by auto
  ultimately have "RBT.lookup (mark_subtree_loop v ?o ks) = (\<lambda>(j, l). if j \<in> set ks \<and> l = LAggregate then Some Aggregate
    else if j \<in> set ks \<and> l = op_label v then Some v else RBT.lookup ?o (j, l))"
    using Cons.IH [of ?o] Cons.prems(1,3) by simp
  then show ?case unfolding mark_subtree_loop.simps step by (auto simp: fun_eq_iff)
qed (auto simp: fun_eq_iff)

text \<open>The batch that marks the fork starting at a node.\<close>

lemma mark_batch_ok:
  assumes t: "tree_ok (fork_infos self) root" and k: "fork_infos self k = Some i"
    and m: "is_mark v" and ks: "distinct ks" "set ks = subtree (fork_infos self) k"
  shows "\<exists>ops. insert_aggregate_operations self (mark_subtree_loop v RBT.empty ks) k = Some ops \<and>
    ops_labelled ops \<and> ops_closed (fork_infos self) ops \<and> ops_marks ops \<and>
    (\<forall>j l op. RBT.lookup ops (j, l) = Some op \<longleftrightarrow>
      (l = LAggregate \<and> op = Aggregate \<and> (j \<in> subtree (fork_infos self) k \<or> j \<in> ancestors (fork_infos self) k)) \<or>
      (l = op_label v \<and> op = v \<and> j \<in> subtree (fork_infos self) k))"
proof -
  let ?f = "fork_infos self" and ?o = "mark_subtree_loop v RBT.empty ks"
  note l = tree_okD(1) [OF t]
  have lv: "op_label v \<noteq> LAggregate" using m by (cases v) (simp_all add: is_mark_def)
  have o: "RBT.lookup ?o = (\<lambda>(j, l). if j \<in> subtree ?f k \<and> l = LAggregate then Some Aggregate
      else if j \<in> subtree ?f k \<and> l = op_label v then Some v else None)"
    using mark_subtree_loop_lookup [OF m, of RBT.empty ks] ks by (simp add: ops_labelled_def fun_eq_iff)
  have lab: "ops_labelled ?o" using lv by (auto simp: ops_labelled_def o split: if_splits)
  have "a \<notin> subtree ?f k" if "a \<in> ancestors ?f k" for a
  proof
    assume "a \<in> subtree ?f k"
    moreover have "k \<in> subtree ?f a" "a \<noteq> k" using that by (auto simp: ancestors_def)
    ultimately show False using subtree_slot [OF l] by (metis less_asym)
  qed
  then have "ancestors ?f a \<subseteq> aggregates ?o" if "a \<in> ancestors ?f k" "a \<in> aggregates ?o" for a
    using that by (auto simp: o split: if_splits)
  from insert_aggregate_gen [OF t lab this] obtain ops where ops:
    "insert_aggregate_operations self ?o k = Some ops"
    "RBT.lookup ops = (\<lambda>(j, l). if l = LAggregate \<and> ?f k \<noteq> None \<and> j \<in> ancestors ?f k
      then Some Aggregate else RBT.lookup ?o (j, l))" by blast
  have look: "RBT.lookup ops (j, l) = Some op \<longleftrightarrow>
      (l = LAggregate \<and> op = Aggregate \<and> (j \<in> subtree ?f k \<or> j \<in> ancestors ?f k)) \<or>
      (l = op_label v \<and> op = v \<and> j \<in> subtree ?f k)" for j l op
    unfolding ops(2) o using k lv by auto
  have agg: "aggregates ops = subtree ?f k \<union> ancestors ?f k" using look lv by auto
  have "ops_labelled ops" unfolding ops_labelled_def look by auto
  moreover have "ops_closed ?f ops"
    unfolding ops_closed_def
  proof (intro allI impI)
    fix j lab op ji p assume h: "RBT.lookup ops (j, lab) = Some op" "?f j = Some ji" "fi_parent ji = Some p"
    then have "j \<in> ancestors ?f k \<or> j = k \<or> (j \<in> subtree ?f k \<and> j \<noteq> k)" using look by auto
    then show "p \<in> aggregates ops"
    proof (elim disjE conjE)
      assume "j \<in> subtree ?f k" "j \<noteq> k"
      then obtain q qi where q: "q \<in> subtree ?f k" "?f q = Some qi" "j \<in> set (fi_children qi)" by (auto elim: subtree_parent)
      then have "q = p" using links_okD(4) [OF l q(2,3)] h(2,3) by auto
      then show ?thesis using q(1) agg by simp
    qed (use ancestors_parent [OF t _ h(2,3)] parent_ancestor [OF t h(2,3)] agg in auto)
  qed
  moreover have "ops_marks ops"
    unfolding ops_marks_def using look lv agg by (auto simp: is_mark_def)
  ultimately show ?thesis using ops(1) look by blast
qed

lemma confirmed_up:
  assumes c: "confirmed_closed infos" and n: "n \<in> subtree infos k" "node_confirmed infos n"
  shows "node_confirmed infos k"
  using n
proof induction
  case (subtree_child n i c)
  then have "fi_is_duplicate_confirmed i"
    using c by (auto simp: confirmed_closed_def confirmed_ok_def)
  then show ?case using subtree_child by simp
qed

lemma subtree_diff_default:
  assumes t: "tree_ok (fork_infos self) root" and d: "fork_infos self default_key = None" and k: "fork_infos self k \<noteq> None"
  shows "\<exists>ks. subtree_diff self k default_key = Some ks \<and> distinct ks \<and> set ks = subtree (fork_infos self) k"
proof -
  note l = tree_okD(1) [OF t]
  have "subtree (fork_infos self) default_key = {default_key}"
    using subtree_cases_child [of _ "fork_infos self" default_key] d by auto
  moreover have "default_key \<notin> subtree (fork_infos self) k" using subtree_dom [OF l k] d by blast
  moreover have "k \<noteq> default_key" using d k by auto
  ultimately show ?thesis using subtree_diff_ok [OF l k, of default_key] by auto
qed

text \<open>
  Marking a block invalid makes exactly its subtree non-candidates, and changes neither other
  blocks' validity nor what is confirmed.
\<close>

lemma mark_invalid_ok:
  assumes inv: "fc_inv self" and k: "fork_infos self k = Some i" "\<not> fi_is_duplicate_confirmed i"
    and d: "fork_infos self default_key = None"
  shows "\<exists>self'. mark_fork_invalid_candidate self k = Some self' \<and> fc_inv self' \<and>
    tree_shape (fork_infos self') = tree_shape (fork_infos self) \<and>
    latest_votes self' = latest_votes self \<and> tree_root self' = tree_root self \<and>
    (\<forall>j ij. fork_infos self j = Some ij \<longrightarrow> (\<exists>ij'. fork_infos self' j = Some ij' \<and>
       fi_stake_voted_at ij' = fi_stake_voted_at ij \<and>
       fi_is_duplicate_confirmed ij' = fi_is_duplicate_confirmed ij \<and>
       fi_latest_invalid_ancestor ij' = (if j \<in> subtree (fork_infos self) k
         then mark_invalid_ancestor (key_slot k) (fi_latest_invalid_ancestor ij) else fi_latest_invalid_ancestor ij)))"
proof -
  let ?f = "fork_infos self" and ?v = "MarkInvalid (key_slot k)"
  note t = fc_invD(1) [OF inv] and l = fc_invD(2) [OF inv]
  obtain ks where ks: "subtree_diff self k default_key = Some ks" "distinct ks" "set ks = subtree ?f k"
    using subtree_diff_default [OF t d] k(1) by auto
  obtain ops where ops: "insert_aggregate_operations self (mark_subtree_loop ?v RBT.empty ks) k = Some ops"
    "ops_labelled ops" "ops_closed ?f ops" "ops_marks ops"
    "\<And>j l op. RBT.lookup ops (j, l) = Some op \<longleftrightarrow>
      (l = LAggregate \<and> op = Aggregate \<and> (j \<in> subtree ?f k \<or> j \<in> ancestors ?f k)) \<or>
      (l = op_label ?v \<and> op = ?v \<and> j \<in> subtree ?f k)"
    using mark_batch_ok [OF t k(1) _ ks(2,3), of ?v] by (auto simp: is_mark_def)
  have below: "\<not> fi_is_duplicate_confirmed ij \<and> key_slot k \<le> key_slot j" if "j \<in> subtree ?f k" "?f j = Some ij" for j ij
    using that confirmed_up [OF fc_invD(6) [OF inv] that(1)] k subtree_slot [OF l that(1)] by auto
  obtain s' where s': "process_update_operations self ops = Some s'" "fc_inv s'"
    "tree_shape (fork_infos s') = tree_shape ?f" "latest_votes s' = latest_votes self" "tree_root s' = tree_root self"
    "\<And>j i. ?f j = Some i \<Longrightarrow> \<exists>i'. fork_infos s' j = Some i' \<and>
       fi_stake_voted_at i' = fi_stake_voted_at i + ops_change ops j"
    using process_ops_ok [OF inv ops(2-4)] ops(5) below by (auto 0 3)
  have "RBT.lookup ops (j, LAdd) = None" "RBT.lookup ops (j, LSubtract) = None" for j
    using ops(5) [of j LAdd] ops(5) [of j LSubtract] by auto
  then have zero: "ops_change ops j = 0" for j by (simp add: ops_change_def op_stake_def)
  let ?L = "rev (RBT.entries ops)"
  have p: "process_loop self ?L = Some s'" using s'(1) by (simp add: process_update_operations_def)
  have entry: "((j, l), op) \<in> set ?L \<longleftrightarrow> RBT.lookup ops (j, l) = Some op" for j l op by (simp add: RBT.lookup_in_tree)
  have marked: "marked_invalid ?L j (key_slot k) \<longleftrightarrow> j \<in> subtree ?f k" for j
    unfolding marked_invalid_def entry ops(5) by simp
  have marks: "(\<forall>v. op \<noteq> MarkValid v) \<and> (\<forall>x. op = MarkInvalid x \<longrightarrow> lab = LMarkInvalid (key_slot k) \<and> x = key_slot k \<and> key_slot k \<le> key_slot j)"
    if "((j, lab), op) \<in> set ?L" for j lab op
    using that subtree_slot [OF l, of j k] unfolding entry ops(5) by auto
  have "\<exists>ij'. fork_infos s' j = Some ij' \<and> fi_is_duplicate_confirmed ij' = fi_is_duplicate_confirmed ij \<and>
       fi_latest_invalid_ancestor ij' = (if j \<in> subtree ?f k
         then mark_invalid_ancestor (key_slot k) (fi_latest_invalid_ancestor ij) else fi_latest_invalid_ancestor ij)"
    if "?f j = Some ij" for j ij
    using process_loop_validity [OF p l fc_invD(4,6) [OF inv] marks that] unfolding marked by blast
  moreover have "mark_fork_invalid_candidate self k = Some s'"
    using k ks(1) ops(1) s'(1) by (simp add: mark_fork_invalid_candidate_def)
  ultimately show ?thesis using s'(2-6) zero by fastforce
qed

lemma newly_confirmed_loop_ok:
  assumes "\<And>a. a \<in> set as \<Longrightarrow> fork_infos self a \<noteq> None"
  shows "newly_confirmed_loop self as = Some (filter (\<lambda>a. \<not> node_confirmed (fork_infos self) a) as)"
  using assms
proof (induction as)
  case (Cons a as)
  obtain i where "fork_infos self a = Some i" using Cons.prems [of a] by auto
  then show ?case using Cons by (simp add: is_duplicate_confirmed_def)
qed simp

lemma mark_valid_ok:
  assumes inv: "fc_inv self" and k: "fork_infos self k = Some i" and d: "fork_infos self default_key = None"
  shows "\<exists>self' as. mark_fork_valid_candidate self k =
      Some (self', filter (\<lambda>a. \<not> node_confirmed (fork_infos self) a) (k # as)) \<and>
    ancestor_iterator (fork_infos self) k = Some as \<and> fc_inv self' \<and>
    tree_shape (fork_infos self') = tree_shape (fork_infos self) \<and>
    latest_votes self' = latest_votes self \<and> tree_root self' = tree_root self \<and>
    (\<forall>j ij. fork_infos self j = Some ij \<longrightarrow> (\<exists>ij'. fork_infos self' j = Some ij' \<and>
       fi_stake_voted_at ij' = fi_stake_voted_at ij)) \<and>
    node_confirmed (fork_infos self') k"
proof -
  let ?f = "fork_infos self" and ?v = "MarkValid (key_slot k)"
  note t = fc_invD(1) [OF inv] and l = fc_invD(2) [OF inv]
  obtain ks where ks: "subtree_diff self k default_key = Some ks" "distinct ks" "set ks = subtree ?f k"
    using subtree_diff_default [OF t d] k(1) by auto
  obtain ops where ops: "insert_aggregate_operations self (mark_subtree_loop ?v RBT.empty ks) k = Some ops"
    "ops_labelled ops" "ops_closed ?f ops" "ops_marks ops"
    "\<And>j l op. RBT.lookup ops (j, l) = Some op \<longleftrightarrow>
      (l = LAggregate \<and> op = Aggregate \<and> (j \<in> subtree ?f k \<or> j \<in> ancestors ?f k)) \<or>
      (l = op_label ?v \<and> op = ?v \<and> j \<in> subtree ?f k)"
    using mark_batch_ok [OF t k _ ks(2,3), of ?v] by (auto simp: is_mark_def)
  obtain s' where s': "process_update_operations self ops = Some s'" "fc_inv s'"
    "tree_shape (fork_infos s') = tree_shape ?f" "latest_votes s' = latest_votes self" "tree_root s' = tree_root self"
    "\<And>j i. ?f j = Some i \<Longrightarrow> \<exists>i'. fork_infos s' j = Some i' \<and>
       fi_stake_voted_at i' = fi_stake_voted_at i + ops_change ops j"
    using process_ops_ok [OF inv ops(2-4)] ops(5) by auto
  have "RBT.lookup ops (j, LAdd) = None" "RBT.lookup ops (j, LSubtract) = None" for j
    using ops(5) [of j LAdd] ops(5) [of j LSubtract] by auto
  then have zero: "ops_change ops j = 0" for j by (simp add: ops_change_def op_stake_def)
  have "((k, op_label ?v), ?v) \<in> set (rev (RBT.entries ops))"
    using ops(5) [of k "op_label ?v" ?v] by (simp add: RBT.lookup_in_tree)
  then have "\<exists>i'. fork_infos s' k = Some i' \<and> fi_is_duplicate_confirmed i'"
    using process_loop_confirms [OF _ l k] s'(1) unfolding process_update_operations_def by blast
  then have conf: "node_confirmed (fork_infos s') k" by auto
  obtain as where as: "ancestor_iterator ?f k = Some as" "set as = ancestors ?f k"
    using ancestor_iterator_ok [OF t k] by blast
  then have "newly_confirmed_loop self (k # as) = Some (filter (\<lambda>a. \<not> node_confirmed ?f a) (k # as))"
    using k by (intro newly_confirmed_loop_ok) (auto simp: ancestors_def)
  then have "mark_fork_valid_candidate self k = Some (s', filter (\<lambda>a. \<not> node_confirmed ?f a) (k # as))"
    using as(1) ks(1) ops(1) s'(1) unfolding mark_fork_valid_candidate_def
    by (simp only: bind.bind_lunit Let_def)
  then show ?thesis using as(1) s' zero conf by auto
qed

end
