(* ===== verification/Fork_Leaf.thy ===== *)
theory Fork_Leaf
  imports Fork_Votes
begin

text \<open>
  Adding a leaf: the two loops that carry a new leaf up the tree stop exactly where the best and the
  deepest slot of the ancestors do not change, so the invariant of the fork choice is kept.
\<close>

section \<open>What depends on what\<close>

lemma is_best_cong:
  assumes "\<And>c. c \<in> C \<Longrightarrow> node_weight f' c = node_weight f c \<and> node_candidate f' c = node_candidate f c"
  shows "is_best f' C c = is_best f C c"
proof -
  have "heavier f' c d = heavier f c d" if "c \<in> C" "d \<in> C" for c d using assms that by (simp add: heavier_def)
  then show ?thesis unfolding is_best_def using assms by blast
qed

lemma best_ok_cong:
  assumes "\<And>c. c \<in> set (fi_children i) \<Longrightarrow> node_weight f' c = node_weight f c \<and>
      node_candidate f' c = node_candidate f c \<and> fi_best_slot (the (f' c)) = fi_best_slot (the (f c))"
    and "fi_children i' = fi_children i" "fi_best_slot i' = fi_best_slot i"
  shows "best_ok f' k i' = best_ok f k i"
proof -
  have b: "is_best f' (set (fi_children i)) c = is_best f (set (fi_children i)) c" for c
    using assms(1) by (intro is_best_cong) blast
  have "(is_best f (set (fi_children i)) c \<and> x = fi_best_slot (the (f' c))) =
      (is_best f (set (fi_children i)) c \<and> x = fi_best_slot (the (f c)))" for c x
    using assms(1) by (auto simp: is_best_def)
  moreover have "(\<exists>c \<in> set (fi_children i). node_candidate f' c) = (\<exists>c \<in> set (fi_children i). node_candidate f c)"
    using assms(1) by blast
  ultimately show ?thesis unfolding best_ok_def assms(2,3) b by simp
qed

lemma deeper_cong:
  assumes "fi_height (the (f' c)) = fi_height (the (f c))" "node_weight f' c = node_weight f c"
    "fi_height (the (f' d)) = fi_height (the (f d))" "node_weight f' d = node_weight f d"
  shows "deeper f' c d = deeper f c d"
  using assms by (simp add: deeper_def heavier_def)

lemma is_deepest_cong:
  assumes "\<And>c. c \<in> C \<Longrightarrow> fi_height (the (f' c)) = fi_height (the (f c)) \<and> node_weight f' c = node_weight f c"
  shows "is_deepest f' C c = is_deepest f C c"
  using assms deeper_cong [of f' _ f] unfolding is_deepest_def by blast

lemma deepest_ok_cong:
  assumes "\<And>c. c \<in> set (fi_children i) \<Longrightarrow> fi_height (the (f' c)) = fi_height (the (f c)) \<and>
      node_weight f' c = node_weight f c \<and> fi_deepest_slot (the (f' c)) = fi_deepest_slot (the (f c))"
    and "fi_children i' = fi_children i" "fi_height i' = fi_height i" "fi_deepest_slot i' = fi_deepest_slot i"
  shows "deepest_ok f' k i' = deepest_ok f k i"
proof -
  have d: "is_deepest f' (set (fi_children i)) c = is_deepest f (set (fi_children i)) c" for c
    using assms(1) by (intro is_deepest_cong) blast
  have "(is_deepest f (set (fi_children i)) c \<and> x = fi_height (the (f' c)) + 1 \<and> y = fi_deepest_slot (the (f' c))) =
      (is_deepest f (set (fi_children i)) c \<and> x = fi_height (the (f c)) + 1 \<and> y = fi_deepest_slot (the (f c)))" for c x y
    using assms(1) by (auto simp: is_deepest_def)
  then show ?thesis unfolding deepest_ok_def assms(2-4) d by simp
qed

lemma best_okI:
  assumes "is_best f (set (fi_children i)) c" "fi_best_slot i = fi_best_slot (the (f c))"
  shows "best_ok f k i"
proof -
  have "\<exists>c \<in> set (fi_children i). node_candidate f c" using assms(1) unfolding is_best_def by blast
  then show ?thesis unfolding best_ok_def using assms by metis
qed

lemma deepest_okI:
  assumes "is_deepest f (set (fi_children i)) c" "fi_height i = fi_height (the (f c)) + 1"
    "fi_deepest_slot i = fi_deepest_slot (the (f c))"
  shows "deepest_ok f k i"
proof -
  have "fi_children i \<noteq> []" using assms(1) unfolding is_deepest_def by auto
  then show ?thesis unfolding deepest_ok_def using assms by auto
qed

section \<open>The best slot\<close>

definition same_but_best :: "fork_infos_map \<Rightarrow> fork_infos_map \<Rightarrow> bool" where
  "same_but_best f f' \<longleftrightarrow> (\<forall>j. case f j of None \<Rightarrow> f' j = None | Some i \<Rightarrow> \<exists>x. f' j = Some (i\<lparr>fi_best_slot := x\<rparr>))"

lemma same_but_best_refl [simp]: "same_but_best f f"
proof -
  have "\<exists>x. i = i\<lparr>fi_best_slot := x\<rparr>" for i :: fork_info by (rule exI [of _ "fi_best_slot i"]) simp
  then show ?thesis unfolding same_but_best_def by (auto split: option.split)
qed

lemma same_but_bestD:
  assumes "same_but_best f f'"
  shows "f k = None \<Longrightarrow> f' k = None" "f k = Some i \<Longrightarrow> \<exists>x. f' k = Some (i\<lparr>fi_best_slot := x\<rparr>)"
  using spec [OF assms [unfolded same_but_best_def], of k] by auto

lemma same_but_best_put:
  "same_but_best f' f \<Longrightarrow> f k = Some i \<Longrightarrow> same_but_best f' (f(k \<mapsto> i\<lparr>fi_best_slot := x\<rparr>))"
  unfolding same_but_best_def by (force split: option.splits)

lemma same_but_best_trans: "same_but_best f g \<Longrightarrow> same_but_best g h \<Longrightarrow> same_but_best f h"
  unfolding same_but_best_def by (force split: option.splits)

lemma same_but_best_shape: "same_but_best f f' \<Longrightarrow> tree_shape f' = tree_shape f"
proof (rule ext)
  fix k assume s: "same_but_best f f'"
  show "tree_shape f' k = tree_shape f k"
    using same_but_bestD [OF s, of k] by (cases "f k") (auto simp: tree_shape_def)
qed

definition bests_ok :: "fork_infos_map \<Rightarrow> bool" where
  "bests_ok f \<longleftrightarrow> (\<forall>j i. f j = Some i \<longrightarrow> fi_is_candidate i \<longrightarrow> best_ok f j i)"

text \<open>The best child of a node, when its best slot is known to be below one of its children.\<close>

lemma best_ok_child:
  assumes l: "links_ok f" and a: "f a = Some ia" and b: "b \<in> set (fi_children ia)" "f b = Some ib"
    and pb: "pb \<in> subtree f b"
    and out: "\<And>c ci. c \<in> set (fi_children ia) \<Longrightarrow> c \<noteq> b \<Longrightarrow> f c = Some ci \<Longrightarrow> fi_best_slot ci \<in> subtree f c"
    and ok: "best_ok (f(b \<mapsto> ib\<lparr>fi_best_slot := pb\<rparr>)) a ia"
  shows "if fi_best_slot ia = pb then is_best f (set (fi_children ia)) b else best_ok f a ia"
proof -
  let ?g = "f(b \<mapsto> ib\<lparr>fi_best_slot := pb\<rparr>)"
  have same: "is_best ?g (set (fi_children ia)) c = is_best f (set (fi_children ia)) c" for c
    using b(2) by (intro is_best_cong) (simp add: fi_is_candidate_def)
  have "node_candidate ?g c = node_candidate f c" for c
    using b(2) by (cases "c = b") (simp_all add: fi_is_candidate_def)
  then have cand: "(\<exists>c \<in> set (fi_children ia). node_candidate ?g c) = (\<exists>c \<in> set (fi_children ia). node_candidate f c)"
    by blast
  show ?thesis
  proof (cases "\<exists>c \<in> set (fi_children ia). node_candidate f c")
    case False
    then have "fi_best_slot ia = a" using ok cand by (simp add: best_ok_def)
    moreover have "pb \<noteq> a" using pb parent_not_in_subtree [OF l a b(1)] by blast
    ultimately show ?thesis using False by (auto simp: best_ok_def)
  next
    case True
    then obtain c where c: "is_best f (set (fi_children ia)) c" "fi_best_slot ia = fi_best_slot (the (?g c))"
      using ok cand same by (auto simp: best_ok_def)
    show ?thesis
    proof (cases "c = b")
      case True
      then show ?thesis using c by simp
    next
      case False
      have cm: "c \<in> set (fi_children ia)" using c(1) by (simp add: is_best_def)
      obtain ci where ci: "f c = Some ci" using links_okD(4) [OF l a cm] by blast
      have "fi_best_slot ia = fi_best_slot ci" using c(2) False ci by simp
      moreover have "fi_best_slot ci \<in> subtree f c" by (rule out [OF cm False ci])
      ultimately have "fi_best_slot ia \<noteq> pb" using siblings_disjoint [OF l a cm b(1) False] pb by auto
      moreover have "best_ok f a ia" using True c(1) \<open>fi_best_slot ia = fi_best_slot ci\<close> ci
        by (auto simp: best_ok_def)
      ultimately show ?thesis by simp
    qed
  qed
qed

text \<open>
  The loop stands at the parent of \<open>b\<close>, whose best slot has just changed from \<open>pb\<close> to \<open>key\<close>:
  below \<open>b\<close> all best slots are right, and outside they are right for the old one.
\<close>

definition best_moved :: "fork_infos_map \<Rightarrow> slot_hash_key \<Rightarrow> fork_info \<Rightarrow> slot_hash_key \<Rightarrow> slot_hash_key \<Rightarrow> bool" where
  "best_moved f b ib key pb \<longleftrightarrow> f b = Some ib \<and> fi_best_slot ib = key \<and> pb \<in> subtree f b \<and> best_below f \<and>
     (\<forall>j i. j \<in> subtree f b \<longrightarrow> f j = Some i \<longrightarrow> fi_is_candidate i \<longrightarrow> best_ok f j i) \<and>
     (\<forall>j i. j \<notin> subtree f b \<longrightarrow> f j = Some i \<longrightarrow> fi_is_candidate i \<longrightarrow>
        best_ok (f(b \<mapsto> ib\<lparr>fi_best_slot := pb\<rparr>)) j i)"

lemma best_movedD:
  assumes "best_moved f b ib key pb"
  shows "f b = Some ib" "fi_best_slot ib = key" "pb \<in> subtree f b" "best_below f"
    "j \<in> subtree f b \<Longrightarrow> f j = Some i \<Longrightarrow> fi_is_candidate i \<Longrightarrow> best_ok f j i"
    "j \<notin> subtree f b \<Longrightarrow> f j = Some i \<Longrightarrow> fi_is_candidate i \<Longrightarrow> best_ok (f(b \<mapsto> ib\<lparr>fi_best_slot := pb\<rparr>)) j i"
  using assms unfolding best_moved_def by blast+

lemma best_moved_other:
  assumes m: "best_moved f b ib key pb" and j: "j \<notin> subtree f b" "f j = Some i" "fi_is_candidate i" "b \<notin> set (fi_children i)"
  shows "best_ok f j i"
proof -
  have "best_ok (f(b \<mapsto> ib\<lparr>fi_best_slot := pb\<rparr>)) j i = best_ok f j i"
    using j(4) by (intro best_ok_cong) auto
  then show ?thesis using best_movedD(6) [OF m j(1-3)] by simp
qed

text \<open>The loop stops at a node with another best slot, and then all best slots are right.\<close>

lemma best_moved_stop:
  assumes l: "links_ok f" and m: "best_moved f b ib key pb"
    and stop: "\<And>a ia. f a = Some ia \<Longrightarrow> b \<in> set (fi_children ia) \<Longrightarrow> fi_best_slot ia \<noteq> pb"
  shows "bests_ok f"
  unfolding bests_ok_def
proof (intro allI impI)
  fix j i assume j: "f j = Some i" "fi_is_candidate i"
  show "best_ok f j i"
  proof (cases "j \<in> subtree f b")
    case True
    then show ?thesis using best_movedD(5) [OF m] j by blast
  next
    case False
    show ?thesis
    proof (cases "b \<in> set (fi_children i)")
      case True
      have "if fi_best_slot i = pb then is_best f (set (fi_children i)) b else best_ok f j i"
        using best_movedD(4) [OF m]
        by (intro best_ok_child [OF l j(1) True best_movedD(1,3) [OF m] _ best_movedD(6) [OF m False j]])
          (auto simp: best_below_def)
      then show ?thesis using stop [OF j(1) True] by simp
    next
      case False
      then show ?thesis using best_moved_other [OF m \<open>j \<notin> subtree f b\<close> j] by simp
    qed
  qed
qed

lemma best_moved_step:
  assumes l: "links_ok f" and m: "best_moved f b ib key pb" and a: "f a = Some ia" "b \<in> set (fi_children ia)"
    and go: "fi_best_slot ia = pb"
  defines "ia' \<equiv> ia\<lparr>fi_best_slot := key\<rparr>"
  shows "best_moved (f(a \<mapsto> ia')) a ia' key pb"
proof -
  let ?f = "f(a \<mapsto> ia')"
  have sh: "tree_shape ?f = tree_shape f" using a(1) by (intro tree_shape_put) (simp_all add: ia'_def)
  have sub: "subtree ?f j = subtree f j" for j by (rule subtree_shape [OF sh])
  have bs: "subtree f b \<subseteq> subtree f a" using subtree_of_child [of f a ia b] a subtree_trans by blast
  have an: "a \<notin> subtree f b" by (rule parent_not_in_subtree [OF l a])
  have key: "key \<in> subtree f a"
    using best_movedD(1,2,4) [OF m] bs by (auto simp: best_below_def)
  have old: "?f(a \<mapsto> ia'\<lparr>fi_best_slot := pb\<rparr>) = f"
    using a(1) go by (auto simp: ia'_def)
  have best: "is_best f (set (fi_children ia)) b" if "fi_is_candidate ia"
  proof -
    have "if fi_best_slot ia = pb then is_best f (set (fi_children ia)) b else best_ok f a ia"
      using best_movedD(4) [OF m]
      by (intro best_ok_child [OF l a(1,2) best_movedD(1,3) [OF m] _ best_movedD(6) [OF m an a(1) that]])
        (auto simp: best_below_def)
    then show ?thesis using go by simp
  qed
  have na: "a \<notin> set (fi_children i)" if "j \<in> subtree f a" "f j = Some i" for j i
    using that subtree_slot [OF l that(1)] links_okD(3) [OF l that(2)] by (metis less_asym less_irrefl)
  have inside: "best_ok ?f j i" if j: "j \<in> subtree f a" "?f j = Some i" "fi_is_candidate i" for j i
  proof (cases "j = a")
    case True
    then have i: "i = ia'" using j(2) by simp
    then have "is_best f (set (fi_children ia)) b" using j(3) best by (simp add: ia'_def fi_is_candidate_def)
    moreover have "is_best ?f (set (fi_children ia)) b = is_best f (set (fi_children ia)) b"
      using no_self_child [OF l a(1)] by (intro is_best_cong) auto
    moreover have "b \<noteq> a" using no_self_child [OF l a(1)] a(2) by auto
    ultimately show ?thesis
      using best_movedD(1,2) [OF m] by (intro best_okI [of _ _ b]) (simp_all add: i ia'_def)
  next
    case False
    then have fj: "f j = Some i" using j(2) by simp
    have "best_ok f j i"
    proof (cases "j \<in> subtree f b")
      case True
      then show ?thesis using best_movedD(5) [OF m _ fj j(3)] by blast
    next
      case nb: False
      have "b \<notin> set (fi_children i)" using parent_unique [OF l a(1) fj a(2)] False by blast
      then show ?thesis using best_moved_other [OF m nb fj j(3)] by blast
    qed
    moreover have "best_ok ?f j i = best_ok f j i" using na [OF j(1) fj] by (intro best_ok_cong) auto
    ultimately show ?thesis by simp
  qed
  have outside: "best_ok f j i" if j: "j \<notin> subtree f a" "f j = Some i" "fi_is_candidate i" for j i
  proof -
    have "j \<noteq> a" "j \<notin> subtree f b" using j(1) bs by auto
    moreover from this have "b \<notin> set (fi_children i)" using parent_unique [OF l a(1) j(2) a(2)] by blast
    ultimately show ?thesis using best_moved_other [OF m _ j(2,3)] by blast
  qed
  have pb: "pb \<in> subtree f a" using best_movedD(3) [OF m] bs by blast
  have below: "best_below ?f"
    using best_movedD(4) [OF m] key unfolding best_below_def sub by (auto simp: ia'_def)
  have outside': "best_ok (?f(a \<mapsto> ia'\<lparr>fi_best_slot := pb\<rparr>)) j i"
    if "j \<notin> subtree f a" "?f j = Some i" "fi_is_candidate i" for j i
    unfolding old using outside [of j i] that by (cases "j = a") simp_all
  show ?thesis
    unfolding best_moved_def sub
  proof (intro conjI allI impI)
    show "?f a = Some ia'" "fi_best_slot ia' = key" by (simp_all add: ia'_def)
  qed (fact pb below | erule (2) inside outside')+
qed

lemma propagate_best_ok:
  assumes "tree_ok (fork_infos s) root" "best_moved (fork_infos s) b ib key pb"
  shows "\<exists>s'. propagate_best key pb (s, fi_parent ib) = Some s' \<and> same_but_best (fork_infos s) (fork_infos s') \<and>
    bests_ok (fork_infos s') \<and> best_below (fork_infos s') \<and> latest_votes s' = latest_votes s \<and> tree_root s' = tree_root s"
  using assms
proof (induction "unat (key_slot b)" arbitrary: s b ib rule: less_induct)
  case less
  let ?f = "fork_infos s"
  note t = less.prems(1) and m = less.prems(2)
  note l = tree_okD(1) [OF t] and ib = best_movedD(1) [OF m]
  show ?case
  proof (cases "fi_parent ib")
    case None
    then have "propagate_best key pb (s, fi_parent ib) = Some s" by (subst propagate_best.simps) simp
    moreover have "bests_ok ?f"
    proof (rule best_moved_stop [OF l m])
      fix a ia assume "?f a = Some ia" "b \<in> set (fi_children ia)"
      from links_okD(4) [OF l this] show "fi_best_slot ia \<noteq> pb" using ib None by simp
    qed
    ultimately show ?thesis using best_movedD(4) [OF m] by auto
  next
    case (Some a)
    obtain ia where ia: "?f a = Some ia" "b \<in> set (fi_children ia)" "key_slot a < key_slot b"
      using tree_parent [OF t ib Some] by blast
    show ?thesis
    proof (cases "fi_best_slot ia = pb")
      case False
      then have "propagate_best key pb (s, fi_parent ib) = Some s"
        using Some ia(1) by (subst propagate_best.simps) simp
      moreover have "bests_ok ?f"
      proof (rule best_moved_stop [OF l m])
        fix c ic assume c: "?f c = Some ic" "b \<in> set (fi_children ic)"
        have "c = a" by (rule parent_unique [OF l c(1) ia(1) c(2) ia(2)])
        then show "fi_best_slot ic \<noteq> pb" using c(1) ia(1) False by simp
      qed
      ultimately show ?thesis using best_movedD(4) [OF m] by auto
    next
      case True
      let ?ia = "ia\<lparr>fi_best_slot := key\<rparr>"
      let ?s = "put_info s a ?ia"
      have eq: "propagate_best key pb (s, fi_parent ib) = propagate_best key pb (?s, fi_parent ?ia)"
        using Some ia(1) True by (subst propagate_best.simps) simp
      have fs: "fork_infos ?s = ?f(a \<mapsto> ?ia)" by (simp add: put_info_def)
      have sb: "same_but_best ?f (fork_infos ?s)" unfolding fs using ia(1) by (intro same_but_best_put) simp_all
      have "tree_ok (fork_infos ?s) root" by (rule tree_ok_shape [OF same_but_best_shape [OF sb, symmetric] t])
      moreover have "best_moved (fork_infos ?s) a ?ia key pb"
        unfolding fs by (rule best_moved_step [OF l m ia(1,2) True])
      moreover have "unat (key_slot a) < unat (key_slot b)" using ia(3) by (simp add: word_less_nat_alt)
      ultimately obtain s' where s': "propagate_best key pb (?s, fi_parent ?ia) = Some s'"
        "same_but_best (fork_infos ?s) (fork_infos s')" "bests_ok (fork_infos s')" "best_below (fork_infos s')"
        "latest_votes s' = latest_votes ?s" "tree_root s' = tree_root ?s"
        using less.hyps by blast
      then show ?thesis using same_but_best_trans [OF sb s'(2)] eq by (simp add: put_info_def)
    qed
  qed
qed

section \<open>The deepest slot\<close>

definition same_but_deepest :: "fork_infos_map \<Rightarrow> fork_infos_map \<Rightarrow> bool" where
  "same_but_deepest f f' \<longleftrightarrow> (\<forall>j. f' j = f j \<or>
     (\<exists>i d h. f j = Some i \<and> f' j = Some (i\<lparr>fi_deepest_slot := d, fi_height := h\<rparr>)))"

lemma same_but_deepest_refl [simp]: "same_but_deepest f f"
  by (simp add: same_but_deepest_def)

lemma same_but_deepest_put:
  "f k = Some i \<Longrightarrow> same_but_deepest f (f(k \<mapsto> i\<lparr>fi_deepest_slot := d, fi_height := h\<rparr>))"
  unfolding same_but_deepest_def by (intro allI) (auto intro: exI [of _ i])

lemma same_but_deepest_trans:
  assumes "same_but_deepest f g" "same_but_deepest g h"
  shows "same_but_deepest f h"
  unfolding same_but_deepest_def
proof
  fix j
  consider "g j = f j" | i d n where "f j = Some i" "g j = Some (i\<lparr>fi_deepest_slot := d, fi_height := n\<rparr>)"
    using assms(1) unfolding same_but_deepest_def by blast
  then show "h j = f j \<or> (\<exists>i d n. f j = Some i \<and> h j = Some (i\<lparr>fi_deepest_slot := d, fi_height := n\<rparr>))"
    using assms(2) [unfolded same_but_deepest_def, rule_format, of j] by cases auto
qed

lemma same_but_deepest_Some:
  assumes "same_but_deepest f f'" "f' j = Some i'"
  obtains i where "f j = Some i" "fi_parent i' = fi_parent i" "fi_children i' = fi_children i"
    "fi_stake_voted_at i' = fi_stake_voted_at i" "fi_stake_voted_subtree i' = fi_stake_voted_subtree i"
    "fi_best_slot i' = fi_best_slot i" "fi_latest_invalid_ancestor i' = fi_latest_invalid_ancestor i"
    "fi_is_duplicate_confirmed i' = fi_is_duplicate_confirmed i"
  using assms(1) [unfolded same_but_deepest_def, rule_format, of j] assms(2) by (cases "f j") auto

lemma same_but_deepest_shape:
  assumes "same_but_deepest f f'"
  shows "tree_shape f' = tree_shape f"
proof
  fix j show "tree_shape f' j = tree_shape f j"
    using assms [unfolded same_but_deepest_def, rule_format, of j] by (auto simp: tree_shape_def)
qed

lemma is_deepest_child_loop_ok:
  assumes "\<forall>c \<in> set cs. fork_infos s c \<noteq> None"
    and k: "fork_infos s k = Some ik"
  shows "is_deepest_child_loop s k (fi_stake_voted_subtree ik) (fi_height ik) cs =
    Some (\<forall>d \<in> set cs. deeper (fork_infos s) k d)"
  using assms(1)
proof (induction cs)
  case (Cons c cs)
  then obtain ci where "fork_infos s c = Some ci" by auto
  with Cons k show ?case
    by (auto simp: tree_height_def stake_voted_subtree_def ord_cmp_def deeper_def heavier_def split: if_splits)
qed simp

lemma is_best_child_loop_ok:
  assumes "\<forall>c \<in> set cs. fork_infos s c \<noteq> None"
    and k: "fork_infos s k = Some ik"
  shows "is_best_child_loop s k (fi_stake_voted_subtree ik) cs =
    Some (\<forall>d \<in> set cs. node_candidate (fork_infos s) d \<longrightarrow> heavier (fork_infos s) k d)"
  using assms(1)
proof (induction cs)
  case (Cons c cs)
  then obtain ci where "fork_infos s c = Some ci" by auto
  with Cons k show ?case
    by (auto simp: is_candidate_def stake_voted_subtree_def heavier_def split: if_splits)
qed simp

lemma child_tests:
  assumes l: "links_ok (fork_infos s)" and p: "fork_infos s p = Some ip" and k: "k \<in> set (fi_children ip)"
  shows "is_best_child s k =
      Some (\<forall>d \<in> set (fi_children ip). node_candidate (fork_infos s) d \<longrightarrow> heavier (fork_infos s) k d)"
    and "is_deepest_child s k = Some (is_deepest (fork_infos s) (set (fi_children ip)) k)"
proof -
  obtain ik where ik: "fork_infos s k = Some ik" "fi_parent ik = Some p" using links_okD(4) [OF l p k] by blast
  have cs: "\<forall>c \<in> set (fi_children ip). fork_infos s c \<noteq> None" using links_okD(4) [OF l p] by auto
  show "is_best_child s k =
      Some (\<forall>d \<in> set (fi_children ip). node_candidate (fork_infos s) d \<longrightarrow> heavier (fork_infos s) k d)"
    using is_best_child_loop_ok [OF cs ik(1)] ik p
    by (simp add: is_best_child_def fc_parent_def fc_children_def stake_voted_subtree_def)
  show "is_deepest_child s k = Some (is_deepest (fork_infos s) (set (fi_children ip)) k)"
    using is_deepest_child_loop_ok [OF cs ik(1)] ik p k
    by (simp add: is_deepest_child_def fc_parent_def fc_children_def stake_voted_subtree_def tree_height_def is_deepest_def)
qed

text \<open>
  The loop stands at the parent of \<open>b\<close>, which may have grown: every node is right, but the parent
  of \<open>b\<close> when \<open>b\<close> is its deepest child.
\<close>

definition deepest_moved :: "fork_infos_map \<Rightarrow> slot_hash_key \<Rightarrow> slot_hash_key \<Rightarrow> nat \<Rightarrow> bool" where
  "deepest_moved f b key h \<longleftrightarrow>
     (\<exists>ib. f b = Some ib \<and> fi_deepest_slot ib = key \<and> fi_height ib = h) \<and>
     (\<forall>j i. f j = Some i \<longrightarrow> deepest_ok f j i \<or>
        b \<in> set (fi_children i) \<and> is_deepest f (set (fi_children i)) b \<and> fi_height i \<le> h + 1)"

lemma is_deepest_higher:
  fixes key :: slot_hash_key
  assumes "is_deepest f C c" and ia: "f a = Some ia" and up: "fi_height ia \<le> h"
    and a: "a \<in> C"
  defines "f' \<equiv> f(a \<mapsto> ia\<lparr>fi_deepest_slot := key, fi_height := h\<rparr>)"
  shows "is_deepest f' C a \<and> (c = a \<or> fi_height (the (f c)) \<le> h) \<or> c \<noteq> a \<and> is_deepest f' C c"
proof (cases "c = a")
  case True
  have "deeper f' a d" if "d \<in> C" for d
  proof (cases "d = a")
    case False
    have "deeper f a d" using assms(1) True that by (simp add: is_deepest_def)
    then show ?thesis using False ia up by (auto simp: deeper_def heavier_def f'_def)
  qed simp
  then show ?thesis using True a by (simp add: is_deepest_def)
next
  case False
  have c: "c \<in> C" "deeper f' c d" if "d \<in> C" "d \<noteq> a" for d
    using assms(1) that False by (auto simp: is_deepest_def deeper_def heavier_def f'_def)
  have cc: "c \<in> C" using assms(1) by (simp add: is_deepest_def)
  show ?thesis
  proof (cases "deeper f' a c")
    case True
    have "deeper f' a d" if "d \<in> C" for d
      using deeper_trans [OF True c(2) [OF that]] by (cases "d = a") simp_all
    moreover have "fi_height (the (f c)) \<le> h" using True False by (auto simp: deeper_def f'_def)
    ultimately show ?thesis using a by (simp add: is_deepest_def)
  next
    case not: False
    have "deeper f' c d" if "d \<in> C" for d
      using c(2) [OF that] deeper_total [of f' a c] not by (cases "d = a") simp_all
    then show ?thesis using False cc by (simp add: is_deepest_def)
  qed
qed

lemma deepest_moved_step:
  assumes l: "links_ok f" and m: "deepest_moved f b key h" and a: "f a = Some ia" "b \<in> set (fi_children ia)"
    and go: "is_deepest f (set (fi_children ia)) b"
  shows "deepest_moved (f(a \<mapsto> ia\<lparr>fi_deepest_slot := key, fi_height := h + 1\<rparr>)) a key (h + 1)"
proof -
  let ?ia = "ia\<lparr>fi_deepest_slot := key, fi_height := h + 1\<rparr>"
  let ?f = "f(a \<mapsto> ?ia)"
  obtain ib where ib: "f b = Some ib" "fi_deepest_slot ib = key" "fi_height ib = h"
    using m unfolding deepest_moved_def by blast
  have ba: "b \<noteq> a" using no_self_child [OF l a(1)] a(2) by auto
  have old: "deepest_ok f j i \<or>
      b \<in> set (fi_children i) \<and> is_deepest f (set (fi_children i)) b \<and> fi_height i \<le> h + 1" if "f j = Some i" for j i
    using m that unfolding deepest_moved_def by blast
  have ha: "fi_height ia \<le> h + 1"
  proof (cases "deepest_ok f a ia")
    case True
    then obtain c where "is_deepest f (set (fi_children ia)) c" "fi_height ia = fi_height (the (f c)) + 1"
      using a(2) by (auto simp: deepest_ok_def split: if_splits)
    moreover from this(1) have "c \<in> set (fi_children ia)" by (simp add: is_deepest_def)
    ultimately show ?thesis using go ib by (auto simp: is_deepest_def deeper_def)
  qed (use old [OF a(1)] in blast)
  have "deepest_ok ?f j i \<or> a \<in> set (fi_children i) \<and> is_deepest ?f (set (fi_children i)) a \<and> fi_height i \<le> h + 1 + 1"
    if j: "?f j = Some i" for j i
  proof (cases "j = a")
    case True
    have "is_deepest ?f (set (fi_children ia)) b = is_deepest f (set (fi_children ia)) b"
      using no_self_child [OF l a(1)] by (intro is_deepest_cong) auto
    moreover have "i = ?ia" using True j by simp
    ultimately have "deepest_ok ?f j i" using go ib ba by (intro deepest_okI [of _ _ b]) simp_all
    then show ?thesis ..
  next
    case False
    then have fj: "f j = Some i" using j by simp
    have "b \<notin> set (fi_children i)" using parent_unique [OF l a(1) fj a(2)] False by blast
    then have ok: "deepest_ok f j i" using old [OF fj] by blast
    show ?thesis
    proof (cases "a \<in> set (fi_children i)")
      case False
      have "deepest_ok ?f j i = deepest_ok f j i" using False by (intro deepest_ok_cong) auto
      then show ?thesis using ok by simp
    next
      case True
      then obtain c where c: "is_deepest f (set (fi_children i)) c" "fi_height i = fi_height (the (f c)) + 1"
        "fi_deepest_slot i = fi_deepest_slot (the (f c))"
        using ok by (auto simp: deepest_ok_def split: if_splits)
      from is_deepest_higher [OF c(1) a(1) ha True, of key] show ?thesis
      proof (elim disjE conjE)
        assume "is_deepest ?f (set (fi_children i)) a" "c = a"
        then show ?thesis using True c(2) a(1) ha by simp
      next
        assume "is_deepest ?f (set (fi_children i)) a" "fi_height (the (f c)) \<le> h + 1"
        then show ?thesis using True c(2) by simp
      next
        assume "c \<noteq> a" "is_deepest ?f (set (fi_children i)) c"
        then have "deepest_ok ?f j i" using c(2,3) by (intro deepest_okI [of _ _ c]) simp_all
        then show ?thesis ..
      qed
    qed
  qed
  then show ?thesis unfolding deepest_moved_def by auto
qed

lemma propagate_deepest_ok:
  assumes "tree_ok (fork_infos s) root" "deepest_moved (fork_infos s) b key h" "fork_infos s b = Some ib"
  shows "\<exists>s'. propagate_deepest key (s, fi_parent ib, b, h) = Some s' \<and> same_but_deepest (fork_infos s) (fork_infos s') \<and>
    (\<forall>j i. fork_infos s' j = Some i \<longrightarrow> deepest_ok (fork_infos s') j i) \<and>
    latest_votes s' = latest_votes s \<and> tree_root s' = tree_root s"
  using assms
proof (induction "unat (key_slot b)" arbitrary: s b ib h rule: less_induct)
  case less
  let ?f = "fork_infos s"
  note t = less.prems(1) and m = less.prems(2) and ib = less.prems(3)
  note l = tree_okD(1) [OF t]
  have ok: "deepest_ok ?f j i" if "?f j = Some i" "b \<in> set (fi_children i) \<Longrightarrow> \<not> is_deepest ?f (set (fi_children i)) b" for j i
    using m that unfolding deepest_moved_def by blast
  show ?case
  proof (cases "fi_parent ib")
    case None
    then have "b \<notin> set (fi_children i)" if "?f j = Some i" for j i using links_okD(4) [OF l that, of b] ib by auto
    then show ?thesis using ok None by (subst propagate_deepest.simps) auto
  next
    case (Some a)
    obtain ia where ia: "?f a = Some ia" "b \<in> set (fi_children ia)" "key_slot a < key_slot b"
      using tree_parent [OF t ib Some] by blast
    note test = child_tests(2) [OF l ia(1,2)]
    show ?thesis
    proof (cases "is_deepest ?f (set (fi_children ia)) b")
      case False
      then have "\<not> is_deepest ?f (set (fi_children i)) b" if "?f j = Some i" "b \<in> set (fi_children i)" for j i
        using parent_unique [OF l ia(1) that(1) ia(2) that(2)] ia(1) that(1) by simp
      then show ?thesis using ok Some test False by (subst propagate_deepest.simps) auto
    next
      case True
      let ?ia = "ia\<lparr>fi_deepest_slot := key, fi_height := h + 1\<rparr>"
      let ?s = "put_info s a ?ia"
      have eq: "propagate_deepest key (s, fi_parent ib, b, h) = propagate_deepest key (?s, fi_parent ?ia, a, h + 1)"
        using Some ia(1) True test by (subst propagate_deepest.simps) simp
      have fs: "fork_infos ?s = ?f(a \<mapsto> ?ia)" by (simp add: put_info_def)
      have sb: "same_but_deepest ?f (fork_infos ?s)" unfolding fs using ia(1) by (rule same_but_deepest_put)
      have t': "tree_ok (fork_infos ?s) root"
        by (rule tree_ok_shape [OF same_but_deepest_shape [OF sb, symmetric] t])
      have m': "deepest_moved (fork_infos ?s) a key (h + 1)"
        unfolding fs by (rule deepest_moved_step [OF l m ia(1,2) True])
      have lt: "unat (key_slot a) < unat (key_slot b)" using ia(3) by (simp add: word_less_nat_alt)
      have "fork_infos ?s a = Some ?ia" unfolding fs by (rule fun_upd_same)
      from less.hyps [OF lt t' m' this] show ?thesis
        using same_but_deepest_trans [OF sb] unfolding eq by (auto simp: put_info_def)
    qed
  qed
qed

section \<open>The tree with the new leaf\<close>

definition with_leaf :: "fork_infos_map \<Rightarrow> slot_hash_key \<Rightarrow> slot_hash_key \<Rightarrow> fork_info \<Rightarrow> fork_info \<Rightarrow> fork_infos_map" where
  "with_leaf f k p ip ik = f(k \<mapsto> ik, p \<mapsto> ip\<lparr>fi_children := insort_insert k (fi_children ip)\<rparr>)"

lemma with_leaf_other: "j \<noteq> k \<Longrightarrow> j \<noteq> p \<Longrightarrow> with_leaf f k p ip ik j = f j"
  by (simp add: with_leaf_def)

lemma with_leaf_parent: "with_leaf f k p ip ik p = Some (ip\<lparr>fi_children := insort_insert k (fi_children ip)\<rparr>)"
  by (simp add: with_leaf_def)

lemma with_leaf_leaf: "k \<noteq> p \<Longrightarrow> with_leaf f k p ip ik k = Some ik"
  by (simp add: with_leaf_def)

lemma with_leaf_old:
  assumes "f p = Some ip" "f j = Some i" "f k = None"
  obtains i' where "with_leaf f k p ip ik j = Some i'" "i' = (if j = p then i\<lparr>fi_children := insort_insert k (fi_children i)\<rparr> else i)"
  using assms by (cases "j = p"; cases "j = k") (auto simp: with_leaf_def)

lemma with_leaf_cases:
  assumes "with_leaf f k p ip ik j = Some i" "f k = None" "f p = Some ip"
  obtains "j = k" "i = ik" | "j = p" "i = ip\<lparr>fi_children := insort_insert k (fi_children ip)\<rparr>" | "j \<noteq> k" "j \<noteq> p" "f j = Some i"
  using assms by (cases "j = p"; cases "j = k") (auto simp: with_leaf_def)

lemma fresh_not_child:
  assumes "links_ok f" "f k = None" "f j = Some i"
  shows "k \<notin> set (fi_children i)"
  using links_okD(4) [OF assms(1,3), of k] assms(2) by auto

lemma set_insort_insert_key: "set (insort_insert k xs) = insert k (set xs)" for k :: slot_hash_key
  by (simp add: set_insort_insert)

lemma with_leaf_links:
  assumes l: "links_ok f" and k: "f k = None" and p: "f p = Some ip" and s: "key_slot p < key_slot k"
    and ik: "fi_parent ik = Some p" "fi_children ik = []"
  shows "links_ok (with_leaf f k p ip ik)"
  unfolding links_ok_def
proof (intro conjI allI impI)
  let ?f = "with_leaf f k p ip ik"
  show "finite (dom ?f)" using l by (simp add: with_leaf_def links_ok_def)
  fix j i assume j: "?f j = Some i"
  have "sorted (fi_children i) \<and> distinct (fi_children i) \<and> (\<forall>c \<in> set (fi_children i).
      key_slot j < key_slot c \<and> (\<exists>ci. ?f c = Some ci \<and> fi_parent ci = Some j))"
  proof (cases rule: with_leaf_cases [OF j k p])
    case 1
    then show ?thesis using ik(2) by simp
  next
    case 2
    have "\<exists>ci. ?f c = Some ci \<and> fi_parent ci = Some p" if c: "c \<in> set (fi_children ip)" for c
    proof -
      have "c \<noteq> p" "c \<noteq> k" using no_self_child [OF l p] fresh_not_child [OF l k p] c by auto
      then show ?thesis using links_okD(4) [OF l p c] by (simp add: with_leaf_other)
    qed
    then show ?thesis using 2 links_okD(1-3) [OF l p] s ik(1) with_leaf_leaf [of k p f ip ik]
      by (auto simp: set_insort_insert_key sorted_insort_insert distinct_insort_insert)
  next
    case 3
    have "\<exists>ci. ?f c = Some ci \<and> fi_parent ci = Some j" if c: "c \<in> set (fi_children i)" for c
    proof -
      obtain ci where ci: "f c = Some ci" "fi_parent ci = Some j" using links_okD(4) [OF l 3(3) c] by blast
      from with_leaf_old [OF p ci(1) k] show ?thesis using ci(2) by (metis fork_info.select_convs(6) fork_info.surjective fork_info.update_convs(7))
    qed
    then show ?thesis using links_okD(1-3) [OF l 3(3)] by blast
  qed
  then show "sorted (fi_children i)" "distinct (fi_children i)" "\<forall>c \<in> set (fi_children i).
      key_slot j < key_slot c \<and> (\<exists>ci. ?f c = Some ci \<and> fi_parent ci = Some j)" by blast+
qed

lemma with_leaf_tree:
  assumes t: "tree_ok f root" and k: "f k = None" and p: "f p = Some ip" and s: "key_slot p < key_slot k"
    and ik: "fi_parent ik = Some p" "fi_children ik = []"
  shows "tree_ok (with_leaf f k p ip ik) root"
  unfolding tree_ok_def
proof (intro conjI allI impI)
  let ?f = "with_leaf f k p ip ik"
  show "links_ok ?f" by (rule with_leaf_links [OF tree_okD(1) [OF t] k p s ik])
  obtain r where r: "f root = Some r" "fi_parent r = None" using tree_okD(2) [OF t] by blast
  then show "\<exists>i. ?f root = Some i \<and> fi_parent i = None"
    using k p by (cases "root = p") (auto simp: with_leaf_def)
  fix j i assume j: "?f j = Some i \<and> j \<noteq> root"
  have old: "\<exists>q qi. fi_parent i' = Some q \<and> ?f q = Some qi \<and> j \<in> set (fi_children qi)" if i': "f j = Some i'" for i'
  proof -
    obtain q qi where q: "fi_parent i' = Some q" "f q = Some qi" "j \<in> set (fi_children qi)"
      using tree_okD(3) [OF t i'] j by blast
    from with_leaf_old [OF p q(2) k] obtain qi' where "?f q = Some qi'"
      "qi' = (if q = p then qi\<lparr>fi_children := insort_insert k (fi_children qi)\<rparr> else qi)" by blast
    then show ?thesis using q by (auto simp: set_insort_insert_key)
  qed
  from j have fj: "?f j = Some i" ..
  show "\<exists>q qi. fi_parent i = Some q \<and> ?f q = Some qi \<and> j \<in> set (fi_children qi)"
  proof (cases rule: with_leaf_cases [OF fj k p])
    case 1
    then show ?thesis using ik(1) with_leaf_parent [of f k p ip ik] by (auto simp: set_insort_insert_key)
  next
    case 2
    then show ?thesis using old [of ip] p by simp
  next
    case 3
    then show ?thesis using old by blast
  qed
qed

lemma with_leaf_subtree:
  assumes l: "links_ok f" and k: "f k = None" and p: "f p = Some ip" and s: "key_slot p < key_slot k"
    and ik: "fi_parent ik = Some p" "fi_children ik = []" and j: "f j \<noteq> None"
  shows "subtree (with_leaf f k p ip ik) j = (if p \<in> subtree f j then insert k (subtree f j) else subtree f j)"
proof -
  let ?f = "with_leaf f k p ip ik"
  have up: "n \<in> subtree ?f j" if "n \<in> subtree f j" for n
    using that
  proof induction
    case (subtree_child n i c)
    from with_leaf_old [OF p subtree_child(2) k] obtain i' where "?f n = Some i'"
      "i' = (if n = p then i\<lparr>fi_children := insort_insert k (fi_children i)\<rparr> else i)" by blast
    then show ?case using subtree_child by (auto simp: set_insort_insert_key intro: Fork_Tree.subtree_child)
  qed simp
  have down: "n \<in> subtree f j \<or> n = k \<and> p \<in> subtree f j" if "n \<in> subtree ?f j" for n
    using that
  proof induction
    case (subtree_child n i c)
    show ?case
    proof (cases rule: with_leaf_cases [OF subtree_child(2) k p])
      case 1
      then show ?thesis using subtree_child(3) ik(2) by simp
    next
      case 2
      have "n \<noteq> k" using 2(1) s by auto
      then have "p \<in> subtree f j" using subtree_child(4) 2(1) by blast
      moreover have "c = k \<or> c \<in> set (fi_children ip)" using subtree_child(3) 2(2) by (simp add: set_insort_insert_key)
      ultimately show ?thesis using Fork_Tree.subtree_child [of p f j ip c] p by blast
    next
      case 3
      then have "n \<in> subtree f j" using subtree_child(4) by blast
      then show ?thesis using Fork_Tree.subtree_child [of n f j i c] 3(3) subtree_child(3) by blast
    qed
  qed simp
  have "k \<in> subtree ?f j" if "p \<in> subtree f j"
    using Fork_Tree.subtree_child [OF up [OF that] with_leaf_parent, of k] by (simp add: set_insort_insert_key)
  then show ?thesis using up down by (auto split: if_splits)
qed

section \<open>The nodes with the new leaf\<close>

definition new_leaf :: "fork_infos_map \<Rightarrow> slot_hash_key \<Rightarrow> slot_hash_key \<Rightarrow> fork_info \<Rightarrow> fork_info \<Rightarrow> bool" where
  "new_leaf f k p ip ik \<longleftrightarrow> links_ok f \<and> f k = None \<and> f p = Some ip \<and> key_slot p < key_slot k \<and>
     ik = leaf_info k (Some p) (fi_latest_invalid_ancestor ip)"

lemma new_leafD:
  assumes "new_leaf f k p ip ik"
  shows "links_ok f" "f k = None" "f p = Some ip" "key_slot p < key_slot k"
    "ik = leaf_info k (Some p) (fi_latest_invalid_ancestor ip)" "fi_parent ik = Some p" "fi_children ik = []" "k \<noteq> p"
    "fi_is_candidate ik = fi_is_candidate ip" "\<not> fi_is_duplicate_confirmed ik"
    "fi_stake_voted_subtree ik = 0" "fi_stake_voted_at ik = 0"
    "fi_height ik = 1" "fi_deepest_slot ik = k" "fi_best_slot ik = k"
  using assms unfolding new_leaf_def by (auto simp: leaf_info_def fi_is_candidate_def)

lemma new_leaf_field:
  assumes n: "new_leaf f k p ip ik" and c: "f c \<noteq> None"
  shows "node_weight (with_leaf f k p ip ik) c = node_weight f c"
    "node_candidate (with_leaf f k p ip ik) c = node_candidate f c"
    "node_confirmed (with_leaf f k p ip ik) c = node_confirmed f c"
    "fi_height (the (with_leaf f k p ip ik c)) = fi_height (the (f c))"
    "fi_deepest_slot (the (with_leaf f k p ip ik c)) = fi_deepest_slot (the (f c))"
    "fi_best_slot (the (with_leaf f k p ip ik c)) = fi_best_slot (the (f c))"
proof -
  obtain ci where ci: "f c = Some ci" using c by blast
  from with_leaf_old [OF new_leafD(3) [OF n] ci new_leafD(2) [OF n]] obtain i' where
    "with_leaf f k p ip ik c = Some i'" "i' = (if c = p then ci\<lparr>fi_children := insort_insert k (fi_children ci)\<rparr> else ci)"
    by blast
  then show "node_weight (with_leaf f k p ip ik) c = node_weight f c"
    "node_candidate (with_leaf f k p ip ik) c = node_candidate f c"
    "node_confirmed (with_leaf f k p ip ik) c = node_confirmed f c"
    "fi_height (the (with_leaf f k p ip ik c)) = fi_height (the (f c))"
    "fi_deepest_slot (the (with_leaf f k p ip ik c)) = fi_deepest_slot (the (f c))"
    "fi_best_slot (the (with_leaf f k p ip ik c)) = fi_best_slot (the (f c))"
    using ci by (simp_all add: fi_is_candidate_def)
qed

lemma new_leaf_children:
  assumes n: "new_leaf f k p ip ik" and j: "f j = Some i" "c \<in> set (fi_children i)"
  shows "f c \<noteq> None" "c \<noteq> k"
  using links_okD(4) [OF new_leafD(1) [OF n] j] new_leafD(2) [OF n] by auto

lemma new_leaf_k:
  assumes "new_leaf f k p ip ik"
  shows "with_leaf f k p ip ik k = Some ik"
  using with_leaf_leaf new_leafD(8) [OF assms] by simp

lemma new_leaf_static:
  assumes n: "new_leaf f k p ip ik" and ok: "\<forall>j i. f j = Some i \<longrightarrow> stake_ok f i \<and> confirmed_ok f i"
    and j: "with_leaf f k p ip ik j = Some i"
  shows "stake_ok (with_leaf f k p ip ik) i \<and> confirmed_ok (with_leaf f k p ip ik) i"
proof -
  let ?g = "with_leaf f k p ip ik"
  have sum: "(\<Sum>c \<in> set (fi_children i). node_weight ?g c) = (\<Sum>c \<in> set (fi_children i). node_weight f c)"
    and conf: "\<forall>c \<in> set (fi_children i). node_confirmed ?g c = node_confirmed f c" if "f j = Some i" for j i
    using new_leaf_children(1) [OF n that] new_leaf_field(1,3) [OF n] by (auto intro!: sum.cong)
  show ?thesis
  proof (cases rule: with_leaf_cases [OF j new_leafD(2,3) [OF n]])
    case 1
    then show ?thesis using new_leafD [OF n] by (simp add: stake_ok_def confirmed_ok_def)
  next
    case 2
    have "k \<notin> set (fi_children ip)" using new_leaf_children(2) [OF n new_leafD(3) [OF n]] by blast
    moreover have "node_weight ?g k = 0" "\<not> node_confirmed ?g k" using new_leaf_k [OF n] new_leafD(10,11) [OF n] by simp_all
    ultimately show ?thesis using 2 sum [OF new_leafD(3) [OF n]] conf [OF new_leafD(3) [OF n]] ok new_leafD(3) [OF n]
      by (simp add: stake_ok_def confirmed_ok_def set_insort_insert_key)
  next
    case 3
    then show ?thesis using sum [OF 3(3)] conf [OF 3(3)] ok by (simp add: stake_ok_def confirmed_ok_def)
  qed
qed

lemma new_leaf_flags:
  assumes n: "new_leaf f k p ip ik" and fl: "flags_ok f"
  shows "flags_ok (with_leaf f k p ip ik)"
  unfolding flags_ok_def
proof (intro allI impI)
  fix j i assume j: "with_leaf f k p ip ik j = Some i"
  have old: "(fi_is_duplicate_confirmed i \<longrightarrow> fi_latest_invalid_ancestor i = None) \<and>
      (\<forall>x. fi_latest_invalid_ancestor i = Some x \<longrightarrow> x \<le> key_slot j)" if "f j = Some i" for j i
    using fl that unfolding flags_ok_def by blast
  show "(fi_is_duplicate_confirmed i \<longrightarrow> fi_latest_invalid_ancestor i = None) \<and>
      (\<forall>x. fi_latest_invalid_ancestor i = Some x \<longrightarrow> x \<le> key_slot j)"
  proof (cases rule: with_leaf_cases [OF j new_leafD(2,3) [OF n]])
    case 1
    then show ?thesis using old [OF new_leafD(3) [OF n]] new_leafD(4,5) [OF n] by (auto simp: leaf_info_def)
  next
    case 2
    then show ?thesis using old [OF new_leafD(3) [OF n]] by simp
  qed (rule old)
qed

lemma new_leaf_below:
  assumes n: "new_leaf f k p ip ik" and b: "best_below f"
  shows "best_below (with_leaf f k p ip ik)"
  unfolding best_below_def
proof (intro allI impI)
  fix j i assume j: "with_leaf f k p ip ik j = Some i"
  note sub = with_leaf_subtree [OF new_leafD(1-4,6,7) [OF n]]
  have old: "fi_best_slot i \<in> subtree (with_leaf f k p ip ik) j" if "f j = Some i" for j i
    using b that sub [of j] unfolding best_below_def by auto
  show "fi_best_slot i \<in> subtree (with_leaf f k p ip ik) j"
  proof (cases rule: with_leaf_cases [OF j new_leafD(2,3) [OF n]])
    case 1
    then show ?thesis using new_leafD(15) [OF n] by simp
  next
    case 2
    then show ?thesis using old [OF new_leafD(3) [OF n]] by simp
  qed (rule old)
qed

lemma new_leaf_deepest:
  assumes n: "new_leaf f k p ip ik" and ok: "\<forall>j i. f j = Some i \<longrightarrow> deepest_ok f j i"
  shows "deepest_moved (with_leaf f k p ip ik) k k 1"
proof -
  let ?g = "with_leaf f k p ip ik"
  have "deepest_ok ?g j i \<or> k \<in> set (fi_children i) \<and> is_deepest ?g (set (fi_children i)) k \<and> fi_height i \<le> 1 + 1"
    if j: "?g j = Some i" for j i
  proof (cases rule: with_leaf_cases [OF j new_leafD(2,3) [OF n]])
    case 1
    then show ?thesis using new_leafD(7,13,14) [OF n] by (simp add: deepest_ok_def)
  next
    case 2
    let ?C = "set (fi_children ip)"
    have C: "set (fi_children i) = insert k ?C" by (simp add: 2 set_insort_insert_key)
    have ipok: "deepest_ok f p ip" using ok new_leafD(3) [OF n] by blast
    show ?thesis
    proof (cases "fi_children ip = []")
      case True
      then have "fi_height i \<le> 1 + 1" using ipok by (simp add: 2 deepest_ok_def)
      moreover have "is_deepest ?g (set (fi_children i)) k" using True C by (simp add: is_deepest_def)
      ultimately show ?thesis by (simp add: C)
    next
      case False
      then obtain c where c: "is_deepest f ?C c" "fi_height ip = fi_height (the (f c)) + 1"
        "fi_deepest_slot ip = fi_deepest_slot (the (f c))" using ipok by (auto simp: deepest_ok_def)
      have ch: "f d \<noteq> None" if "d \<in> ?C" for d using new_leaf_children(1) [OF n new_leafD(3) [OF n] that] .
      have gc: "is_deepest ?g ?C c"
        using c(1) is_deepest_cong [of ?C ?g f c] new_leaf_field(1,4) [OF n ch] by simp
      have cC: "c \<in> ?C" using c(1) by (simp add: is_deepest_def)
      note fld = new_leaf_field [OF n ch [OF cC]]
      show ?thesis
      proof (cases "deeper ?g k c")
        case True
        then have "fi_height (the (f c)) \<le> 1"
          using new_leaf_k [OF n] new_leafD(13) [OF n] fld(4) by (auto simp: deeper_def)
        then show ?thesis using is_deepest_insert [OF gc, of k] True c(2) C by (simp add: 2)
      next
        case False
        then have "is_deepest ?g (set (fi_children i)) c" using is_deepest_insert [OF gc, of k] C by simp
        then have "deepest_ok ?g j i" using c(2,3) fld(4,5) by (intro deepest_okI [of _ _ c]) (simp_all add: 2)
        then show ?thesis ..
      qed
    qed
  next
    case 3
    have "deepest_ok ?g j i = deepest_ok f j i"
      using new_leaf_field(1,4,5) [OF n new_leaf_children(1) [OF n 3(3)]] by (intro deepest_ok_cong) simp_all
    then show ?thesis using ok 3(3) by blast
  qed
  then show ?thesis unfolding deepest_moved_def using new_leaf_k [OF n] new_leafD(13,14) [OF n] by auto
qed

lemma new_leaf_best_other:
  assumes n: "new_leaf f k p ip ik" and ok: "bests_ok f" and j: "f j = Some i" "j \<noteq> p" "fi_is_candidate i"
  shows "best_ok (with_leaf f k p ip ik) j i"
proof -
  have "best_ok (with_leaf f k p ip ik) j i = best_ok f j i"
    using new_leaf_field(1,2,6) [OF n new_leaf_children(1) [OF n j(1)]] by (intro best_ok_cong) simp_all
  then show ?thesis using ok j unfolding bests_ok_def by blast
qed

lemma new_leaf_best_leaf:
  assumes n: "new_leaf f k p ip ik"
  shows "best_ok g k ik"
  using new_leafD(7,15) [OF n] by (simp add: best_ok_def)

lemma new_leaf_not_best:
  assumes n: "new_leaf f k p ip ik" and ok: "bests_ok f"
    and no: "\<not> (\<forall>d \<in> insert k (set (fi_children ip)). node_candidate (with_leaf f k p ip ik) d \<longrightarrow> heavier (with_leaf f k p ip ik) k d)"
  shows "bests_ok (with_leaf f k p ip ik)"
  unfolding bests_ok_def
proof (intro allI impI)
  let ?g = "with_leaf f k p ip ik"
  let ?C = "set (fi_children ip)"
  fix j i assume j: "?g j = Some i" "fi_is_candidate i"
  show "best_ok ?g j i"
  proof (cases rule: with_leaf_cases [OF j(1) new_leafD(2,3) [OF n]])
    case 1
    then show ?thesis using new_leaf_best_leaf [OF n] by simp
  next
    case 2
    have C: "set (fi_children i) = insert k ?C" by (simp add: 2 set_insort_insert_key)
    have ch: "f d \<noteq> None" if "d \<in> ?C" for d using new_leaf_children(1) [OF n new_leafD(3) [OF n] that] .
    obtain d where d: "d \<in> ?C" "node_candidate ?g d" "\<not> heavier ?g k d" using no by auto
    then have "\<exists>c \<in> ?C. node_candidate f c" using new_leaf_field(2) [OF n ch] by blast
    moreover have "best_ok f p ip"
      using ok j(2) 2 new_leafD(3) [OF n] unfolding bests_ok_def by (simp add: fi_is_candidate_def)
    ultimately obtain c where c: "is_best f ?C c" "fi_best_slot ip = fi_best_slot (the (f c))"
      unfolding best_ok_def by auto
    have gc: "is_best ?g ?C c" using c(1) is_best_cong [of ?C ?g f c] new_leaf_field(1,2) [OF n ch] by simp
    have cC: "c \<in> ?C" using c(1) by (simp add: is_best_def)
    have "heavier ?g c d" using gc d by (simp add: is_best_def)
    then have "\<not> heavier ?g k c" using d(3) heavier_trans [of ?g k c d] by blast
    then have "is_best ?g (set (fi_children i)) c" using is_best_insert [OF gc, of k] C by simp
    then show ?thesis
      using c(2) new_leaf_field(6) [OF n ch [OF cC]] by (intro best_okI [of _ _ c]) (simp_all add: 2)
  next
    case 3
    then show ?thesis using new_leaf_best_other [OF n ok _ _ j(2)] by simp
  qed
qed

lemma new_leaf_best:
  assumes n: "new_leaf f k p ip ik" and ok: "bests_ok f" and b: "best_below f"
    and best: "\<forall>d \<in> insert k (set (fi_children ip)). node_candidate (with_leaf f k p ip ik) d \<longrightarrow> heavier (with_leaf f k p ip ik) k d"
  defines "ip' \<equiv> ip\<lparr>fi_children := insort_insert k (fi_children ip), fi_best_slot := k\<rparr>"
  shows "best_moved ((with_leaf f k p ip ik)(p \<mapsto> ip')) p ip' k (fi_best_slot ip)"
proof -
  let ?g = "with_leaf f k p ip ik"
  let ?h = "?g(p \<mapsto> ip')"
  note p = new_leafD(3) [OF n]
  have old: "?h(p \<mapsto> ip'\<lparr>fi_best_slot := fi_best_slot ip\<rparr>) = ?g"
    using with_leaf_parent [of f k p ip ik] by (auto simp: ip'_def)
  have sh: "tree_shape ?h = tree_shape ?g"
    by (rule tree_shape_put [of ?g, OF with_leaf_parent]) (simp_all add: ip'_def)
  have sub: "subtree ?h j = subtree ?g j" for j by (rule subtree_shape [OF sh])
  have gp: "subtree ?g p = insert k (subtree f p)"
    using with_leaf_subtree [OF new_leafD(1-4,6,7) [OF n], of p] p by simp
  have lg: "links_ok ?g" by (rule with_leaf_links [OF new_leafD(1-4,6,7) [OF n]])
  have inside: "best_ok ?h j i" if j: "j \<in> subtree ?g p" "?h j = Some i" "fi_is_candidate i" for j i
  proof (cases "j = p")
    case True
    then have i: "i = ip'" using j(2) by simp
    have "fi_is_candidate ik" using j(3) new_leafD(9) [OF n] by (simp add: i ip'_def fi_is_candidate_def)
    then have "is_best ?g (insert k (set (fi_children ip))) k" using best new_leaf_k [OF n] by (simp add: is_best_def)
    moreover have "is_best ?h (insert k (set (fi_children ip))) k = is_best ?g (insert k (set (fi_children ip))) k"
      using no_self_child [OF new_leafD(1) [OF n] p] new_leafD(8) [OF n] by (intro is_best_cong) auto
    ultimately show ?thesis using new_leafD(8,15) [OF n] new_leaf_k [OF n]
      by (intro best_okI [of _ _ k]) (simp_all add: i ip'_def set_insort_insert_key)
  next
    case False
    then have gj: "?g j = Some i" using j(2) by simp
    have "p \<notin> set (fi_children i)"
      using subtree_slot [OF lg j(1)] links_okD(3) [OF lg gj, of p] False by auto
    then have "best_ok ?h j i = best_ok ?g j i" by (intro best_ok_cong) auto
    moreover have "best_ok ?g j i"
    proof (cases rule: with_leaf_cases [OF gj new_leafD(2,3) [OF n]])
      case 1
      then show ?thesis using new_leaf_best_leaf [OF n] by simp
    next
      case 3
      then show ?thesis using new_leaf_best_other [OF n ok _ _ j(3)] by simp
    qed (use False in blast)
    ultimately show ?thesis by simp
  qed
  have outside: "best_ok (?h(p \<mapsto> ip'\<lparr>fi_best_slot := fi_best_slot ip\<rparr>)) j i"
    if j: "j \<notin> subtree ?g p" "?h j = Some i" "fi_is_candidate i" for j i
  proof -
    have "j \<noteq> p" "j \<noteq> k" using j(1) gp by auto
    then have "f j = Some i" using j(2) by (simp add: with_leaf_other)
    then show ?thesis unfolding old using new_leaf_best_other [OF n ok _ \<open>j \<noteq> p\<close> j(3)] by blast
  qed
  have below: "best_below ?h"
    using new_leaf_below [OF n b] gp unfolding best_below_def sub by (auto simp: ip'_def)
  have pb: "fi_best_slot ip \<in> subtree ?g p" using b p gp unfolding best_below_def by blast
  show ?thesis
    unfolding best_moved_def sub
  proof (intro conjI allI impI)
    show "?h p = Some ip'" "fi_best_slot ip' = k" by (simp_all add: ip'_def)
  qed (fact pb below | erule (2) inside outside)+
qed

section \<open>The whole operation\<close>

text \<open>The fields of a node that neither loop changes.\<close>

definition static_fields :: "fork_info \<Rightarrow> u64 \<times> u64 \<times> slot_hash_key option \<times> slot_hash_key list \<times> slot option \<times> bool" where
  "static_fields i = (fi_stake_voted_at i, fi_stake_voted_subtree i, fi_parent i, fi_children i,
     fi_latest_invalid_ancestor i, fi_is_duplicate_confirmed i)"

definition same_static :: "fork_infos_map \<Rightarrow> fork_infos_map \<Rightarrow> bool" where
  "same_static f f' \<longleftrightarrow> (\<forall>j. map_option static_fields (f' j) = map_option static_fields (f j))"

lemma same_static_trans: "same_static f g \<Longrightarrow> same_static g h \<Longrightarrow> same_static f h"
  by (simp add: same_static_def)

lemma same_static_best:
  assumes "same_but_best f f'"
  shows "same_static f f'"
  unfolding same_static_def
proof
  fix j show "map_option static_fields (f' j) = map_option static_fields (f j)"
    using same_but_bestD [OF assms, of j] by (cases "f j") (auto simp: static_fields_def)
qed

lemma same_static_deepest:
  assumes "same_but_deepest f f'"
  shows "same_static f f'"
  unfolding same_static_def
proof
  fix j show "map_option static_fields (f' j) = map_option static_fields (f j)"
    using assms [unfolded same_but_deepest_def, rule_format, of j] by (auto simp: static_fields_def)
qed

lemma same_static_Some:
  assumes "same_static f f'" "f' j = Some i'"
  obtains i where "f j = Some i" "fi_parent i' = fi_parent i" "fi_children i' = fi_children i"
    "fi_stake_voted_at i' = fi_stake_voted_at i" "fi_stake_voted_subtree i' = fi_stake_voted_subtree i"
    "fi_latest_invalid_ancestor i' = fi_latest_invalid_ancestor i"
    "fi_is_duplicate_confirmed i' = fi_is_duplicate_confirmed i"
  using assms(1) [unfolded same_static_def, rule_format, of j] assms(2) by (cases "f j") (auto simp: static_fields_def)

lemma same_static_shape:
  assumes "same_static f f'"
  shows "tree_shape f' = tree_shape f"
proof
  fix j show "tree_shape f' j = tree_shape f j"
    using assms [unfolded same_static_def, rule_format, of j]
    by (cases "f j"; cases "f' j") (auto simp: tree_shape_def static_fields_def)
qed

lemma same_static_weight:
  assumes "same_static f f'" "f' c \<noteq> None"
  shows "node_weight f' c = node_weight f c" "node_confirmed f' c = node_confirmed f c"
    "node_candidate f' c = node_candidate f c"
proof -
  obtain ci where ci: "f' c = Some ci" using assms(2) by blast
  show "node_weight f' c = node_weight f c" "node_confirmed f' c = node_confirmed f c" "node_candidate f' c = node_candidate f c"
    by (rule same_static_Some [OF assms(1) ci]; simp add: ci fi_is_candidate_def)+
qed

lemma same_static_ok:
  assumes s: "same_static f f'" and l: "links_ok f'"
    and ok: "\<forall>j i. f j = Some i \<longrightarrow> stake_ok f i \<and> confirmed_ok f i" and j: "f' j = Some i'"
  shows "stake_ok f' i' \<and> confirmed_ok f' i'"
proof -
  obtain i where i: "f j = Some i" "fi_children i' = fi_children i" "fi_stake_voted_at i' = fi_stake_voted_at i"
    "fi_stake_voted_subtree i' = fi_stake_voted_subtree i" "fi_is_duplicate_confirmed i' = fi_is_duplicate_confirmed i"
    by (rule same_static_Some [OF s j])
  have w: "node_weight f' c = node_weight f c \<and> node_confirmed f' c = node_confirmed f c" if "c \<in> set (fi_children i)" for c
    using links_okD(4) [OF l j, of c] same_static_weight(1,2) [OF s, of c] that i(2) by auto
  have "(\<Sum>c \<in> set (fi_children i). node_weight f' c) = (\<Sum>c \<in> set (fi_children i). node_weight f c)"
    using w by (intro sum.cong) simp_all
  then show ?thesis using ok i w by (simp add: stake_ok_def confirmed_ok_def)
qed

lemma same_static_flags:
  assumes "same_static f f'" "flags_ok f"
  shows "flags_ok f'"
  unfolding flags_ok_def
proof (intro allI impI)
  fix j i' assume "f' j = Some i'"
  from same_static_Some [OF assms(1) this] obtain i where
    "f j = Some i" "fi_latest_invalid_ancestor i' = fi_latest_invalid_ancestor i"
    "fi_is_duplicate_confirmed i' = fi_is_duplicate_confirmed i" by blast
  then show "(fi_is_duplicate_confirmed i' \<longrightarrow> fi_latest_invalid_ancestor i' = None) \<and>
      (\<forall>x. fi_latest_invalid_ancestor i' = Some x \<longrightarrow> x \<le> key_slot j)"
    using assms(2) unfolding flags_ok_def by simp
qed

lemma deepest_moved_best:
  assumes s: "same_but_best f f'" and l: "links_ok f'" and m: "deepest_moved f b key h"
  shows "deepest_moved f' b key h"
proof -
  have fld: "fi_height (the (f' c)) = fi_height (the (f c)) \<and> node_weight f' c = node_weight f c \<and>
      fi_deepest_slot (the (f' c)) = fi_deepest_slot (the (f c))" if "f' c \<noteq> None" for c
    using same_but_bestD [OF s, of c] that by (cases "f c") auto
  have "deepest_ok f' j i' \<or> b \<in> set (fi_children i') \<and> is_deepest f' (set (fi_children i')) b \<and> fi_height i' \<le> h + 1"
    if j: "f' j = Some i'" for j i'
  proof -
    obtain i x where i: "f j = Some i" "i' = i\<lparr>fi_best_slot := x\<rparr>"
      using same_but_bestD [OF s, of j] j by (cases "f j") auto
    have ch: "f' c \<noteq> None" if "c \<in> set (fi_children i)" for c using links_okD(4) [OF l j, of c] that i(2) by auto
    have "deepest_ok f' j i' = deepest_ok f j i" using fld [OF ch] i(2) by (intro deepest_ok_cong) simp_all
    moreover have "is_deepest f' (set (fi_children i)) b = is_deepest f (set (fi_children i)) b"
      using fld [OF ch] by (intro is_deepest_cong) simp_all
    ultimately show ?thesis using m i unfolding deepest_moved_def by auto
  qed
  moreover have "\<exists>ib. f' b = Some ib \<and> fi_deepest_slot ib = key \<and> fi_height ib = h"
    using m same_but_bestD(2) [OF s, of b] unfolding deepest_moved_def by force
  ultimately show ?thesis unfolding deepest_moved_def by blast
qed

lemma new_leaf_propagate_best:
  assumes n: "new_leaf f k p ip ik" and t: "tree_ok (fork_infos s) root" and s: "fork_infos s = with_leaf f k p ip ik"
    and ok: "bests_ok f" "best_below f"
  defines "best \<equiv> \<forall>d \<in> insert k (set (fi_children ip)). node_candidate (fork_infos s) d \<longrightarrow> heavier (fork_infos s) k d"
  shows "\<exists>s'. (if best then propagate_best k (fi_best_slot ip) (s, Some p) else Some s) = Some s' \<and>
    same_but_best (fork_infos s) (fork_infos s') \<and> bests_ok (fork_infos s') \<and> best_below (fork_infos s') \<and>
    latest_votes s' = latest_votes s \<and> tree_root s' = tree_root s"
proof (cases best)
  case False
  then have "bests_ok (fork_infos s)" using new_leaf_not_best [OF n ok(1)] unfolding best_def s by blast
  moreover have "best_below (fork_infos s)" unfolding s by (rule new_leaf_below [OF n ok(2)])
  ultimately show ?thesis using False by simp
next
  case True
  let ?ip = "ip\<lparr>fi_children := insort_insert k (fi_children ip), fi_best_slot := k\<rparr>"
  let ?s = "put_info s p ?ip"
  have fs: "fork_infos ?s = (with_leaf f k p ip ik)(p \<mapsto> ?ip)" by (simp add: put_info_def s)
  have "propagate_best k (fi_best_slot ip) (s, Some p) = propagate_best k (fi_best_slot ip) (?s, fi_parent ?ip)"
    by (subst propagate_best.simps) (simp add: s with_leaf_parent)
  moreover have sb: "same_but_best (fork_infos s) (fork_infos ?s)"
    unfolding fs s using same_but_best_put [OF same_but_best_refl, of "with_leaf f k p ip ik" p _ k]
      with_leaf_parent [of f k p ip ik] by fastforce
  moreover have "tree_ok (fork_infos ?s) root" by (rule tree_ok_shape [OF same_but_best_shape [OF sb, symmetric] t])
  moreover have "best_moved (fork_infos ?s) p ?ip k (fi_best_slot ip)"
    unfolding fs using True unfolding best_def s by (rule new_leaf_best [OF n ok])
  ultimately show ?thesis
    using True propagate_best_ok [of ?s root p ?ip k "fi_best_slot ip"] same_but_best_trans [OF sb]
    by (auto simp: put_info_def)
qed

lemma bests_ok_deepest:
  assumes s: "same_but_deepest f f'" and l: "links_ok f'" and ok: "bests_ok f" "best_below f"
  shows "bests_ok f'" "best_below f'"
proof -
  have fld: "node_weight f' c = node_weight f c \<and> node_candidate f' c = node_candidate f c \<and>
      fi_best_slot (the (f' c)) = fi_best_slot (the (f c))" if c: "f' c = Some ci" for c ci
    by (rule same_but_deepest_Some [OF s c]) (simp add: c fi_is_candidate_def)
  show "bests_ok f'"
    unfolding bests_ok_def
  proof (intro allI impI)
    fix j i' assume j: "f' j = Some i'" "fi_is_candidate i'"
    obtain i where i: "f j = Some i" "fi_children i' = fi_children i" "fi_best_slot i' = fi_best_slot i"
      "fi_latest_invalid_ancestor i' = fi_latest_invalid_ancestor i" by (rule same_but_deepest_Some [OF s j(1)])
    have "best_ok f' j i' = best_ok f j i"
    proof (rule best_ok_cong)
      fix c assume "c \<in> set (fi_children i)"
      then obtain ci where "f' c = Some ci" using links_okD(4) [OF l j(1), of c] i(2) by auto
      then show "node_weight f' c = node_weight f c \<and> node_candidate f' c = node_candidate f c \<and>
        fi_best_slot (the (f' c)) = fi_best_slot (the (f c))" by (rule fld)
    qed (rule i)+
    then show "best_ok f' j i'" using ok(1) i(1,4) j(2) unfolding bests_ok_def by (simp add: fi_is_candidate_def)
  qed
  show "best_below f'"
    unfolding best_below_def subtree_shape [OF same_but_deepest_shape [OF s]]
  proof (intro allI impI)
    fix j i' assume j: "f' j = Some i'"
    obtain i where "f j = Some i" "fi_best_slot i' = fi_best_slot i" by (rule same_but_deepest_Some [OF s j])
    then show "fi_best_slot i' \<in> subtree f j" using ok(2) unfolding best_below_def by simp
  qed
qed

lemma add_new_leaf_ok:
  assumes inv: "fc_inv self" and k: "fork_infos self k = None" and p: "fork_infos self p = Some ip"
    and s: "key_slot p < key_slot k"
  defines "ik \<equiv> leaf_info k (Some p) (fi_latest_invalid_ancestor ip)"
  shows "\<exists>self'. add_new_leaf_slot self k (Some p) = Some self' \<and> fc_inv self' \<and>
    same_static (with_leaf (fork_infos self) k p ip ik) (fork_infos self') \<and>
    latest_votes self' = latest_votes self \<and> tree_root self' = tree_root self"
proof -
  let ?f = "fork_infos self" and ?g = "with_leaf (fork_infos self) k p ip ik"
  have n: "new_leaf ?f k p ip ik" using fc_invD(2) [OF inv] k p s by (simp add: new_leaf_def ik_def)
  let ?s1 = "self\<lparr>fork_infos := ?g\<rparr>"
  have t: "tree_ok ?g (tree_root self)" by (rule with_leaf_tree [OF fc_invD(1) [OF inv] k p s new_leafD(6,7) [OF n]])
  have ok: "\<forall>j i. ?f j = Some i \<longrightarrow> node_ok ?f j i" using fc_invD(7) [OF inv] by blast
  have bok: "bests_ok ?f" using ok by (simp add: bests_ok_def node_ok_def)
  obtain s2 where s2: "(if \<forall>d \<in> insert k (set (fi_children ip)). node_candidate ?g d \<longrightarrow> heavier ?g k d
      then propagate_best k (fi_best_slot ip) (?s1, Some p) else Some ?s1) = Some s2"
    "same_but_best ?g (fork_infos s2)" "bests_ok (fork_infos s2)" "best_below (fork_infos s2)"
    "latest_votes s2 = latest_votes self" "tree_root s2 = tree_root self"
    using new_leaf_propagate_best [OF n, of ?s1 "tree_root self"] t bok fc_invD(5) [OF inv] by auto
  have t2: "tree_ok (fork_infos s2) (tree_root self)"
    by (rule tree_ok_shape [OF same_but_best_shape [OF s2(2), symmetric] t])
  obtain i2 where i2: "fork_infos s2 k = Some i2" "fi_parent i2 = Some p"
    using same_but_bestD(2) [OF s2(2) new_leaf_k [OF n]] new_leafD(6) [OF n] by auto
  have "deepest_moved (fork_infos s2) k k 1"
    using new_leaf_deepest [OF n] ok by (intro deepest_moved_best [OF s2(2) tree_okD(1) [OF t2]]) (simp add: node_ok_def)
  from propagate_deepest_ok [OF t2 this i2(1)] obtain s3 where s3: "propagate_deepest k (s2, Some p, k, 1) = Some s3"
    "same_but_deepest (fork_infos s2) (fork_infos s3)"
    "\<forall>j i. fork_infos s3 j = Some i \<longrightarrow> deepest_ok (fork_infos s3) j i"
    "latest_votes s3 = latest_votes self" "tree_root s3 = tree_root self" unfolding i2(2) using s2(5,6) by auto
  have kc: "k \<in> set (fi_children (ip\<lparr>fi_children := insort_insert k (fi_children ip)\<rparr>))"
    by (simp add: set_insort_insert_key)
  have "propagate_new_leaf ?s1 k p = Some s3"
    using child_tests(1) [OF _ _ kc, of ?s1 p] tree_okD(1) [OF t] with_leaf_parent [of ?f k p ip ik] s2(1) s3(1)
    by (simp add: propagate_new_leaf_def best_slot_def set_insort_insert_key)
  moreover have "add_new_leaf_slot self k (Some p) = propagate_new_leaf ?s1 k p"
    using k p new_leafD(8) [OF n] by (simp add: add_new_leaf_slot_def put_info_def with_leaf_def latest_invalid_ancestor_def ik_def)
  moreover have st: "same_static ?g (fork_infos s3)"
    by (rule same_static_trans [OF same_static_best [OF s2(2)] same_static_deepest [OF s3(2)]])
  moreover have "fc_inv s3"
  proof -
    have t3: "tree_ok (fork_infos s3) (tree_root s3)"
      unfolding s3(5) by (rule tree_ok_shape [OF same_static_shape [OF st, symmetric] t])
    note l3 = tree_okD(1) [OF t3]
    have "\<forall>j i. ?g j = Some i \<longrightarrow> stake_ok ?g i \<and> confirmed_ok ?g i"
      using new_leaf_static [OF n] ok by (simp add: node_ok_def)
    then have "node_ok (fork_infos s3) j i" if "fork_infos s3 j = Some i" for j i
      using same_static_ok [OF st l3 _ that] bests_ok_deepest(1) [OF s3(2) l3 s2(3,4)] s3(3) that
      unfolding bests_ok_def node_ok_def by blast
    then show ?thesis
      using t3 same_static_flags [OF st new_leaf_flags [OF n fc_invD(4) [OF inv]]]
        bests_ok_deepest(2) [OF s3(2) l3 s2(3,4)] unfolding fc_inv_def nodes_ok_but_def by blast
  qed
  ultimately show ?thesis using s3(4,5) by auto
qed

end
