(* ===== verification/Fork_Root.thy ===== *)
theory Fork_Root
  imports Fork_Leaf
begin

text \<open>
  The first tree, moving the root down (\<open>set_tree_root\<close>), and growing the tree above its root
  (\<open>add_root_parent\<close>): the invariant of the fork choice is kept and the tree is the expected one.
\<close>

section \<open>The first tree\<close>

lemma fork_choice_new_ok:
  "\<exists>self. fork_choice_new root = Some self \<and> fc_inv self \<and> votes_inv env self \<and>
     fork_infos self = [root \<mapsto> leaf_info root None None] \<and> latest_votes self = Map.empty \<and> tree_root self = root"
  by (auto simp: fork_choice_new_def add_new_leaf_slot_def put_info_def fc_inv_def votes_inv_def tree_ok_def links_ok_def
      nodes_ok_but_def flags_ok_def best_below_def node_ok_def stake_ok_def best_ok_def deepest_ok_def confirmed_ok_def
      leaf_info_def voted_stake_def split: if_splits)

section \<open>Moving the root down\<close>

definition cut_above :: "fork_infos_map \<Rightarrow> slot_hash_key \<Rightarrow> fork_info \<Rightarrow> fork_infos_map" where
  "cut_above f r i = (f |` subtree f r)(r \<mapsto> i\<lparr>fi_parent := None\<rparr>)"

lemma cut_above_root: "cut_above f r i r = Some (i\<lparr>fi_parent := None\<rparr>)"
  by (simp add: cut_above_def)

lemma cut_above_below: "j \<in> subtree f r \<Longrightarrow> j \<noteq> r \<Longrightarrow> cut_above f r i j = f j"
  by (simp add: cut_above_def)

lemma cut_above_cases:
  assumes "cut_above f r i j = Some x"
  obtains "j = r" "x = i\<lparr>fi_parent := None\<rparr>" | "j \<noteq> r" "j \<in> subtree f r" "f j = Some x"
  using assms by (cases "j = r") (auto simp: cut_above_def restrict_map_def split: if_splits)

text \<open>Every node of the cut tree has its children as before.\<close>

lemma cut_above_node:
  assumes "cut_above f r i j = Some x" "f r = Some i"
  obtains y where "f j = Some y" "j \<in> subtree f r" "fi_children x = fi_children y" "x = y \<or> x = y\<lparr>fi_parent := None\<rparr>"
  using cut_above_cases [OF assms(1)] assms(2) by (metis fork_info.select_convs(7) fork_info.surjective fork_info.update_convs(6) subtree_self)

lemma cut_above_child:
  assumes l: "links_ok f" and r: "f r = Some i" and j: "j \<in> subtree f r" "f j = Some y" "c \<in> set (fi_children y)"
  shows "cut_above f r i c = f c" "c \<in> subtree f r"
proof -
  show c: "c \<in> subtree f r" using subtree_child [of j f r y c] j by blast
  have "c \<noteq> r" using subtree_slot [OF l j(1)] links_okD(3) [OF l j(2,3)] by auto
  then show "cut_above f r i c = f c" using c by (rule cut_above_below [rotated])
qed

lemma cut_above_subtree:
  assumes l: "links_ok f" and r: "f r = Some i" and j: "j \<in> subtree f r"
  shows "subtree (cut_above f r i) j = subtree f j"
proof (intro set_eqI iffI)
  fix n assume "n \<in> subtree (cut_above f r i) j"
  then show "n \<in> subtree f j"
  proof induction
    case (subtree_child n x c)
    obtain y where "f n = Some y" "fi_children x = fi_children y" by (rule cut_above_node [OF subtree_child(2) r])
    then show ?case using subtree_child Fork_Tree.subtree_child [of n f j y c] by simp
  qed simp
next
  fix n assume "n \<in> subtree f j"
  then show "n \<in> subtree (cut_above f r i) j"
  proof induction
    case (subtree_child n y c)
    have nr: "n \<in> subtree f r" by (rule subtree_trans [OF subtree_child(1) j])
    have "\<exists>x. cut_above f r i n = Some x \<and> fi_children x = fi_children y"
      using cut_above_below [OF nr, of i] subtree_child(2) r by (cases "n = r") (simp_all add: cut_above_root)
    then show ?case using subtree_child Fork_Tree.subtree_child [of n "cut_above f r i" j _ c] by auto
  qed simp
qed

lemma cut_above_tree:
  assumes t: "tree_ok f root" and r: "f r = Some i"
  shows "tree_ok (cut_above f r i) r"
proof -
  note l = tree_okD(1) [OF t]
  have "links_ok (cut_above f r i)"
    unfolding links_ok_def
  proof (intro conjI allI impI)
    show "finite (dom (cut_above f r i))"
      by (simp add: cut_above_def finite_subtree [OF l] r)
    fix j x assume j: "cut_above f r i j = Some x"
    obtain y where y: "f j = Some y" "j \<in> subtree f r" "fi_children x = fi_children y" by (rule cut_above_node [OF j r])
    show "sorted (fi_children x)" "distinct (fi_children x)" using links_okD(1,2) [OF l y(1)] y(3) by simp_all
    show "\<forall>c \<in> set (fi_children x). key_slot j < key_slot c \<and> (\<exists>ci. cut_above f r i c = Some ci \<and> fi_parent ci = Some j)"
      using links_okD(3,4) [OF l y(1)] cut_above_child(1) [OF l r y(2,1)] unfolding y(3) by auto
  qed
  moreover have "\<exists>p pi. fi_parent x = Some p \<and> cut_above f r i p = Some pi \<and> j \<in> set (fi_children pi)"
    if j: "cut_above f r i j = Some x" "j \<noteq> r" for j x
  proof -
    have j': "j \<in> subtree f r" "f j = Some x" using cut_above_cases [OF j(1)] j(2) by blast+
    obtain p pi where p: "p \<in> subtree f r" "f p = Some pi" "j \<in> set (fi_children pi)" by (rule subtree_parent [OF j'(1) j(2)])
    have "fi_parent x = Some p" using links_okD(4) [OF l p(2,3)] j'(2) by auto
    moreover have "\<exists>pi'. cut_above f r i p = Some pi' \<and> fi_children pi' = fi_children pi"
      using cut_above_below [OF p(1), of i] p(2) r by (cases "p = r") (simp_all add: cut_above_root)
    ultimately show ?thesis using p(3) by auto
  qed
  ultimately show ?thesis unfolding tree_ok_def by (auto simp: cut_above_root)
qed

lemma node_ok_parent: "node_ok f k (i\<lparr>fi_parent := q\<rparr>) = node_ok f k i"
proof -
  have "fi_is_candidate (i\<lparr>fi_parent := q\<rparr>) = fi_is_candidate i" by (simp add: fi_is_candidate_def)
  then show ?thesis by (simp add: node_ok_def stake_ok_def best_ok_def deepest_ok_def confirmed_ok_def)
qed

lemma set_tree_root_ok:
  assumes inv: "fc_inv self" and r: "fork_infos self r = Some i"
  shows "\<exists>self'. set_tree_root self r = Some self' \<and> fc_inv self' \<and>
    fork_infos self' = cut_above (fork_infos self) r i \<and>
    latest_votes self' = latest_votes self \<and> tree_root self' = r"
proof -
  let ?f = "fork_infos self" and ?g = "cut_above (fork_infos self) r i"
  note t = fc_invD(1) [OF inv] and l = fc_invD(2) [OF inv]
  have root: "?f (tree_root self) \<noteq> None" "r \<in> subtree ?f (tree_root self)"
    using tree_okD(2) [OF t] subtree_root [OF t] r by auto
  have "tree_root self \<in> subtree ?f r \<longrightarrow> tree_root self = r"
    using subtree_slot [OF l root(2)] subtree_slot [OF l, of "tree_root self" r] by auto
  from subtree_diff_ok [OF l root(1) this] obtain ks where ks: "subtree_diff self (tree_root self) r = Some ks"
    "distinct ks" "set ks = dom ?f - subtree ?f r" unfolding subtree_root [OF t] by blast
  have rm: "remove_nodes self ks = Some (self\<lparr>fork_infos := ?f |` (- set ks)\<rparr>)"
    using ks by (intro remove_nodes_ok) auto
  have "?f |` (- set ks) = ?f |` subtree ?f r"
    unfolding ks(3) using subtree_dom [OF l, of r] r by (auto simp: restrict_map_def fun_eq_iff domIff)
  then have eq: "set_tree_root self r = Some (self\<lparr>fork_infos := ?g, tree_root := r\<rparr>)"
    using r by (simp add: set_tree_root_def ks(1) rm put_info_def cut_above_def)
  have nd: "node_ok ?g j x \<and> fi_best_slot x \<in> subtree ?g j \<and> (fi_is_duplicate_confirmed x \<longrightarrow> fi_latest_invalid_ancestor x = None) \<and>
      (\<forall>n. fi_latest_invalid_ancestor x = Some n \<longrightarrow> n \<le> key_slot j)" if j: "?g j = Some x" for j x
  proof -
    obtain y where y: "?f j = Some y" "j \<in> subtree ?f r" "fi_children x = fi_children y" "x = y \<or> x = y\<lparr>fi_parent := None\<rparr>"
      by (rule cut_above_node [OF j r])
    have "node_ok ?g j y = node_ok ?f j y" using cut_above_child(1) [OF l r y(2,1)] by (intro node_ok_cong)
    then have "node_ok ?g j y" using fc_invD(7) [OF inv y(1)] by simp
    moreover have "fi_best_slot y \<in> subtree ?g j"
      using fc_invD(5) [OF inv] y(1) unfolding cut_above_subtree [OF l r y(2)] best_below_def by blast
    moreover have "(fi_is_duplicate_confirmed y \<longrightarrow> fi_latest_invalid_ancestor y = None) \<and>
      (\<forall>n. fi_latest_invalid_ancestor y = Some n \<longrightarrow> n \<le> key_slot j)"
      using fc_invD(4) [OF inv] y(1) unfolding flags_ok_def by blast
    ultimately show ?thesis using y(4) node_ok_parent [of ?g j None y] by auto
  qed
  have "fc_inv (self\<lparr>fork_infos := ?g, tree_root := r\<rparr>)"
    using nd cut_above_tree [OF t r] unfolding fc_inv_def nodes_ok_but_def flags_ok_def best_below_def by simp
  then show ?thesis using eq by auto
qed

section \<open>Growing the tree above its root\<close>

lemma with_root_parent_links:
  assumes t: "tree_ok f r" and r: "f r = Some i" and q: "f q = None" "key_slot q < key_slot r" "fi_children iq = [r]"
  shows "links_ok (f(r \<mapsto> i\<lparr>fi_parent := Some q\<rparr>, q \<mapsto> iq))"
  unfolding links_ok_def
proof (intro conjI allI impI)
  let ?g = "f(r \<mapsto> i\<lparr>fi_parent := Some q\<rparr>, q \<mapsto> iq)"
  note l = tree_okD(1) [OF t]
  have qr: "q \<noteq> r" using q(1) r by auto
  show "finite (dom ?g)" using l by (simp add: links_ok_def)
  fix j x assume j: "?g j = Some x"
  have "sorted (fi_children x) \<and> distinct (fi_children x) \<and> (\<forall>c \<in> set (fi_children x).
      key_slot j < key_slot c \<and> (\<exists>ci. ?g c = Some ci \<and> fi_parent ci = Some j))"
  proof (cases "j = q")
    case True
    then show ?thesis using j q qr by simp
  next
    case False
    obtain y where y: "f j = Some y" "fi_children x = fi_children y" using j False r by (cases "j = r") auto
    have "\<exists>ci. ?g c = Some ci \<and> fi_parent ci = Some j" if c: "c \<in> set (fi_children y)" for c
    proof -
      obtain ci where ci: "f c = Some ci" "fi_parent ci = Some j" using links_okD(4) [OF l y(1) c] by blast
      have "c \<noteq> q" "c \<noteq> r" using ci q(1) tree_okD(2) [OF t] by auto
      then show ?thesis using ci by simp
    qed
    then show ?thesis using links_okD(1-3) [OF l y(1)] unfolding y(2) by blast
  qed
  then show "sorted (fi_children x)" "distinct (fi_children x)" "\<forall>c \<in> set (fi_children x).
      key_slot j < key_slot c \<and> (\<exists>ci. ?g c = Some ci \<and> fi_parent ci = Some j)" by blast+
qed

lemma with_root_parent_tree:
  assumes t: "tree_ok f r" and r: "f r = Some i" and q: "f q = None" "key_slot q < key_slot r" "fi_children iq = [r]" "fi_parent iq = None"
  shows "tree_ok (f(r \<mapsto> i\<lparr>fi_parent := Some q\<rparr>, q \<mapsto> iq)) q"
  unfolding tree_ok_def
proof (intro conjI allI impI)
  let ?g = "f(r \<mapsto> i\<lparr>fi_parent := Some q\<rparr>, q \<mapsto> iq)"
  show "links_ok ?g" by (rule with_root_parent_links [OF t r q(1-3)])
  show "\<exists>i. ?g q = Some i \<and> fi_parent i = None" using q(4) by simp
  fix j x assume j: "?g j = Some x \<and> j \<noteq> q"
  show "\<exists>p pi. fi_parent x = Some p \<and> ?g p = Some pi \<and> j \<in> set (fi_children pi)"
  proof (cases "j = r")
    case True
    then have "fi_parent x = Some q" using j by auto
    then show ?thesis using q(3) True by (intro exI [of _ q] exI [of _ iq]) simp
  next
    case False
    then obtain p pi where p: "fi_parent x = Some p" "f p = Some pi" "j \<in> set (fi_children pi)"
      using tree_okD(3) [OF t, of j x] j by auto
    have "p \<noteq> q" using p(2) q(1) by auto
    then have "\<exists>pi'. ?g p = Some pi' \<and> fi_children pi' = fi_children pi" using p(2) r by (cases "p = r") auto
    then show ?thesis using p by auto
  qed
qed

lemma with_root_parent_subtree:
  assumes r: "f r = Some i" and q: "f q = None"
  shows "subtree f j \<subseteq> subtree (f(r \<mapsto> i\<lparr>fi_parent := Some q\<rparr>, q \<mapsto> iq)) j"
proof
  let ?g = "f(r \<mapsto> i\<lparr>fi_parent := Some q\<rparr>, q \<mapsto> iq)"
  fix n assume "n \<in> subtree f j"
  then show "n \<in> subtree ?g j"
  proof induction
    case (subtree_child n x c)
    have "n \<noteq> q" using subtree_child(2) q by auto
    then obtain y where "?g n = Some y" "c \<in> set (fi_children y)" using subtree_child(2,3) r by (cases "n = r") auto
    then show ?case using subtree_child(4) Fork_Tree.subtree_child [of n ?g j y c] by blast
  qed simp
qed

text \<open>
  The best slot of the old root becomes the best slot of the new one, which is right when the old
  root is a candidate.
\<close>

lemma add_root_parent_ok:
  assumes inv: "fc_inv self" and q: "fork_infos self q = None" "key_slot q < key_slot (tree_root self)"
    and c: "fork_infos self (tree_root self) = Some i" "fi_is_candidate i"
  shows "\<exists>self' iq. add_root_parent self q = Some self' \<and> fc_inv self' \<and> fi_stake_voted_at iq = 0 \<and>
    fork_infos self' = (fork_infos self)(tree_root self \<mapsto> i\<lparr>fi_parent := Some q\<rparr>, q \<mapsto> iq) \<and>
    latest_votes self' = latest_votes self \<and> tree_root self' = q"
proof -
  let ?f = "fork_infos self" and ?r = "tree_root self"
  define iq where "iq = \<lparr>fi_stake_voted_at = 0, fi_stake_voted_subtree = fi_stake_voted_subtree i, fi_height = fi_height i + 1,
    fi_best_slot = fi_best_slot i, fi_deepest_slot = fi_deepest_slot i, fi_parent = None, fi_children = [?r],
    fi_latest_invalid_ancestor = None, fi_is_duplicate_confirmed = fi_is_duplicate_confirmed i\<rparr>"
  define g where "g = ?f(?r \<mapsto> i\<lparr>fi_parent := Some q\<rparr>, q \<mapsto> iq)"
  note t = fc_invD(1) [OF inv] and l = fc_invD(2) [OF inv]
  have qr: "q \<noteq> ?r" using q(2) by auto
  have g: "g q = Some iq" "g ?r = Some (i\<lparr>fi_parent := Some q\<rparr>)" and go: "j \<noteq> q \<Longrightarrow> j \<noteq> ?r \<Longrightarrow> g j = ?f j" for j
    using qr by (simp_all add: g_def)
  have eq: "add_root_parent self q = Some (self\<lparr>fork_infos := g, tree_root := q\<rparr>)"
    using q c(1) by (simp add: add_root_parent_def put_info_def Let_def g_def iq_def)
  have t': "tree_ok g q" unfolding g_def using with_root_parent_tree [OF t c(1) q, of iq] by (simp add: iq_def)
  have sub: "subtree ?f j \<subseteq> subtree g j" for j unfolding g_def by (rule with_root_parent_subtree [of ?f, OF c(1) q(1)])
  have best: "is_best g (set (fi_children iq)) ?r" "is_deepest g (set (fi_children iq)) ?r"
    using c(2) by (simp_all add: is_best_def is_deepest_def fi_is_candidate_def iq_def g)
  have "stake_ok g iq" "confirmed_ok g iq" by (simp_all add: stake_ok_def confirmed_ok_def iq_def g)
  moreover have "best_ok g q iq" by (rule best_okI [OF best(1)]) (simp add: g iq_def)
  moreover have "deepest_ok g q iq" by (rule deepest_okI [OF best(2)]) (simp_all add: g iq_def)
  ultimately have new: "node_ok g q iq" unfolding node_ok_def by blast
  have below: "fi_best_slot y \<in> subtree g j" if "?f j = Some y" for j y
    using fc_invD(5) [OF inv] that sub unfolding best_below_def by blast
  have "?r \<in> subtree g q" using subtree_of_child [of g q iq ?r] g(1) by (simp add: iq_def)
  then have ib: "fi_best_slot iq \<in> subtree g q" using subtree_trans [OF below [OF c(1)]] by (simp add: iq_def)
  have old: "node_ok g j y" if y: "?f j = Some y" for j y
  proof -
    have "g d = ?f d" if d: "d \<in> set (fi_children y)" for d
    proof (rule go)
      show "d \<noteq> q" "d \<noteq> ?r" using links_okD(4) [OF l y d] q(1) tree_okD(2) [OF t] by auto
    qed
    then have "node_ok g j y = node_ok ?f j y" by (rule node_ok_cong)
    then show ?thesis using fc_invD(7) [OF inv y] by simp
  qed
  have nd: "node_ok g j x \<and> fi_best_slot x \<in> subtree g j \<and> (fi_is_duplicate_confirmed x \<longrightarrow> fi_latest_invalid_ancestor x = None) \<and>
      (\<forall>n. fi_latest_invalid_ancestor x = Some n \<longrightarrow> n \<le> key_slot j)" if j: "g j = Some x" for j x
  proof (cases "j = q")
    case True
    then have "x = iq" using j g by simp
    then show ?thesis using new ib True by (simp add: iq_def)
  next
    case False
    obtain y where y: "?f j = Some y" "x = y \<or> x = y\<lparr>fi_parent := Some q\<rparr>"
      using j go [OF False] g(2) c(1) by (cases "j = ?r") auto
    have "(fi_is_duplicate_confirmed y \<longrightarrow> fi_latest_invalid_ancestor y = None) \<and>
      (\<forall>n. fi_latest_invalid_ancestor y = Some n \<longrightarrow> n \<le> key_slot j)"
      using fc_invD(4) [OF inv] y(1) unfolding flags_ok_def by blast
    then show ?thesis using y(2) old [OF y(1)] below [OF y(1)] node_ok_parent [of g j "Some q" y] by auto
  qed
  have "fc_inv (self\<lparr>fork_infos := g, tree_root := q\<rparr>)"
    using nd t' unfolding fc_inv_def nodes_ok_but_def flags_ok_def best_below_def by simp
  moreover have "fi_stake_voted_at iq = 0" by (simp add: iq_def)
  ultimately show ?thesis using eq unfolding g_def
    by (intro exI [of _ "self\<lparr>fork_infos := ?f(?r \<mapsto> i\<lparr>fi_parent := Some q\<rparr>, q \<mapsto> iq), tree_root := q\<rparr>"] exI [of _ iq]) simp
qed

end
