(* ===== verification/Fork_Run.thy ===== *)
theory Fork_Run
  imports Fork_Root
begin

text \<open>
  Runs of the fork choice: creation, new leaves, vote batches, new roots, a new parent of the root,
  and marking forks invalid and valid, in any order.  Each of them keeps the invariant, and the properties
  of the fork choice hold in every state of such a run.  One table of epoch stakes serves a whole run.
  \<open>split_off\<close>, \<open>merge\<close> and \<open>purge_prune\<close>, with which a duplicate block is taken out of the tree and put
  back, are modelled but are not steps of a run.
\<close>

section \<open>Runs\<close>

text \<open>
  A leaf is added below a block of a smaller slot, and no vote for it was counted before.  A block
  is never the default key, whose hash is zero.
\<close>

inductive fc_run :: "stake_env \<Rightarrow> fork_choice \<Rightarrow> bool" for env where
  run_new: "fork_choice_new root = Some self \<Longrightarrow> root \<noteq> default_key \<Longrightarrow> fc_run env self"
| run_leaf: "fc_run env self \<Longrightarrow> add_new_leaf_slot self k (Some p) = Some self' \<Longrightarrow> fork_infos self p \<noteq> None \<Longrightarrow>
    key_slot p < key_slot k \<Longrightarrow> fork_infos self k \<noteq> None \<or> Some k \<notin> range (latest_votes self) \<Longrightarrow> fc_run env self'"
| run_votes: "fc_run env self \<Longrightarrow> add_votes env self pubkey_votes = Some (self', best) \<Longrightarrow>
    distinct (map fst pubkey_votes) \<Longrightarrow> fc_run env self'"
| run_root: "fc_run env self \<Longrightarrow> set_tree_root self root = Some self' \<Longrightarrow> fork_infos self root \<noteq> None \<Longrightarrow> fc_run env self'"
| run_root_parent: "fc_run env self \<Longrightarrow> add_root_parent self q = Some self' \<Longrightarrow> q \<noteq> default_key \<Longrightarrow>
    is_candidate self (tree_root self) = Some True \<Longrightarrow> Some q \<notin> range (latest_votes self) \<Longrightarrow> fc_run env self'"
| run_invalid: "fc_run env self \<Longrightarrow> mark_fork_invalid_candidate self k = Some self' \<Longrightarrow> fc_run env self'"
| run_valid: "fc_run env self \<Longrightarrow> mark_fork_valid_candidate self k = Some (self', confirmed) \<Longrightarrow>
    fork_infos self k \<noteq> None \<Longrightarrow> fc_run env self'"

definition run_inv :: "stake_env \<Rightarrow> fork_choice \<Rightarrow> bool" where
  "run_inv env self \<longleftrightarrow> fc_inv self \<and> votes_inv env self \<and> fork_infos self default_key = None"

lemma voted_stake_none: "Some k \<notin> range votes \<Longrightarrow> voted_stake env votes k = 0"
  unfolding voted_stake_def by (metis (mono_tags, lifting) empty_Collect_eq rangeI sum.empty)

lemma run_leaf_ok:
  assumes inv: "run_inv env self" and p: "fork_infos self p = Some ip" and s: "key_slot p < key_slot k"
    and v: "fork_infos self k \<noteq> None \<or> Some k \<notin> range (latest_votes self)"
  shows "\<exists>self'. add_new_leaf_slot self k (Some p) = Some self' \<and> run_inv env self'"
proof (cases "fork_infos self k")
  case (Some i)
  then show ?thesis using inv by (simp add: add_new_leaf_slot_def)
next
  case None
  let ?ik = "leaf_info k (Some p) (fi_latest_invalid_ancestor ip)"
  obtain s' where s': "add_new_leaf_slot self k (Some p) = Some s'" "fc_inv s'"
    "same_static (with_leaf (fork_infos self) k p ip ?ik) (fork_infos s')" "latest_votes s' = latest_votes self"
    using add_new_leaf_ok [OF _ None p s] inv by (auto simp: run_inv_def)
  have "fi_stake_voted_at i' = voted_stake env (latest_votes s') j" if j: "fork_infos s' j = Some i'" for j i'
  proof -
    obtain i where i: "with_leaf (fork_infos self) k p ip ?ik j = Some i" "fi_stake_voted_at i' = fi_stake_voted_at i"
      by (rule same_static_Some [OF s'(3) j])
    show ?thesis
      by (rule with_leaf_cases [OF i(1) None p])
        (use inv p v None i(2) s'(4) in \<open>auto simp: run_inv_def votes_inv_def voted_stake_none leaf_info_def\<close>)
  qed
  moreover have "fork_infos s' default_key = None"
  proof (rule ccontr)
    assume "fork_infos s' default_key \<noteq> None"
    then obtain i' where "fork_infos s' default_key = Some i'" by blast
    then obtain i where i: "with_leaf (fork_infos self) k p ip ?ik default_key = Some i" by (rule same_static_Some [OF s'(3)])
    show False by (rule with_leaf_cases [OF i None p]) (use inv p s in \<open>auto simp: run_inv_def default_key_def\<close>)
  qed
  ultimately show ?thesis using s' inv by (auto simp: run_inv_def votes_inv_def)
qed

text \<open>An operation that keeps the links keeps what the run adds to the invariant.\<close>

lemma run_inv_keep:
  assumes inv: "run_inv env self" and s: "tree_shape (fork_infos self') = tree_shape (fork_infos self)"
    and v: "latest_votes self' = latest_votes self" and f: "fc_inv self'"
    and st: "\<forall>j i. fork_infos self j = Some i \<longrightarrow> (\<exists>i'. fork_infos self' j = Some i' \<and> fi_stake_voted_at i' = fi_stake_voted_at i)"
  shows "run_inv env self'"
proof -
  have d: "dom (fork_infos self') = dom (fork_infos self)" by (rule tree_shape_dom [OF s])
  have "fi_stake_voted_at i' = voted_stake env (latest_votes self') j" if j: "fork_infos self' j = Some i'" for j i'
  proof -
    obtain i where i: "fork_infos self j = Some i" using j d by blast
    then have "fi_stake_voted_at i' = fi_stake_voted_at i" using st j by fastforce
    then show ?thesis using inv i v by (simp add: run_inv_def votes_inv_def)
  qed
  then show ?thesis using inv d v f by (auto simp: run_inv_def votes_inv_def)
qed

lemma run_votes_ok:
  assumes inv: "run_inv env self" and d: "distinct (map fst vs)"
  shows "\<exists>self' best. add_votes env self vs = Some (self', best) \<and> best_overall_slot self' = Some best \<and> run_inv env self'"
proof -
  obtain s' b where s': "add_votes env self vs = Some (s', b)" "best_overall_slot s' = Some b" "fc_inv s'" "votes_inv env s'"
    "tree_shape (fork_infos s') = tree_shape (fork_infos self)"
    using add_votes_ok [OF _ _ d, of self env] inv by (auto simp: run_inv_def)
  have "fork_infos s' default_key = None" using tree_shape_dom [OF s'(5)] inv by (auto simp: run_inv_def)
  then show ?thesis using s' by (simp add: run_inv_def)
qed

lemma run_root_ok:
  assumes inv: "run_inv env self" and r: "fork_infos self r = Some i"
  shows "\<exists>self'. set_tree_root self r = Some self' \<and> run_inv env self'"
proof -
  obtain s' where s': "set_tree_root self r = Some s'" "fc_inv s'" "fork_infos s' = cut_above (fork_infos self) r i"
    "latest_votes s' = latest_votes self"
    using set_tree_root_ok [OF _ r] inv by (auto simp: run_inv_def)
  have "fi_stake_voted_at x = voted_stake env (latest_votes s') j" if j: "fork_infos s' j = Some x" for j x
  proof -
    obtain y where "fork_infos self j = Some y" "x = y \<or> x = y\<lparr>fi_parent := None\<rparr>"
      by (rule cut_above_node [OF j [unfolded s'(3)] r])
    then show ?thesis using inv s'(4) by (auto simp: run_inv_def votes_inv_def)
  qed
  moreover have "fork_infos s' default_key = None"
  proof (rule ccontr)
    assume "fork_infos s' default_key \<noteq> None"
    then obtain x where x: "cut_above (fork_infos self) r i default_key = Some x" unfolding s'(3) by blast
    show False by (rule cut_above_node [OF x r]) (use inv in \<open>simp add: run_inv_def\<close>)
  qed
  ultimately show ?thesis using s' inv by (auto simp: run_inv_def votes_inv_def)
qed

lemma run_root_parent_ok:
  assumes inv: "run_inv env self" and q: "fork_infos self q = None" "key_slot q < key_slot (tree_root self)" "q \<noteq> default_key"
    and c: "is_candidate self (tree_root self) = Some True" and v: "Some q \<notin> range (latest_votes self)"
  shows "\<exists>self'. add_root_parent self q = Some self' \<and> run_inv env self'"
proof -
  obtain i where i: "fork_infos self (tree_root self) = Some i" "fi_is_candidate i"
    using c by (auto simp: is_candidate_def)
  obtain s' iq where s': "add_root_parent self q = Some s'" "fc_inv s'" "fi_stake_voted_at iq = 0"
    "fork_infos s' = (fork_infos self)(tree_root self \<mapsto> i\<lparr>fi_parent := Some q\<rparr>, q \<mapsto> iq)"
    "latest_votes s' = latest_votes self"
    using add_root_parent_ok [OF _ q(1,2) i] inv by (auto simp: run_inv_def)
  have "tree_root self \<noteq> default_key" using i(1) inv by (auto simp: run_inv_def)
  then have "fork_infos s' default_key = None" using q(3) inv unfolding s'(4) by (simp add: run_inv_def)
  moreover have "fi_stake_voted_at x = voted_stake env (latest_votes s') j" if j: "fork_infos s' j = Some x" for j x
  proof (cases "j = q")
    case True
    then show ?thesis using j v voted_stake_none [of q "latest_votes self"] s'(3) by (simp add: s'(4,5))
  next
    case False
    then obtain y where "fork_infos self j = Some y" "fi_stake_voted_at x = fi_stake_voted_at y"
      using j i(1) unfolding s'(4) by (cases "j = tree_root self") auto
    then show ?thesis using inv by (simp add: s'(5) run_inv_def votes_inv_def)
  qed
  ultimately have "run_inv env s'" using s'(2,5) inv by (simp add: run_inv_def votes_inv_def)
  then show ?thesis using s'(1) by blast
qed

lemma fc_run_inv: "fc_run env self \<Longrightarrow> run_inv env self"
proof (induction rule: fc_run.induct)
  case (run_new root self)
  then show ?case using fork_choice_new_ok [of root env] by (auto simp: run_inv_def)
next
  case (run_leaf self k p self')
  then show ?case using run_leaf_ok [of env self p _ k] by auto
next
  case (run_votes self pubkey_votes self' best)
  then show ?case using run_votes_ok [of env self pubkey_votes] by auto
next
  case (run_root self root self')
  then show ?case using run_root_ok [of env self root] by auto
next
  case (run_root_parent self q self')
  then have "fork_infos self q = None" "key_slot q < key_slot (tree_root self)"
    by (auto simp: add_root_parent_def split: if_splits)
  then show ?case using run_root_parent run_root_parent_ok [of env self q] by auto
next
  case (run_invalid self k self')
  show ?case
  proof (cases "fork_infos self k")
    case None
    then show ?thesis using run_invalid by (simp add: mark_fork_invalid_candidate_def)
  next
    case (Some i)
    then have "\<not> fi_is_duplicate_confirmed i"
      using run_invalid(2) by (auto simp: mark_fork_invalid_candidate_def split: if_splits)
    from mark_invalid_ok [OF _ Some this] run_invalid show ?thesis
      by (intro run_inv_keep [OF run_invalid(3)]) (force simp: run_inv_def)+
  qed
next
  case (run_valid self k self' confirmed)
  then obtain i where "fork_infos self k = Some i" by blast
  from mark_valid_ok [OF _ this] run_valid show ?case
    by (intro run_inv_keep [OF run_valid(4)]) (force simp: run_inv_def)+
qed

section \<open>The weight of a subtree\<close>

text \<open>The validators whose latest vote is in the subtree of a block, and the stake each votes with.\<close>

definition voters_below :: "fork_choice \<Rightarrow> slot_hash_key \<Rightarrow> pubkey set" where
  "voters_below self k = {pk. \<exists>n \<in> subtree (fork_infos self) k. latest_votes self pk = Some n}"

definition voter_stake :: "stake_env \<Rightarrow> fork_choice \<Rightarrow> pubkey \<Rightarrow> u64" where
  "voter_stake env self pk = stake_update env pk (key_slot (the (latest_votes self pk)))"

lemma weight_sum_nodes:
  assumes inv: "run_inv env self" and k: "fork_infos self k = Some i"
  shows "node_weight (fork_infos self) k = (\<Sum>n \<in> subtree (fork_infos self) k. voted_stake env (latest_votes self) n)"
proof -
  let ?f = "fork_infos self"
  have fc: "fc_inv self" using inv by (simp add: run_inv_def)
  note l = fc_invD(2) [OF fc]
  show ?thesis
    using l k
  proof (induction rule: tree_down_induct)
    case (node k i)
    let ?C = "set (fi_children i)"
    have dis: "subtree ?f c \<inter> subtree ?f d = {}" if "c \<in> ?C" "d \<in> ?C" "c \<noteq> d" for c d
      by (rule siblings_disjoint [OF l node(1) that])
    have fin: "finite (subtree ?f c)" if "c \<in> ?C" for c
      using links_okD(4) [OF l node(1) that] by (auto intro: finite_subtree [OF l])
    have kn: "k \<notin> (\<Union>c \<in> ?C. subtree ?f c)" using parent_not_in_subtree [OF l node(1)] by blast
    have "node_weight ?f k = fi_stake_voted_at i + (\<Sum>c \<in> ?C. node_weight ?f c)"
      using fc_invD(7) [OF fc node(1)] node(1) by (simp add: node_ok_def stake_ok_def)
    also have "\<dots> = voted_stake env (latest_votes self) k +
        (\<Sum>c \<in> ?C. \<Sum>n \<in> subtree ?f c. voted_stake env (latest_votes self) n)"
      using node inv by (simp add: run_inv_def votes_inv_def)
    also have "\<dots> = voted_stake env (latest_votes self) k +
        (\<Sum>n \<in> (\<Union>c \<in> ?C. subtree ?f c). voted_stake env (latest_votes self) n)"
      using dis fin by (subst sum.UNION_disjoint) auto
    also have "\<dots> = (\<Sum>n \<in> subtree ?f k. voted_stake env (latest_votes self) n)"
      unfolding subtree_unfold [of ?f, OF node(1)] using fin kn by (subst sum.insert) auto
    finally show ?case .
  qed
qed

lemma sum_voters:
  fixes g :: "pubkey \<Rightarrow> slot_hash_key \<Rightarrow> 'a::comm_monoid_add"
  assumes "finite S" "finite (dom votes)"
  shows "(\<Sum>n \<in> S. \<Sum>pk \<in> {pk. votes pk = Some n}. g pk n) =
    (\<Sum>pk \<in> {pk. \<exists>n \<in> S. votes pk = Some n}. g pk (the (votes pk)))"
proof -
  have fin: "finite {pk. votes pk = Some n}" for n
    by (rule finite_subset [OF _ assms(2)]) auto
  have "(\<Sum>n \<in> S. \<Sum>pk \<in> {pk. votes pk = Some n}. g pk n) =
      (\<Sum>n \<in> S. \<Sum>pk \<in> {pk. votes pk = Some n}. g pk (the (votes pk)))" by (intro sum.cong) auto
  also have "\<dots> = (\<Sum>pk \<in> (\<Union>n \<in> S. {pk. votes pk = Some n}). g pk (the (votes pk)))"
    using assms(1) fin by (subst sum.UNION_disjoint) auto
  also have "(\<Union>n \<in> S. {pk. votes pk = Some n}) = {pk. \<exists>n \<in> S. votes pk = Some n}" by auto
  finally show ?thesis .
qed

lemma weight_sum_voters:
  assumes inv: "run_inv env self" and k: "fork_infos self k = Some i"
  shows "stake_voted_subtree self k = Some (\<Sum>pk \<in> voters_below self k. voter_stake env self pk)"
proof -
  have fin: "finite (subtree (fork_infos self) k)" "finite (dom (latest_votes self))"
    using inv k fc_invD(2) [of self] finite_subtree [of "fork_infos self" k] by (auto simp: run_inv_def votes_inv_def)
  have "node_weight (fork_infos self) k = (\<Sum>pk \<in> voters_below self k. voter_stake env self pk)"
    using weight_sum_nodes [OF assms] sum_voters [OF fin, of "\<lambda>pk n. stake_update env pk (key_slot n)"]
    by (simp add: voted_stake_def voters_below_def voter_stake_def)
  then show ?thesis using k by (simp add: stake_voted_subtree_def)
qed

lemma unat_sum_no_wrap:
  fixes g :: "'b \<Rightarrow> u64"
  assumes "finite S" "(\<Sum>x \<in> S. unat (g x)) < 2 ^ 64"
  shows "unat (\<Sum>x \<in> S. g x) = (\<Sum>x \<in> S. unat (g x))"
  using assms
proof (induction S rule: finite_induct)
  case (insert x F)
  then have "(\<Sum>x \<in> F. unat (g x)) < 2 ^ 64" by simp
  then have IH: "unat (\<Sum>x \<in> F. g x) = (\<Sum>x \<in> F. unat (g x))" by (rule insert.IH)
  have "unat (g x + (\<Sum>x \<in> F. g x)) = unat (g x) + unat (\<Sum>x \<in> F. g x)"
    using insert IH by (simp add: unat_word_ariths)
  then show ?case using insert(1,2) IH by simp
qed simp

lemma weight_no_wrap:
  assumes inv: "run_inv env self" and k: "fork_infos self k = Some i"
    and total: "(\<Sum>pk \<in> dom (latest_votes self). unat (voter_stake env self pk)) < 2 ^ 64"
  shows "unat (node_weight (fork_infos self) k) = (\<Sum>pk \<in> voters_below self k. unat (voter_stake env self pk))"
proof -
  have fin: "finite (dom (latest_votes self))" using inv by (simp add: run_inv_def votes_inv_def)
  have sub: "voters_below self k \<subseteq> dom (latest_votes self)" by (auto simp: voters_below_def)
  have "(\<Sum>pk \<in> voters_below self k. unat (voter_stake env self pk)) < 2 ^ 64"
    using total sum_mono2 [OF fin sub, of "\<lambda>pk. unat (voter_stake env self pk)"] by simp
  moreover have "node_weight (fork_infos self) k = (\<Sum>pk \<in> voters_below self k. voter_stake env self pk)"
    using weight_sum_voters [OF inv k] k by (simp add: stake_voted_subtree_def)
  ultimately show ?thesis using unat_sum_no_wrap finite_subset [OF sub fin] by metis
qed

section \<open>The best and the deepest slot\<close>

text \<open>
  From a block, following the heaviest child among the candidates until no child is a candidate.
\<close>

inductive heaviest_descent :: "fork_infos_map \<Rightarrow> slot_hash_key \<Rightarrow> slot_hash_key \<Rightarrow> bool" for f where
  descent_stop: "f k = Some i \<Longrightarrow> \<forall>c \<in> set (fi_children i). \<not> node_candidate f c \<Longrightarrow> heaviest_descent f k k"
| descent_step: "f k = Some i \<Longrightarrow> is_best f (set (fi_children i)) c \<Longrightarrow> heaviest_descent f c b \<Longrightarrow> heaviest_descent f k b"

lemma heaviest_descent_subtree: "heaviest_descent f k b \<Longrightarrow> b \<in> subtree f k"
proof (induction rule: heaviest_descent.induct)
  case (descent_step k i c b)
  have "c \<in> subtree f k" using descent_step(1,2) subtree_of_child [of f k i c] by (simp add: is_best_def)
  then show ?case using descent_step.IH subtree_trans by blast
qed simp

lemma heaviest_descent_candidate: "heaviest_descent f k b \<Longrightarrow> node_candidate f k \<Longrightarrow> node_candidate f b"
  by (induction rule: heaviest_descent.induct) (simp_all add: is_best_def)

text \<open>Two descents from the same block end at the same block.\<close>

lemma is_best_unique: "is_best f C c \<Longrightarrow> is_best f C d \<Longrightarrow> c = d"
  unfolding is_best_def using heavier_antisym by blast

lemma heaviest_descent_unique:
  "heaviest_descent f k b \<Longrightarrow> heaviest_descent f k b' \<Longrightarrow> b = b'"
proof (induction arbitrary: b' rule: heaviest_descent.induct)
  case (descent_stop k i)
  from descent_stop(3) show ?case
    by (cases rule: heaviest_descent.cases) (use descent_stop in \<open>auto simp: is_best_def\<close>)
next
  case (descent_step k i c b)
  from descent_step.prems show ?case
  proof (cases rule: heaviest_descent.cases)
    case (descent_stop i')
    then show ?thesis using descent_step(1,2) by (auto simp: is_best_def)
  next
    case (descent_step i' c')
    then have "c' = c" using \<open>f k = Some i\<close> \<open>is_best f (set (fi_children i)) c\<close> is_best_unique by fastforce
    then show ?thesis using descent_step(3) \<open>\<And>b'. heaviest_descent f c b' \<Longrightarrow> b = b'\<close> by blast
  qed
qed

lemma best_slot_descent:
  assumes fc: "fc_inv self" and k: "fork_infos self k = Some i" and c: "node_candidate (fork_infos self) k"
  shows "heaviest_descent (fork_infos self) k (fi_best_slot (the (fork_infos self k)))"
proof -
  let ?f = "fork_infos self"
  note l = fc_invD(2) [OF fc]
  have "node_candidate ?f k \<longrightarrow> heaviest_descent ?f k (fi_best_slot (the (?f k)))"
    using l k
  proof (induction rule: tree_down_induct)
    case (node k i)
    show ?case
    proof
      assume "node_candidate ?f k"
      then have ok: "best_ok ?f k i" using fc_invD(7) [OF fc node(1)] node(1) by (simp add: node_ok_def)
      show "heaviest_descent ?f k (fi_best_slot (the (?f k)))"
      proof (cases "\<exists>c \<in> set (fi_children i). node_candidate ?f c")
        case False
        then have "fi_best_slot (the (?f k)) = k" using ok node(1) by (simp add: best_ok_def)
        then show ?thesis using descent_stop [of ?f k i] node(1) False by auto
      next
        case True
        then obtain c where c: "is_best ?f (set (fi_children i)) c" "fi_best_slot i = fi_best_slot (the (?f c))"
          using ok by (auto simp: best_ok_def)
        then have "heaviest_descent ?f c (fi_best_slot (the (?f c)))" using node(2) [of c] by (simp add: is_best_def)
        then show ?thesis using descent_step [of ?f k i c] node(1) c by simp
      qed
    qed
  qed
  then show ?thesis using c by blast
qed

text \<open>How far a block is below another.\<close>

inductive at_depth :: "fork_infos_map \<Rightarrow> slot_hash_key \<Rightarrow> slot_hash_key \<Rightarrow> nat \<Rightarrow> bool" for f where
  depth_here: "at_depth f k k 0"
| depth_child: "f k = Some i \<Longrightarrow> c \<in> set (fi_children i) \<Longrightarrow> at_depth f c n d \<Longrightarrow> at_depth f k n (Suc d)"

inductive_simps at_depth_simp: "at_depth f k n d"

lemma deepest_slot_depth:
  assumes fc: "fc_inv self" and k: "fork_infos self k = Some i"
  shows "(\<exists>d. fi_height (the (fork_infos self k)) = Suc d \<and> at_depth (fork_infos self) k (fi_deepest_slot (the (fork_infos self k))) d) \<and>
    (\<forall>n m. at_depth (fork_infos self) k n m \<longrightarrow> m < fi_height (the (fork_infos self k)))"
proof -
  let ?f = "fork_infos self"
  note l = fc_invD(2) [OF fc]
  show ?thesis
    using l k
  proof (induction rule: tree_down_induct)
    case (node k i)
    have ok: "deepest_ok ?f k i" using fc_invD(7) [OF fc node(1)] by (simp add: node_ok_def)
    show ?case
    proof (cases "fi_children i = []")
      case True
      then show ?thesis using ok node(1) by (auto simp: deepest_ok_def depth_here at_depth_simp [of ?f k])
    next
      case False
      then obtain c where c: "is_deepest ?f (set (fi_children i)) c" "fi_height i = fi_height (the (?f c)) + 1"
        "fi_deepest_slot i = fi_deepest_slot (the (?f c))" using ok by (auto simp: deepest_ok_def)
      then have cC: "c \<in> set (fi_children i)" by (simp add: is_deepest_def)
      have "m < fi_height i" if m: "at_depth ?f k n m" for n m
        using m
      proof (cases rule: at_depth.cases)
        case (depth_child i' e d)
        then have e: "e \<in> set (fi_children i)" using node(1) by simp
        then have "d < fi_height (the (?f e))" using node(2) depth_child by blast
        also have "\<dots> \<le> fi_height (the (?f c))" using c(1) e by (auto simp: is_deepest_def deeper_def)
        finally show ?thesis using c(2) depth_child by simp
      qed (simp add: c(2))
      moreover obtain d where "fi_height (the (?f c)) = Suc d" "at_depth ?f c (fi_deepest_slot (the (?f c))) d"
        using node(2) [OF cC] by blast
      moreover from this(2) have "at_depth ?f k (fi_deepest_slot (the (?f c))) (Suc d)"
        using depth_child [of ?f k i c] node(1) cC by blast
      ultimately show ?thesis using c(2,3) node(1) by auto
    qed
  qed
qed

section \<open>The latest votes\<close>

text \<open>A vote replaces an older one, or one of the same slot with a greater hash.\<close>

definition supersedes :: "slot_hash_key \<Rightarrow> slot_hash_key \<Rightarrow> bool" where
  "supersedes n old \<longleftrightarrow> key_slot old < key_slot n \<or> (key_slot old = key_slot n \<and> key_hash n < key_hash old)"

definition latest_vote :: "slot_hash_key \<Rightarrow> slot_hash_key option \<Rightarrow> slot_hash_key option \<Rightarrow> slot_hash_key option" where
  "latest_vote root old new =
     (case new of
        None \<Rightarrow> old
      | Some n \<Rightarrow>
          if key_slot n < key_slot root then old
          else (case old of None \<Rightarrow> Some n | Some o' \<Rightarrow> Some (if supersedes n o' then n else o')))"

lemma generate_loop_votes:
  assumes "generate_loop env vs self ops observed = Some (self', ops')" "distinct (map fst vs)"
  shows "latest_votes self' = (\<lambda>pk. latest_vote (tree_root self) (latest_votes self pk) (map_of vs pk)) \<and>
    tree_root self' = tree_root self"
  using assms
proof (induction env vs self ops observed rule: generate_loop.induct)
  case (2 env pk n rest self ops observed)
  have none: "map_of rest pk = None" using 2(5) by (auto simp: map_of_eq_None_iff)
  have skip: "latest_vote (tree_root self) (latest_votes self pk) (Some n) = latest_votes self pk"
    if "key_slot n < key_slot (tree_root self) \<or> (\<exists>o'. latest_votes self pk = Some o' \<and> \<not> supersedes n o')"
    using that by (auto simp: latest_vote_def split: option.split)
  have same: "(\<lambda>q. latest_vote (tree_root self) (latest_votes self q) (map_of rest q)) =
      (\<lambda>q. latest_vote (tree_root self) (latest_votes self q) (map_of ((pk, n) # rest) q))"
    if "key_slot n < key_slot (tree_root self) \<or> (\<exists>o'. latest_votes self pk = Some o' \<and> \<not> supersedes n o')"
    using skip [OF that] none by (auto simp: latest_vote_def fun_eq_iff)
  let ?old = "case latest_votes self pk of Some latest \<Rightarrow> key_slot n < key_slot latest \<or>
    (key_slot n = key_slot latest \<and> key_hash n \<ge> key_hash latest) | None \<Rightarrow> False"
  show ?case
  proof (cases "key_slot n < key_slot (tree_root self)")
    case True
    then show ?thesis using 2(1) [OF True] 2(4,5) same by simp
  next
    case root: False
    then have obs: "observed pk = None" using 2(4) by (auto split: if_splits)
    show ?thesis
    proof (cases ?old)
      case True
      then have "\<exists>o'. latest_votes self pk = Some o' \<and> \<not> supersedes n o'"
        by (auto simp: supersedes_def split: option.splits)
      moreover have rec: "generate_loop env rest self ops (observed(pk \<mapsto> key_slot n)) = Some (self', ops')"
        using 2(4) root obs True by (simp add: Let_def)
      have "latest_votes self' = (\<lambda>q. latest_vote (tree_root self) (latest_votes self q) (map_of rest q)) \<and>
          tree_root self' = tree_root self"
        using 2(2) [OF root _ refl refl True rec] obs 2(5) by simp
      ultimately show ?thesis using same by simp
    next
      case False
      let ?s = "self\<lparr>latest_votes := (latest_votes self)(pk \<mapsto> n)\<rparr>"
      obtain ops1 ops2 ops3 where ops: "subtract_old_vote env ?s ops pk n (latest_votes self pk) = Some ops1"
        "entry_stake ops1 (n, LAdd) Add (stake_update env pk (key_slot n)) = Some ops2"
        "insert_aggregate_operations ?s ops2 n = Some ops3"
        "generate_loop env rest ?s ops3 (observed(pk \<mapsto> key_slot n)) = Some (self', ops')"
        using 2(4) root obs False by (auto simp: Let_def split: Option.bind_splits)
      have "latest_votes self' = (\<lambda>q. latest_vote (tree_root self) (latest_votes ?s q) (map_of rest q)) \<and>
          tree_root self' = tree_root self"
        using 2(3) [OF root _ refl refl False refl ops] obs 2(5) by simp
      moreover have "latest_vote (tree_root self) (latest_votes ?s q) (map_of rest q) =
          latest_vote (tree_root self) (latest_votes self q) (map_of ((pk, n) # rest) q)" for q
        using none root False by (auto simp: latest_vote_def supersedes_def split: option.splits)
      ultimately show ?thesis by simp
    qed
  qed
qed (simp add: latest_vote_def)

lemma process_operation_votes:
  "process_operation self k op = Some self' \<Longrightarrow> latest_votes self' = latest_votes self"
  by (cases op) (auto simp: process_operation_def mark_fork_valid_def mark_fork_invalid_def aggregate_slot_def
      add_slot_stake_def subtract_slot_stake_def put_info_def Let_def split: option.splits if_splits Option.bind_splits)

lemma process_loop_votes:
  "process_loop self L = Some self' \<Longrightarrow> latest_votes self' = latest_votes self"
proof (induction L arbitrary: self)
  case (Cons x L)
  obtain k l op where x: "x = ((k, l), op)" by (cases x) auto
  with Cons show ?case by (auto dest: process_operation_votes split: Option.bind_splits)
qed simp

lemma add_votes_latest:
  assumes "add_votes env self vs = Some (self', best)" "distinct (map fst vs)"
  shows "latest_votes self' pk = latest_vote (tree_root self) (latest_votes self pk) (map_of vs pk)"
proof -
  obtain s1 ops where s1: "generate_loop env vs self RBT.empty Map.empty = Some (s1, ops)"
    "process_update_operations s1 ops = Some self'"
    using assms(1) by (auto simp: add_votes_def generate_update_operations_def split: Option.bind_splits)
  from generate_loop_votes [OF s1(1) assms(2)] process_loop_votes s1(2) show ?thesis
    unfolding process_update_operations_def by metis
qed

section \<open>Aggregation changes nothing\<close>

lemma is_deepest_unique: "is_deepest f C c \<Longrightarrow> is_deepest f C d \<Longrightarrow> c = d"
  unfolding is_deepest_def deeper_def using heavier_antisym by (metis less_asym less_irrefl)

lemma best_ok_unique:
  assumes "best_ok f k i" "best_ok f k i'" "fi_children i' = fi_children i"
  shows "fi_best_slot i' = fi_best_slot i"
  using assms by (auto simp: best_ok_def dest: is_best_unique split: if_splits)

lemma deepest_ok_unique:
  assumes "deepest_ok f k i" "deepest_ok f k i'" "fi_children i' = fi_children i"
  shows "fi_height i' = fi_height i \<and> fi_deepest_slot i' = fi_deepest_slot i"
  using assms is_deepest_unique by (fastforce simp: deepest_ok_def split: if_splits)

lemma aggregate_fixpoint:
  assumes fc: "fc_inv self" and k: "fork_infos self k = Some i" "fi_is_candidate i"
  shows "aggregate_slot self k = Some self"
proof -
  let ?f = "fork_infos self"
  note ok = fc_invD(7) [OF fc k(1), unfolded node_ok_def]
  obtain i' where i': "aggregate_slot self k = Some (put_info self k i')" "fi_parent i' = fi_parent i" "fi_children i' = fi_children i"
    "fi_stake_voted_at i' = fi_stake_voted_at i" "stake_ok ?f i'" "best_ok ?f k i'" "deepest_ok ?f k i'"
    "if \<exists>c \<in> set (fi_children i). node_confirmed ?f c then fi_is_duplicate_confirmed i' \<and> fi_latest_invalid_ancestor i' = None
     else fi_is_duplicate_confirmed i' = fi_is_duplicate_confirmed i \<and> fi_latest_invalid_ancestor i' = fi_latest_invalid_ancestor i"
    using aggregate_slot_ok [OF fc_invD(2) [OF fc] k(1)] by blast
  have "fi_is_duplicate_confirmed i' = fi_is_duplicate_confirmed i" "fi_latest_invalid_ancestor i' = fi_latest_invalid_ancestor i"
    using i'(8) ok k(2) by (auto simp: confirmed_ok_def fi_is_candidate_def split: if_splits)
  moreover have "fi_stake_voted_subtree i' = fi_stake_voted_subtree i"
    using i'(3,4,5) ok by (simp add: stake_ok_def)
  moreover have "fi_best_slot i' = fi_best_slot i" using best_ok_unique [OF _ i'(6,3)] ok k(2) by blast
  ultimately have "i' = i" using i'(2-4) deepest_ok_unique [OF _ i'(7,3)] ok by auto
  then show ?thesis using i'(1) k(1) by (simp add: put_info_def fun_upd_idem)
qed

section \<open>Marking forks\<close>

lemma mark_invalid_effect:
  assumes "fc_run env self" "is_duplicate_confirmed self k = Some False"
  shows "\<exists>self'. mark_fork_invalid_candidate self k = Some self' \<and>
    (\<forall>j. is_candidate self' j = (if j \<in> subtree (fork_infos self) k then Some False else is_candidate self j)) \<and>
    (\<forall>j b. is_candidate self' j = Some True \<longrightarrow> best_slot self' j = Some b \<longrightarrow> b \<notin> subtree (fork_infos self) k)"
proof -
  have inv: "fc_inv self" "fork_infos self default_key = None" using fc_run_inv [OF assms(1)] by (simp_all add: run_inv_def)
  obtain i where i: "fork_infos self k = Some i" "\<not> fi_is_duplicate_confirmed i"
    using assms(2) by (auto simp: is_duplicate_confirmed_def)
  obtain s' where s': "mark_fork_invalid_candidate self k = Some s'" "fc_inv s'"
    "tree_shape (fork_infos s') = tree_shape (fork_infos self)"
    "\<And>j ij. fork_infos self j = Some ij \<Longrightarrow> \<exists>ij'. fork_infos s' j = Some ij' \<and>
       fi_latest_invalid_ancestor ij' = (if j \<in> subtree (fork_infos self) k
         then mark_invalid_ancestor (key_slot k) (fi_latest_invalid_ancestor ij) else fi_latest_invalid_ancestor ij)"
    using mark_invalid_ok [OF inv(1) i inv(2)] by meson
  have dom: "fork_infos s' j = None \<longleftrightarrow> fork_infos self j = None" for j
    using tree_shape_dom [OF s'(3)] by (auto simp: domIff)
  have sub: "fork_infos self j \<noteq> None" if "j \<in> subtree (fork_infos self) k" for j
    using subtree_dom [OF fc_invD(2) [OF inv(1)] _ that] i(1) by simp
  have cand: "is_candidate s' j = (if j \<in> subtree (fork_infos self) k then Some False else is_candidate self j)" for j
  proof (cases "fork_infos self j")
    case None
    then show ?thesis using dom [of j] sub [of j] by (auto simp: is_candidate_def)
  next
    case (Some ij)
    then show ?thesis using s'(4) [OF Some] by (auto simp: is_candidate_def fi_is_candidate_def mark_invalid_ancestor_def)
  qed
  have "b \<notin> subtree (fork_infos self) k" if b: "is_candidate s' j = Some True" "best_slot s' j = Some b" for j b
  proof -
    obtain ij where ij: "fork_infos s' j = Some ij" "fi_is_candidate ij" using b(1) by (auto simp: is_candidate_def)
    have d: "heaviest_descent (fork_infos s') j b"
      using best_slot_descent [OF s'(2) ij(1)] ij b(2) by (simp add: best_slot_def)
    have "node_candidate (fork_infos s') b" using heaviest_descent_candidate [OF d] ij by simp
    moreover have "fork_infos s' b \<noteq> None"
      using subtree_dom [OF fc_invD(2) [OF s'(2)] _ heaviest_descent_subtree [OF d]] ij(1) by simp
    ultimately have "is_candidate s' b = Some True" by (cases "fork_infos s' b") (simp_all add: is_candidate_def)
    then show ?thesis using cand [of b] by (auto split: if_splits)
  qed
  then show ?thesis using s'(1) cand by blast
qed

lemma mark_valid_effect:
  assumes "fc_run env self" "fork_infos self k \<noteq> None"
  shows "\<exists>self' confirmed. mark_fork_valid_candidate self k = Some (self', confirmed) \<and> distinct confirmed \<and>
    set confirmed = {a. k \<in> subtree (fork_infos self) a \<and> is_duplicate_confirmed self a = Some False} \<and>
    (\<forall>a. contains_block self a \<and> k \<in> subtree (fork_infos self) a \<longrightarrow>
       is_duplicate_confirmed self' a = Some True \<and> is_candidate self' a = Some True)"
proof -
  let ?f = "fork_infos self"
  have inv: "fc_inv self" "?f default_key = None" using fc_run_inv [OF assms(1)] by (simp_all add: run_inv_def)
  obtain i where i: "?f k = Some i" using assms(2) by blast
  obtain s' as where s': "mark_fork_valid_candidate self k = Some (s', filter (\<lambda>a. \<not> node_confirmed ?f a) (k # as))"
    "ancestor_iterator ?f k = Some as" "fc_inv s'" "tree_shape (fork_infos s') = tree_shape ?f" "node_confirmed (fork_infos s') k"
    using mark_valid_ok [OF inv(1) i inv(2)] by meson
  have as: "set as = ancestors ?f k" "distinct as" using ancestor_iterator_ok [OF fc_invD(1) [OF inv(1)] i] s'(2) by auto
  have conf: "is_duplicate_confirmed self a = Some False \<longleftrightarrow> ?f a \<noteq> None \<and> \<not> node_confirmed ?f a" for a
    by (cases "?f a") (auto simp: is_duplicate_confirmed_def)
  have "set (filter (\<lambda>a. \<not> node_confirmed ?f a) (k # as)) = {a. k \<in> subtree ?f a \<and> is_duplicate_confirmed self a = Some False}"
  proof (intro set_eqI)
    fix a
    have "a \<in> insert k (ancestors ?f k) \<longleftrightarrow> ?f a \<noteq> None \<and> k \<in> subtree ?f a"
      using i by (cases "a = k") (simp_all add: ancestors_def conj_commute)
    then show "a \<in> set (filter (\<lambda>a. \<not> node_confirmed ?f a) (k # as)) \<longleftrightarrow>
        a \<in> {a. k \<in> subtree ?f a \<and> is_duplicate_confirmed self a = Some False}"
      unfolding set_filter list.set(2) as(1) mem_Collect_eq conf by blast
  qed
  moreover have "distinct (filter (\<lambda>a. \<not> node_confirmed ?f a) (k # as))"
    using as by (auto simp: ancestors_def)
  moreover have "is_duplicate_confirmed s' a = Some True \<and> is_candidate s' a = Some True"
    if a: "contains_block self a" "k \<in> subtree ?f a" for a
  proof -
    have "k \<in> subtree (fork_infos s') a" using a(2) subtree_shape [OF s'(4)] by simp
    then have c: "node_confirmed (fork_infos s') a" by (rule confirmed_up [OF fc_invD(6) [OF s'(3)] _ s'(5)])
    have "fork_infos s' a \<noteq> None" using a(1) tree_shape_dom [OF s'(4)] by (auto simp: contains_block_def)
    then obtain ia where ia: "fork_infos s' a = Some ia" by blast
    then have "fi_is_candidate ia" using c fc_invD(4) [OF s'(3)] by (auto simp: flags_ok_def fi_is_candidate_def)
    then show ?thesis using c ia by (simp add: is_duplicate_confirmed_def is_candidate_def)
  qed
  ultimately show ?thesis using s'(1) by blast
qed

end
