(* ===== verification/Fork_Properties.thy ===== *)
theory Fork_Properties
  imports Fork_Run
begin

text \<open>
  The properties of the fork choice in every state of a run, and a small run on which they are
  applied: a root with two forks, of which the longer one is lighter.
\<close>

section \<open>A small run\<close>

definition demo_env :: stake_env where
  "demo_env = \<lparr>get_epoch = (\<lambda>_. 0), epoch_stakes = (\<lambda>_. Some (\<lambda>pk. if pk = 1 then 10 else if pk = 2 then 5 else 0))\<rparr>"

definition demo_tree :: "fork_choice option" where
  "demo_tree = Option.bind (Option.bind (Option.bind (fork_choice_new (Key 1 1))
     (\<lambda>s. add_new_leaf_slot s (Key 2 2) (Some (Key 1 1))))
     (\<lambda>s. add_new_leaf_slot s (Key 3 3) (Some (Key 1 1))))
     (\<lambda>s. add_new_leaf_slot s (Key 4 4) (Some (Key 3 3)))"

definition demo_votes :: "(pubkey \<times> slot_hash_key) list" where
  "demo_votes = [(1, Key 2 2), (2, Key 4 4)]"

definition demo_voted :: "fork_choice option" where
  "demo_voted = Option.bind demo_tree (\<lambda>s. map_option fst (add_votes demo_env s demo_votes))"

text \<open>A run without votes so far.\<close>

definition novote_run :: "stake_env \<Rightarrow> fork_choice option \<Rightarrow> bool" where
  "novote_run env d \<longleftrightarrow> (\<exists>s. d = Some s \<and> fc_run env s \<and> latest_votes s = Map.empty)"

lemma novote_new: "root \<noteq> default_key \<Longrightarrow> novote_run env (fork_choice_new root)"
  using fork_choice_new_ok [of root env] run_new [of root _ env] unfolding novote_run_def by blast

lemma novote_leaf:
  assumes "novote_run env d" "key_slot p < key_slot k" "\<exists>i. Option.bind d (\<lambda>s. fork_infos s p) = Some i"
  shows "novote_run env (Option.bind d (\<lambda>s. add_new_leaf_slot s k (Some p)))"
proof -
  obtain s where s: "d = Some s" "fc_run env s" "latest_votes s = Map.empty" using assms(1) by (auto simp: novote_run_def)
  obtain ip where ip: "fork_infos s p = Some ip" using assms(3) s(1) by auto
  have v: "fork_infos s k \<noteq> None \<or> Some k \<notin> range (latest_votes s)" using s(3) by auto
  obtain s' where s': "add_new_leaf_slot s k (Some p) = Some s'"
    using run_leaf_ok [OF fc_run_inv [OF s(2)] ip assms(2) v] by blast
  have "latest_votes s' = Map.empty"
  proof (cases "fork_infos s k")
    case None
    then show ?thesis using add_new_leaf_ok [OF _ None ip assms(2)] fc_run_inv [OF s(2)] s' s(3) by (auto simp: run_inv_def)
  qed (use s s' in \<open>simp add: add_new_leaf_slot_def\<close>)
  then show ?thesis using s s' ip v assms(2) run_leaf [of env s k p s'] by (simp add: novote_run_def)
qed

lemma demo_novote: "novote_run demo_env demo_tree"
  unfolding demo_tree_def
proof (intro novote_leaf novote_new)
  show "\<exists>i. Option.bind (fork_choice_new (Key 1 1)) (\<lambda>s. fork_infos s (Key 1 1)) = Some i"
    "\<exists>i. Option.bind (Option.bind (fork_choice_new (Key 1 1)) (\<lambda>s. add_new_leaf_slot s (Key 2 2) (Some (Key 1 1))))
      (\<lambda>s. fork_infos s (Key 1 1)) = Some i"
    "\<exists>i. Option.bind (Option.bind (Option.bind (fork_choice_new (Key 1 1)) (\<lambda>s. add_new_leaf_slot s (Key 2 2) (Some (Key 1 1))))
      (\<lambda>s. add_new_leaf_slot s (Key 3 3) (Some (Key 1 1)))) (\<lambda>s. fork_infos s (Key 3 3)) = Some i"
    unfolding not_None_eq [symmetric] by code_simp+
qed (simp_all add: default_key_def)

lemma demo_run: "\<exists>s. demo_voted = Some s \<and> fc_run demo_env s"
proof -
  obtain s where s: "demo_tree = Some s" "fc_run demo_env s" using demo_novote by (auto simp: novote_run_def)
  have d: "distinct (map fst demo_votes)" by (simp add: demo_votes_def)
  obtain s' b where s': "add_votes demo_env s demo_votes = Some (s', b)"
    using run_votes_ok [OF fc_run_inv [OF s(2)] d] by blast
  then have "demo_voted = Some s'" by (simp add: demo_voted_def s(1))
  then show ?thesis using run_votes [OF s(2) s' d] by blast
qed

lemma demo_eval:
  "map_option (\<lambda>s. (stake_voted_subtree s (Key 1 1), stake_voted_subtree s (Key 3 3), is_candidate s (Key 1 1),
      best_overall_slot s, tree_height s (Key 1 1), is_duplicate_confirmed s (Key 2 2), contains_block s (Key 1 1),
      contains_block s (Key 3 3), contains_block s (Key 5 5), tree_root s)) demo_voted =
    Some (Some 15, Some 5, Some True, Some (Key 2 2), Some 3, Some False, True, True, False, Key 1 1)"
  by code_simp

lemma demo_values:
  assumes "demo_voted = Some s"
  shows "stake_voted_subtree s (Key 1 1) = Some 15" "stake_voted_subtree s (Key 3 3) = Some 5"
    "is_candidate s (Key 1 1) = Some True" "best_overall_slot s = Some (Key 2 2)" "tree_height s (Key 1 1) = Some 3"
    "is_duplicate_confirmed s (Key 2 2) = Some False" "fork_infos s (Key 1 1) \<noteq> None" "fork_infos s (Key 3 3) \<noteq> None"
    "fork_infos s (Key 5 5) = None" "tree_root s = Key 1 1"
  using demo_eval unfolding assms contains_block_def by simp_all

lemma demo_latest:
  assumes "demo_voted = Some s"
  shows "latest_votes s = [1 \<mapsto> Key 2 2, 2 \<mapsto> Key 4 4]"
proof
  fix pk
  obtain t where t': "demo_tree = Some t" "latest_votes t = Map.empty" using demo_novote by (auto simp: novote_run_def)
  obtain b where t: "demo_tree = Some t" "add_votes demo_env t demo_votes = Some (s, b)" "latest_votes t = Map.empty"
    using assms t' unfolding demo_voted_def t'(1) by auto
  have "map_option tree_root demo_tree = Some (Key 1 1)" by code_simp
  then have "tree_root t = Key 1 1" unfolding t(1) by simp
  then show "latest_votes s pk = [1 \<mapsto> Key 2 2, 2 \<mapsto> Key 4 4] pk"
    using add_votes_latest [OF t(2)] t(3) by (simp add: demo_votes_def latest_vote_def)
qed

section \<open>Properties\<close>

text \<open>
  C3. In every state of a run, for every block of the tree, the weight of its subtree is the stake
  of exactly the validators whose latest vote is for a block of this subtree.  So the additions,
  subtractions and aggregations of \<open>add_votes\<close>, and the other operations that change the tree, never
  lose or count twice the stake of a validator.
\<close>

theorem subtree_weight_is_voted_stake:
  assumes "fc_run env self" "fork_infos self k \<noteq> None"
  shows "stake_voted_subtree self k =
    Some (\<Sum>pk \<in> {pk. \<exists>n \<in> subtree (fork_infos self) k. latest_votes self pk = Some n}.
      stake_update env pk (key_slot (the (latest_votes self pk))))"
  using weight_sum_voters [OF fc_run_inv [OF assms(1)]] assms(2)
  by (auto simp: voters_below_def voter_stake_def)

theorem subtree_weight_is_voted_stake_witness:
  "\<exists>s. demo_voted = Some s \<and> fc_run demo_env s \<and> fork_infos s (Key 1 1) \<noteq> None \<and>
     (\<Sum>pk \<in> {pk. \<exists>n \<in> subtree (fork_infos s) (Key 1 1). latest_votes s pk = Some n}.
        stake_update demo_env pk (key_slot (the (latest_votes s pk)))) = 15"
proof -
  obtain s where s: "demo_voted = Some s" "fc_run demo_env s" using demo_run by blast
  show ?thesis
    using subtree_weight_is_voted_stake [OF s(2) demo_values(7) [OF s(1)]] demo_values(1,7) [OF s(1)] s
    by (intro exI [of _ s]) simp
qed

text \<open>
  C36. When the stake of all validators that voted fits into 64 bits, no weight of the fork choice
  wraps around: the weight of a block is the sum of the stakes as a natural number, and no block of
  its subtree is heavier.
\<close>

theorem subtree_weight_bounds:
  assumes "fc_run env self" "fork_infos self k \<noteq> None" "n \<in> subtree (fork_infos self) k"
    "(\<Sum>pk \<in> dom (latest_votes self). unat (stake_update env pk (key_slot (the (latest_votes self pk))))) < 2 ^ 64"
  shows "\<exists>wk wn. stake_voted_subtree self k = Some wk \<and> stake_voted_subtree self n = Some wn \<and> wn \<le> wk \<and>
    unat wk = (\<Sum>pk \<in> {pk. \<exists>n \<in> subtree (fork_infos self) k. latest_votes self pk = Some n}.
      unat (stake_update env pk (key_slot (the (latest_votes self pk)))))"
proof -
  note inv = fc_run_inv [OF assms(1)]
  have l: "links_ok (fork_infos self)" using inv fc_invD(2) by (simp add: run_inv_def)
  obtain i j where ij: "fork_infos self k = Some i" "fork_infos self n = Some j"
    using assms(2) subtree_dom [OF l assms(2,3)] by blast
  have fin: "finite (dom (latest_votes self))" using inv by (simp add: run_inv_def votes_inv_def)
  have total: "(\<Sum>pk \<in> dom (latest_votes self). unat (voter_stake env self pk)) < 2 ^ 64"
    using assms(4) by (simp add: voter_stake_def)
  have "voters_below self n \<subseteq> voters_below self k" using subtree_trans [OF _ assms(3)] by (auto simp: voters_below_def)
  moreover have "finite (voters_below self k)" by (rule finite_subset [OF _ fin]) (auto simp: voters_below_def)
  ultimately have "unat (node_weight (fork_infos self) n) \<le> unat (node_weight (fork_infos self) k)"
    unfolding weight_no_wrap [OF inv ij(1) total] weight_no_wrap [OF inv ij(2) total] by (intro sum_mono2) auto
  then show ?thesis
    using ij weight_no_wrap [OF inv ij(1) total]
    by (simp add: stake_voted_subtree_def word_le_nat_alt voters_below_def voter_stake_def)
qed

lemma demo_child: "demo_voted = Some s \<Longrightarrow> Key 3 3 \<in> subtree (fork_infos s) (Key 1 1)"
proof -
  assume s: "demo_voted = Some s"
  have "(case demo_voted of Some s \<Rightarrow> (case fork_infos s (Key 1 1) of Some i \<Rightarrow> Key 3 3 \<in> set (fi_children i) | None \<Rightarrow> False)
    | None \<Rightarrow> False) = True" by code_simp
  then show ?thesis unfolding s by (auto split: option.splits intro: subtree_of_child)
qed

theorem subtree_weight_bounds_witness:
  "\<exists>s. demo_voted = Some s \<and> (\<exists>wk wn. stake_voted_subtree s (Key 1 1) = Some wk \<and> stake_voted_subtree s (Key 3 3) = Some wn \<and> wn \<le> wk \<and>
     15 = (\<Sum>pk \<in> {pk. \<exists>n \<in> subtree (fork_infos s) (Key 1 1). latest_votes s pk = Some n}.
       unat (stake_update demo_env pk (key_slot (the (latest_votes s pk))))))"
proof -
  obtain s where s: "demo_voted = Some s" "fc_run demo_env s" using demo_run by blast
  have "(\<Sum>pk \<in> dom (latest_votes s). unat (stake_update demo_env pk (key_slot (the (latest_votes s pk))))) < 2 ^ 64"
    unfolding demo_latest [OF s(1)] by (simp add: stake_update_def demo_env_def)
  from subtree_weight_bounds [OF s(2) demo_values(7) [OF s(1)] demo_child [OF s(1)] this]
  show ?thesis using demo_values(1) [OF s(1)] s(1) by (intro exI [of _ s]) auto
qed

text \<open>
  C6. The best slot of a candidate block is what the heaviest descent reaches: from the block,
  always to the heaviest child that is a candidate, the smaller key among equally heavy ones, until
  no child is a candidate.  The descent has one end, which is a candidate below the block.
\<close>

theorem best_slot_is_heaviest_descent:
  assumes "fc_run env self" "is_candidate self k = Some True"
  shows "\<exists>b. best_slot self k = Some b \<and> heaviest_descent (fork_infos self) k b \<and> is_candidate self b = Some True \<and>
    (\<forall>b'. heaviest_descent (fork_infos self) k b' \<longrightarrow> b' = b)"
proof -
  have fc: "fc_inv self" using fc_run_inv [OF assms(1)] by (simp add: run_inv_def)
  obtain i where i: "fork_infos self k = Some i" "fi_is_candidate i" using assms(2) by (auto simp: is_candidate_def)
  let ?b = "fi_best_slot i"
  have d: "heaviest_descent (fork_infos self) k ?b" using best_slot_descent [OF fc i(1)] i by simp
  have "fork_infos self k \<noteq> None" using i(1) by simp
  then have "fork_infos self ?b \<noteq> None"
    by (rule subtree_dom [OF fc_invD(2) [OF fc] _ heaviest_descent_subtree [OF d]])
  moreover have "node_candidate (fork_infos self) ?b" using heaviest_descent_candidate [OF d] i by simp
  ultimately have "is_candidate self ?b = Some True" by (cases "fork_infos self ?b") (simp_all add: is_candidate_def)
  moreover have "best_slot self k = Some ?b" using i(1) by (simp add: best_slot_def)
  ultimately show ?thesis using d heaviest_descent_unique [OF _ d] by blast
qed

theorem best_slot_is_heaviest_descent_witness:
  "\<exists>s. demo_voted = Some s \<and> is_candidate s (Key 1 1) = Some True \<and> heaviest_descent (fork_infos s) (Key 1 1) (Key 2 2)"
proof -
  obtain s where s: "demo_voted = Some s" "fc_run demo_env s" using demo_run by blast
  have "best_slot s (Key 1 1) = Some (Key 2 2)"
    using demo_values(4,10) [OF s(1)] by (simp add: best_overall_slot_def)
  then show ?thesis
    using best_slot_is_heaviest_descent [OF s(2) demo_values(3) [OF s(1)]] demo_values(3) [OF s(1)] s
    by (intro exI [of _ s]) auto
qed

text \<open>
  C35. The height of a block is one more than the distance to its deepest slot, which is a block of
  its subtree at the greatest distance.
\<close>

theorem deepest_slot_is_deepest:
  assumes "fc_run env self" "fork_infos self k \<noteq> None"
  shows "\<exists>d h. deepest_slot self k = Some d \<and> tree_height self k = Some (Suc h) \<and> at_depth (fork_infos self) k d h \<and>
    (\<forall>n m. at_depth (fork_infos self) k n m \<longrightarrow> m \<le> h)"
proof -
  have fc: "fc_inv self" using fc_run_inv [OF assms(1)] by (simp add: run_inv_def)
  obtain i where i: "fork_infos self k = Some i" using assms(2) by blast
  show ?thesis
    using deepest_slot_depth [OF fc i] i by (auto simp: deepest_slot_def tree_height_def less_Suc_eq_le)
qed

theorem deepest_slot_is_deepest_witness:
  "\<exists>s d. demo_voted = Some s \<and> deepest_slot s (Key 1 1) = Some d \<and> at_depth (fork_infos s) (Key 1 1) d 2"
proof -
  obtain s where s: "demo_voted = Some s" "fc_run demo_env s" using demo_run by blast
  show ?thesis
    using deepest_slot_is_deepest [OF s(2) demo_values(7) [OF s(1)]] demo_values(5) [OF s(1)] s
    by (auto intro!: exI [of _ s])
qed

text \<open>
  C31. \<open>add_votes\<close> never panics on a batch with one vote per validator.  It returns the best slot of
  the new tree, keeps the blocks, and afterwards the latest vote of a validator is the new one when
  this is not below the root and replaces the old one, being for a later slot or for the same slot
  and a smaller hash.
\<close>

theorem add_votes_keeps_latest:
  assumes "fc_run env self" "distinct (map fst pubkey_votes)"
  shows "\<exists>self' best. add_votes env self pubkey_votes = Some (self', best) \<and> best_overall_slot self' = Some best \<and>
    (\<forall>k. contains_block self' k = contains_block self k) \<and>
    (\<forall>pk. latest_votes self' pk =
      (case map_of pubkey_votes pk of
         None \<Rightarrow> latest_votes self pk
       | Some n \<Rightarrow>
           if key_slot n < key_slot (tree_root self) then latest_votes self pk
           else (case latest_votes self pk of
                   None \<Rightarrow> Some n
                 | Some old \<Rightarrow> Some (if key_slot old < key_slot n \<or> (key_slot old = key_slot n \<and> key_hash n < key_hash old)
                     then n else old))))"
proof -
  have inv: "fc_inv self" "votes_inv env self" using fc_run_inv [OF assms(1)] by (simp_all add: run_inv_def)
  obtain s' b where s': "add_votes env self pubkey_votes = Some (s', b)" "best_overall_slot s' = Some b"
    "tree_shape (fork_infos s') = tree_shape (fork_infos self)"
    using add_votes_ok [OF inv assms(2)] by blast
  have "contains_block s' k = contains_block self k" for k
    using tree_shape_dom [OF s'(3)] by (auto simp: contains_block_def)
  then show ?thesis
    using s'(1,2) add_votes_latest [OF s'(1) assms(2)] unfolding latest_vote_def supersedes_def by blast
qed

theorem add_votes_keeps_latest_witness:
  "\<exists>s s' b. demo_tree = Some s \<and> add_votes demo_env s demo_votes = Some (s', b) \<and> best_overall_slot s' = Some b"
proof -
  obtain s where s: "demo_tree = Some s" "fc_run demo_env s" using demo_novote by (auto simp: novote_run_def)
  have "distinct (map fst demo_votes)" by (simp add: demo_votes_def)
  from add_votes_keeps_latest [OF s(2) this] show ?thesis using s(1) by blast
qed

text \<open>
  C33. \<open>set_tree_root\<close> does not panic on a block of the tree: it keeps exactly the subtree of the new
  root, with every block as it was but for the parent link of the new root, and the latest votes.
\<close>

theorem set_tree_root_keeps_subtree:
  assumes "fc_run env self" "fork_infos self root \<noteq> None"
  shows "\<exists>self'. set_tree_root self root = Some self' \<and> tree_root self' = root \<and> latest_votes self' = latest_votes self \<and>
    (\<forall>k. fork_infos self' k =
      (if k \<in> subtree (fork_infos self) root
       then map_option (\<lambda>i. if k = root then i\<lparr>fi_parent := None\<rparr> else i) (fork_infos self k)
       else None))"
proof -
  have fc: "fc_inv self" using fc_run_inv [OF assms(1)] by (simp add: run_inv_def)
  obtain i where i: "fork_infos self root = Some i" using assms(2) by blast
  obtain s' where s': "set_tree_root self root = Some s'" "fork_infos s' = cut_above (fork_infos self) root i"
    "latest_votes s' = latest_votes self" "tree_root s' = root" using set_tree_root_ok [OF fc i] by blast
  have "fork_infos s' k = (if k \<in> subtree (fork_infos self) root
       then map_option (\<lambda>i. if k = root then i\<lparr>fi_parent := None\<rparr> else i) (fork_infos self k) else None)" for k
    using i unfolding s'(2) by (cases "k = root") (simp_all add: cut_above_def restrict_map_def option.map_ident)
  then show ?thesis using s'(1,3,4) by blast
qed

theorem set_tree_root_keeps_subtree_witness:
  "\<exists>s s'. demo_voted = Some s \<and> set_tree_root s (Key 3 3) = Some s' \<and> tree_root s' = Key 3 3"
proof -
  obtain s where s: "demo_voted = Some s" "fc_run demo_env s" using demo_run by blast
  from set_tree_root_keeps_subtree [OF s(2) demo_values(8) [OF s(1)]] show ?thesis using s(1) by blast
qed

text \<open>
  C34. Adding a block below a block of the tree with a smaller slot never panics.  The new tree has
  exactly the one block more, as a leaf without votes that is a candidate iff its parent is one, and
  every other block keeps its weight, its parent and its validity.
\<close>

theorem add_new_leaf_slot_adds_leaf:
  assumes "fc_run env self" "fork_infos self p \<noteq> None" "fork_infos self k = None" "key_slot p < key_slot k"
  shows "\<exists>self'. add_new_leaf_slot self k (Some p) = Some self' \<and>
    fc_children self' k = Some [] \<and> fc_parent self' k = Some p \<and> stake_voted_subtree self' k = Some 0 \<and>
    is_candidate self' k = is_candidate self p \<and>
    (\<forall>j. j \<noteq> k \<longrightarrow> contains_block self' j = contains_block self j \<and> fc_parent self' j = fc_parent self j \<and>
       stake_voted_subtree self' j = stake_voted_subtree self j \<and> is_candidate self' j = is_candidate self j)"
proof -
  have fc: "fc_inv self" using fc_run_inv [OF assms(1)] by (simp add: run_inv_def)
  obtain ip where ip: "fork_infos self p = Some ip" using assms(2) by blast
  let ?ik = "leaf_info k (Some p) (fi_latest_invalid_ancestor ip)"
  obtain s' where s': "add_new_leaf_slot self k (Some p) = Some s'"
    "same_static (with_leaf (fork_infos self) k p ip ?ik) (fork_infos s')"
    using add_new_leaf_ok [OF fc assms(3) ip assms(4)] by blast
  have st: "map_option static_fields (fork_infos s' j) = map_option static_fields (with_leaf (fork_infos self) k p ip ?ik j)" for j
    using s'(2) by (simp add: same_static_def)
  have "k \<noteq> p" using assms(4) by auto
  then obtain ik where ik: "fork_infos s' k = Some ik" "static_fields ik = static_fields ?ik"
    using st [of k] with_leaf_leaf [of k p "fork_infos self" ip ?ik] by auto
  have "contains_block s' j = contains_block self j \<and> fc_parent s' j = fc_parent self j \<and>
      stake_voted_subtree s' j = stake_voted_subtree self j \<and> is_candidate s' j = is_candidate self j" if "j \<noteq> k" for j
    using st [of j] that ip
    by (cases "fork_infos s' j"; cases "fork_infos self j")
      (auto simp: with_leaf_def static_fields_def contains_block_def fc_parent_def stake_voted_subtree_def is_candidate_def
        fi_is_candidate_def split: if_splits)
  then show ?thesis
    using s'(1) ik ip by (simp add: fc_children_def fc_parent_def stake_voted_subtree_def is_candidate_def fi_is_candidate_def
        static_fields_def leaf_info_def)
qed

theorem add_new_leaf_slot_adds_leaf_witness:
  "\<exists>s s'. demo_voted = Some s \<and> add_new_leaf_slot s (Key 5 5) (Some (Key 3 3)) = Some s' \<and> fc_parent s' (Key 5 5) = Some (Key 3 3)"
proof -
  obtain s where s: "demo_voted = Some s" "fc_run demo_env s" using demo_run by blast
  have "key_slot (Key 3 3) < key_slot (Key 5 5)" by simp
  from add_new_leaf_slot_adds_leaf [OF s(2) demo_values(8,9) [OF s(1)] this] show ?thesis using s(1) by blast
qed

text \<open>
  C13. Marking a block that is not duplicate confirmed as invalid makes exactly the blocks of its
  subtree no candidates.  Afterwards no best slot of a candidate is in this subtree, so the fork
  choice has left the fork.
\<close>

theorem mark_invalid_leaves_fork:
  assumes "fc_run env self" "is_duplicate_confirmed self k = Some False"
  shows "\<exists>self'. mark_fork_invalid_candidate self k = Some self' \<and>
    (\<forall>j. is_candidate self' j = (if j \<in> subtree (fork_infos self) k then Some False else is_candidate self j)) \<and>
    (\<forall>j b. is_candidate self' j = Some True \<longrightarrow> best_slot self' j = Some b \<longrightarrow> b \<notin> subtree (fork_infos self) k)"
  using assms by (rule mark_invalid_effect)

theorem mark_invalid_leaves_fork_witness:
  "\<exists>s s'. demo_voted = Some s \<and> mark_fork_invalid_candidate s (Key 2 2) = Some s' \<and> is_candidate s' (Key 2 2) = Some False"
proof -
  obtain s where s: "demo_voted = Some s" "fc_run demo_env s" using demo_run by blast
  have "Key 2 2 \<in> subtree (fork_infos s) (Key 2 2)" by simp
  with mark_invalid_leaves_fork [OF s(2) demo_values(6) [OF s(1)]] show ?thesis using s(1) by metis
qed

text \<open>
  C32. Marking a block of the tree as valid does not panic.  It reports the block and its ancestors that were
  not duplicate confirmed before, each once; afterwards the block and all its ancestors are
  duplicate confirmed candidates.
\<close>

theorem mark_valid_confirms_ancestors:
  assumes "fc_run env self" "fork_infos self k \<noteq> None"
  shows "\<exists>self' confirmed. mark_fork_valid_candidate self k = Some (self', confirmed) \<and> distinct confirmed \<and>
    set confirmed = {a. k \<in> subtree (fork_infos self) a \<and> is_duplicate_confirmed self a = Some False} \<and>
    (\<forall>a. contains_block self a \<and> k \<in> subtree (fork_infos self) a \<longrightarrow>
       is_duplicate_confirmed self' a = Some True \<and> is_candidate self' a = Some True)"
  using assms by (rule mark_valid_effect)

theorem mark_valid_confirms_ancestors_witness:
  "\<exists>s s' confirmed. demo_voted = Some s \<and> mark_fork_valid_candidate s (Key 3 3) = Some (s', confirmed) \<and>
     is_duplicate_confirmed s' (Key 3 3) = Some True"
proof -
  obtain s where s: "demo_voted = Some s" "fc_run demo_env s" using demo_run by blast
  have "contains_block s (Key 3 3) \<and> Key 3 3 \<in> subtree (fork_infos s) (Key 3 3)"
    using demo_values(8) [OF s(1)] by (simp add: contains_block_def)
  with mark_valid_confirms_ancestors [OF s(2) demo_values(8) [OF s(1)]] show ?thesis using s(1) by metis
qed

text \<open>
  C12. The incremental updates agree with a full aggregation: in every state of a run,
  \<open>aggregate_slot\<close> on a candidate block finds weight, height, best and deepest slot as they are and
  changes nothing.  In particular the two loops of \<open>propagate_new_leaf\<close>, which stop early, miss no
  ancestor.
\<close>

theorem aggregate_slot_changes_nothing:
  assumes "fc_run env self" "is_candidate self k = Some True"
  shows "aggregate_slot self k = Some self"
proof -
  have "fc_inv self" using fc_run_inv [OF assms(1)] by (simp add: run_inv_def)
  then show ?thesis using assms(2) aggregate_fixpoint by (auto simp: is_candidate_def)
qed

theorem aggregate_slot_changes_nothing_witness:
  "\<exists>s. demo_voted = Some s \<and> aggregate_slot s (Key 1 1) = Some s"
proof -
  obtain s where s: "demo_voted = Some s" "fc_run demo_env s" using demo_run by blast
  from aggregate_slot_changes_nothing [OF s(2) demo_values(3) [OF s(1)]] show ?thesis using s(1) by blast
qed

end
