(* ===== verification/Latest_Votes.thy ===== *)
theory Latest_Votes
  imports Fork_Run
begin

text \<open>
  The latest votes of the validators for frozen banks
  (core/src/consensus/latest_validator_votes_for_frozen_banks.rs), and how they reach the fork choice
  (\<open>compute_bank_stats\<close> of core/src/consensus/heaviest_subtree_fork_choice.rs).

  The dirty set is drained in the order of its hash map, which is given as the list of its keys.
  \<open>None\<close> is a panic.
\<close>

section \<open>Data and operations\<close>

type_synonym frozen_votes = "pubkey \<rightharpoonup> slot \<times> hash list"

record latest_votes_for_frozen_banks =
  max_gossip_frozen_votes :: frozen_votes
  max_replay_frozen_votes :: frozen_votes
  fork_choice_dirty_set :: frozen_votes

definition vote_map :: "latest_votes_for_frozen_banks \<Rightarrow> bool \<Rightarrow> frozen_votes" where
  "vote_map self is_replay_vote =
     (if is_replay_vote then max_replay_frozen_votes self else max_gossip_frozen_votes self)"

definition put_votes :: "latest_votes_for_frozen_banks \<Rightarrow> bool \<Rightarrow> pubkey \<Rightarrow> slot \<times> hash list \<Rightarrow> latest_votes_for_frozen_banks" where
  "put_votes self is_replay_vote pk v =
     (if is_replay_vote
      then self\<lparr>max_replay_frozen_votes := (max_replay_frozen_votes self)(pk \<mapsto> v)\<rparr>
      else self\<lparr>max_gossip_frozen_votes := (max_gossip_frozen_votes self)(pk \<mapsto> v)\<rparr>)"

definition put_dirty :: "latest_votes_for_frozen_banks \<Rightarrow> bool \<Rightarrow> pubkey \<Rightarrow> slot \<times> hash list \<Rightarrow> latest_votes_for_frozen_banks" where
  "put_dirty self is_replay_vote pk v =
     (if is_replay_vote then self\<lparr>fork_choice_dirty_set := (fork_choice_dirty_set self)(pk \<mapsto> v)\<rparr> else self)"

text \<open>
  A further hash for the latest slot goes to the entry of the dirty set, which \<open>or_default\<close> makes
  with slot zero when there is none.
\<close>

definition push_dirty :: "latest_votes_for_frozen_banks \<Rightarrow> bool \<Rightarrow> pubkey \<Rightarrow> hash \<Rightarrow> latest_votes_for_frozen_banks option" where
  "push_dirty self is_replay_vote pk frozen_hash =
     (if is_replay_vote
      then
        (case (case fork_choice_dirty_set self pk of Some d \<Rightarrow> d | None \<Rightarrow> (0, [])) of (dirty_slot, dirty_hashes) \<Rightarrow>
           if frozen_hash \<in> set dirty_hashes then None
           else Some (put_dirty self True pk (dirty_slot, dirty_hashes @ [frozen_hash])))
      else Some self)"

definition check_add_vote ::
  "latest_votes_for_frozen_banks \<Rightarrow> pubkey \<Rightarrow> slot \<Rightarrow> hash option \<Rightarrow> bool \<Rightarrow>
   (latest_votes_for_frozen_banks \<times> bool \<times> slot option) option" where
  "check_add_vote self vote_pubkey vote_slot frozen_hash is_replay_vote =
     (case frozen_hash of
        Some hash \<Rightarrow>
          (case vote_map self is_replay_vote vote_pubkey of
             Some (latest_slot, latest_hashes) \<Rightarrow>
               if vote_slot > latest_slot
               then Some (put_votes (put_dirty self is_replay_vote vote_pubkey (vote_slot, [hash]))
                            is_replay_vote vote_pubkey (vote_slot, [hash]), True, Some vote_slot)
               else if vote_slot = latest_slot \<and> hash \<notin> set latest_hashes
               then do {
                 self \<leftarrow> push_dirty self is_replay_vote vote_pubkey hash;
                 Some (put_votes self is_replay_vote vote_pubkey (latest_slot, latest_hashes @ [hash]), True, Some vote_slot)
               }
               else Some (self, False, Some latest_slot)
           | None \<Rightarrow>
               Some (put_dirty (put_votes self is_replay_vote vote_pubkey (vote_slot, [hash]))
                       is_replay_vote vote_pubkey (vote_slot, [hash]), True, Some vote_slot))
      | None \<Rightarrow> Some (self, False, map_option fst (vote_map self is_replay_vote vote_pubkey)))"

definition dirty_votes :: "frozen_votes \<Rightarrow> slot \<Rightarrow> pubkey \<Rightarrow> (pubkey \<times> slot_hash_key) list" where
  "dirty_votes dirty root pk =
     (case dirty pk of
        Some (slot, hashes) \<Rightarrow> if slot \<ge> root then map (\<lambda>hash. (pk, Key slot hash)) hashes else []
      | None \<Rightarrow> [])"

definition take_votes_dirty_set ::
  "pubkey list \<Rightarrow> latest_votes_for_frozen_banks \<Rightarrow> slot \<Rightarrow> latest_votes_for_frozen_banks \<times> (pubkey \<times> slot_hash_key) list" where
  "take_votes_dirty_set order self root =
     (self\<lparr>fork_choice_dirty_set := Map.empty\<rparr>,
      concat (map (dirty_votes (fork_choice_dirty_set self) root) order))"

definition compute_bank_stats ::
  "pubkey list \<Rightarrow> stake_env \<Rightarrow> fork_choice \<Rightarrow> latest_votes_for_frozen_banks \<Rightarrow>
   (fork_choice \<times> latest_votes_for_frozen_banks \<times> slot_hash_key) option" where
  "compute_bank_stats order env self lv =
     (case take_votes_dirty_set order lv (key_slot (tree_root self)) of (lv, new_votes) \<Rightarrow>
        do {
          (self, best) \<leftarrow> add_votes env self new_votes;
          Some (self, lv, best)
        })"

section \<open>Runs\<close>

definition empty_votes :: latest_votes_for_frozen_banks where
  "empty_votes = \<lparr>max_gossip_frozen_votes = Map.empty, max_replay_frozen_votes = Map.empty, fork_choice_dirty_set = Map.empty\<rparr>"

inductive lv_run :: "latest_votes_for_frozen_banks \<Rightarrow> bool" where
  lv_empty: "lv_run empty_votes"
| lv_add: "lv_run self \<Longrightarrow> check_add_vote self pk slot h replay = Some (self', r) \<Longrightarrow> lv_run self'"
| lv_take: "lv_run self \<Longrightarrow> lv_run (fst (take_votes_dirty_set order self root))"

text \<open>
  Recorded hashes are without repetition, and what is dirty is recorded: its hashes are among the
  recorded ones, and its slot is the recorded one or zero.
\<close>

definition lv_inv :: "latest_votes_for_frozen_banks \<Rightarrow> bool" where
  "lv_inv self \<longleftrightarrow>
     (\<forall>pk s hs. max_gossip_frozen_votes self pk = Some (s, hs) \<longrightarrow> distinct hs \<and> hs \<noteq> []) \<and>
     (\<forall>pk s hs. max_replay_frozen_votes self pk = Some (s, hs) \<longrightarrow> distinct hs \<and> hs \<noteq> []) \<and>
     (\<forall>pk d ds. fork_choice_dirty_set self pk = Some (d, ds) \<longrightarrow> distinct ds \<and>
        (\<exists>s hs. max_replay_frozen_votes self pk = Some (s, hs) \<and> set ds \<subseteq> set hs \<and> (d = s \<or> d = 0)))"

lemma lv_inv_empty: "lv_inv empty_votes" by (simp add: lv_inv_def empty_votes_def)

lemma lv_inv_take: "lv_inv self \<Longrightarrow> lv_inv (fst (take_votes_dirty_set order self root))"
  by (simp add: lv_inv_def take_votes_dirty_set_def)

lemma lv_inv_new:
  assumes "lv_inv self"
  shows "lv_inv (put_votes (put_dirty self replay pk (slot, [h])) replay pk (slot, [h]))"
    "lv_inv (put_dirty (put_votes self replay pk (slot, [h])) replay pk (slot, [h]))"
  using assms by (auto simp: lv_inv_def put_votes_def put_dirty_def)

lemma push_dirty_ok:
  assumes inv: "lv_inv self" and v: "vote_map self replay pk = Some (s, hs)" and h: "h \<notin> set hs"
  shows "\<exists>self'. push_dirty self replay pk h = Some self' \<and> lv_inv (put_votes self' replay pk (s, hs @ [h]))"
proof (cases replay)
  case False
  then show ?thesis using inv v h by (auto simp: push_dirty_def lv_inv_def put_votes_def vote_map_def)
next
  case True
  obtain d ds where d: "(case fork_choice_dirty_set self pk of Some d \<Rightarrow> d | None \<Rightarrow> (0, [])) = (d, ds)" by force
  have ds: "distinct ds" "set ds \<subseteq> set hs" "d = s \<or> d = 0"
    using inv v d True by (fastforce simp: lv_inv_def vote_map_def split: option.splits)+
  then have "h \<notin> set ds" using h by blast
  then show ?thesis
    using inv v h True d ds by (auto simp: push_dirty_def lv_inv_def put_votes_def put_dirty_def vote_map_def)
qed

lemma check_add_vote_ok:
  assumes inv: "lv_inv self"
  shows "\<exists>self' added latest. check_add_vote self pk slot h replay = Some (self', added, latest) \<and> lv_inv self'"
proof (cases h)
  case None
  then have "check_add_vote self pk slot h replay = Some (self, False, map_option fst (vote_map self replay pk))"
    by (simp add: check_add_vote_def)
  then show ?thesis using inv by blast
next
  case (Some hash)
  show ?thesis
  proof (cases "vote_map self replay pk")
    case None
    then have "check_add_vote self pk slot h replay =
        Some (put_dirty (put_votes self replay pk (slot, [hash])) replay pk (slot, [hash]), True, Some slot)"
      using Some by (simp add: check_add_vote_def)
    then show ?thesis using lv_inv_new(2) [OF inv, of replay pk slot hash] by blast
  next
    case (Some v)
    obtain s hs where v: "v = (s, hs)" by force
    show ?thesis
    proof (cases "slot = s \<and> hash \<notin> set hs")
      case True
      then show ?thesis
        using push_dirty_ok [OF inv, of replay pk s hs hash] Some v \<open>h = Some hash\<close> by (auto simp: check_add_vote_def)
    next
      case False
      then show ?thesis
        using Some v \<open>h = Some hash\<close> inv lv_inv_new [OF inv, of replay pk slot hash] by (auto simp: check_add_vote_def)
    qed
  qed
qed

lemma lv_run_inv: "lv_run self \<Longrightarrow> lv_inv self"
proof (induction rule: lv_run.induct)
  case (lv_add self pk slot h replay self' r)
  then show ?case using check_add_vote_ok [of self pk slot h replay] by auto
qed (simp_all add: lv_inv_empty lv_inv_take)

section \<open>A reference definition\<close>

text \<open>
  The latest votes are determined by the votes seen: the greatest slot with a frozen bank, and the
  hashes seen for it in the order in which they came first.
\<close>

definition firsts :: "'a list \<Rightarrow> 'a list" where
  "firsts xs = rev (remdups (rev xs))"

lemma firsts_snoc: "firsts (xs @ [x]) = (if x \<in> set xs then firsts xs else firsts xs @ [x])"
  by (simp add: firsts_def)

lemma set_firsts [simp]: "set (firsts xs) = set xs" by (simp add: firsts_def)

definition latest_of :: "(slot \<times> hash) list \<Rightarrow> (slot \<times> hash list) option" where
  "latest_of vs =
     (if vs = [] then None
      else let s = Max (fst ` set vs) in Some (s, firsts (map snd (filter (\<lambda>v. fst v = s) vs))))"

lemma latest_of_snoc:
  "latest_of (vs @ [(s, h)]) = Some
     (case latest_of vs of
        None \<Rightarrow> (s, [h])
      | Some (m, hs) \<Rightarrow> if m < s then (s, [h]) else if s = m \<and> h \<notin> set hs then (m, hs @ [h]) else (m, hs))"
proof (cases "vs = []")
  case True
  then show ?thesis by (simp add: latest_of_def firsts_def)
next
  case False
  define m where "m = Max (fst ` set vs)"
  have le: "t \<le> m" if "(t, x) \<in> set vs" for t x
    unfolding m_def using that by (intro Max_ge) (auto intro: rev_image_eqI)
  have max: "Max (fst ` set (vs @ [(s, h)])) = max s m" using False by (simp add: m_def)
  have old: "latest_of vs = Some (m, firsts (map snd (filter (\<lambda>v. fst v = m) vs)))"
    using False by (simp add: latest_of_def m_def Let_def)
  consider "m < s" | "s = m" | "s < m" by force
  then show ?thesis
  proof cases
    case 1
    then have "filter (\<lambda>v. fst v = s) vs = []" using le by (force simp: filter_empty_conv)
    then show ?thesis using 1 unfolding old unfolding latest_of_def max Let_def by (simp add: firsts_def)
  next
    case 2
    then show ?thesis unfolding old unfolding latest_of_def max Let_def by (auto simp: firsts_snoc)
  next
    case 3
    then show ?thesis unfolding old unfolding latest_of_def max Let_def by auto
  qed
qed

datatype vote_event = VoteSeen pubkey slot "hash option" bool | DirtyTaken "pubkey list" slot

fun lv_process :: "latest_votes_for_frozen_banks \<Rightarrow> vote_event list \<Rightarrow> latest_votes_for_frozen_banks option" where
  "lv_process self [] = Some self"
| "lv_process self (VoteSeen pk slot h replay # evs) =
     do { (self, _) \<leftarrow> check_add_vote self pk slot h replay; lv_process self evs }"
| "lv_process self (DirtyTaken order root # evs) = lv_process (fst (take_votes_dirty_set order self root)) evs"

fun seen_votes :: "pubkey \<Rightarrow> bool \<Rightarrow> vote_event list \<Rightarrow> (slot \<times> hash) list" where
  "seen_votes pk replay [] = []"
| "seen_votes pk replay (VoteSeen q slot h r # evs) =
     (case h of Some hash \<Rightarrow> if q = pk \<and> r = replay then [(slot, hash)] else [] | None \<Rightarrow> []) @ seen_votes pk replay evs"
| "seen_votes pk replay (DirtyTaken order root # evs) = seen_votes pk replay evs"

lemma lv_process_append: "lv_process self (evs @ evs') = Option.bind (lv_process self evs) (\<lambda>self. lv_process self evs')"
  by (induction self evs rule: lv_process.induct) (auto split: Option.bind_splits)

lemma seen_votes_append: "seen_votes pk replay (evs @ evs') = seen_votes pk replay evs @ seen_votes pk replay evs'"
  by (induction pk replay evs rule: seen_votes.induct) auto

lemma vote_map_put [simp]:
  "vote_map (put_votes self r pk v) replay = (if r = replay then (vote_map self replay)(pk \<mapsto> v) else vote_map self replay)"
  "vote_map (put_dirty self r pk v) replay = vote_map self replay"
  by (auto simp: vote_map_def put_votes_def put_dirty_def)

lemma vote_map_push: "push_dirty self r pk h = Some self' \<Longrightarrow> vote_map self' replay = vote_map self replay"
  by (auto simp: push_dirty_def split: if_splits prod.splits option.splits)

lemma check_add_vote_map:
  assumes "check_add_vote self q slot h r = Some (self', res)"
  shows "vote_map self' replay pk =
    (case h of
       Some hash \<Rightarrow>
         if q = pk \<and> r = replay
         then Some (case vote_map self replay pk of
                None \<Rightarrow> (slot, [hash])
              | Some (m, hs) \<Rightarrow>
                  if m < slot then (slot, [hash]) else if slot = m \<and> hash \<notin> set hs then (m, hs @ [hash]) else (m, hs))
         else vote_map self replay pk
     | None \<Rightarrow> vote_map self replay pk)"
  using assms
  by (auto simp: check_add_vote_def vote_map_push split: option.splits if_splits prod.splits Option.bind_splits)

lemma lv_process_latest:
  "\<exists>self. lv_process empty_votes evs = Some self \<and> lv_run self \<and>
     (\<forall>pk replay. vote_map self replay pk = latest_of (seen_votes pk replay evs))"
proof (induction evs rule: rev_induct)
  case Nil
  show ?case
    by (intro exI [of _ empty_votes] conjI lv_empty) (simp_all add: latest_of_def empty_votes_def vote_map_def)
next
  case (snoc e evs)
  then obtain s where s: "lv_process empty_votes evs = Some s" "lv_run s"
    "\<And>pk replay. vote_map s replay pk = latest_of (seen_votes pk replay evs)" by blast
  show ?case
  proof (cases e)
    case (VoteSeen q slot h r)
    obtain s' res where s': "check_add_vote s q slot h r = Some (s', res)"
      using check_add_vote_ok [OF lv_run_inv [OF s(2)], of q slot h r] by blast
    have "vote_map s' replay pk = latest_of (seen_votes pk replay (evs @ [e]))" for pk replay
      using check_add_vote_map [OF s', of replay pk] unfolding VoteSeen
      by (cases h) (simp_all add: seen_votes_append s(3) latest_of_snoc)
    then show ?thesis using VoteSeen s(1) s' lv_add [OF s(2) s'] by (simp add: lv_process_append)
  next
    case (DirtyTaken order root)
    have "vote_map (fst (take_votes_dirty_set order s root)) replay = vote_map s replay" for replay
      by (simp add: vote_map_def take_votes_dirty_set_def)
    then show ?thesis
      using DirtyTaken s lv_take [OF s(2)] by (simp add: lv_process_append seen_votes_append)
  qed
qed

section \<open>Feeding the fork choice\<close>

lemma take_fst:
  "fst ` set (snd (take_votes_dirty_set order self root)) \<subseteq> set order"
  by (auto simp: take_votes_dirty_set_def dirty_votes_def split: option.splits if_splits)

lemma dirty_votes_single:
  assumes "\<forall>s hs. dirty pk = Some (s, hs) \<longrightarrow> root \<le> s \<longrightarrow> length hs \<le> 1"
  shows "length (dirty_votes dirty root pk) \<le> 1"
  using assms by (auto simp: dirty_votes_def split: option.split)

lemma dirty_votes_fst: "fst ` set (dirty_votes dirty root pk) \<subseteq> {pk}"
  by (auto simp: dirty_votes_def split: option.splits if_splits)

lemma take_distinct:
  assumes "distinct order" "\<forall>pk s hs. dirty pk = Some (s, hs) \<longrightarrow> root \<le> s \<longrightarrow> length hs \<le> 1"
  shows "distinct (map fst (concat (map (dirty_votes dirty root) order)))"
  using assms(1)
proof (induction order)
  case (Cons pk order)
  have "distinct (map fst (dirty_votes dirty root pk))"
    using dirty_votes_single [of dirty pk root] assms(2) by (cases "dirty_votes dirty root pk") auto
  moreover have "fst ` set (dirty_votes dirty root pk) \<inter> fst ` set (concat (map (dirty_votes dirty root) order)) = {}"
  proof -
    have "fst ` set (concat (map (dirty_votes dirty root) order)) \<subseteq> set order"
      using dirty_votes_fst [of dirty root] by (auto simp: image_subset_iff)
    then show ?thesis using Cons.prems dirty_votes_fst [of dirty root pk] by auto
  qed
  ultimately show ?case using Cons by simp
qed simp

lemma take_map_of:
  assumes "distinct order" "pk \<in> set order" "dirty pk = Some (s, [h])" "root \<le> s"
    and d: "distinct (map fst (concat (map (dirty_votes dirty root) order)))"
  shows "map_of (concat (map (dirty_votes dirty root) order)) pk = Some (Key s h)"
proof -
  have "(pk, Key s h) \<in> set (concat (map (dirty_votes dirty root) order))"
    using assms(2-4) by (auto simp: dirty_votes_def intro!: bexI [of _ pk])
  then show ?thesis using d by simp
qed

section \<open>Properties\<close>

text \<open>
  C38. Whatever votes are seen and whenever the dirty set is taken, recording a vote never panics, and
  what is recorded for a validator, from replay and from gossip alike, is the reference definition
  over the votes seen: the greatest slot with a frozen bank and the hashes seen for it, each once, in
  the order of their arrival.
\<close>

theorem latest_votes_are_latest:
  "\<exists>self. lv_process empty_votes events = Some self \<and>
     (\<forall>pk. max_replay_frozen_votes self pk = latest_of (seen_votes pk True events) \<and>
           max_gossip_frozen_votes self pk = latest_of (seen_votes pk False events))"
proof -
  obtain self where s: "lv_process empty_votes events = Some self"
    "\<And>pk replay. vote_map self replay pk = latest_of (seen_votes pk replay events)"
    using lv_process_latest [of events] by blast
  have "max_replay_frozen_votes self pk = latest_of (seen_votes pk True events) \<and>
      max_gossip_frozen_votes self pk = latest_of (seen_votes pk False events)" for pk
    using s(2) [of True pk] s(2) [of False pk] by (simp add: vote_map_def)
  then show ?thesis using s(1) by blast
qed

text \<open>
  C16. Handing the dirty votes to the fork choice does not panic as long as no validator has two
  versions of a slot among them.  The fork choice stays in a run, nothing remains dirty, and the
  latest vote that the fork choice keeps of a validator accounts for its dirty vote.
\<close>

theorem compute_bank_stats_feeds_votes:
  assumes "fc_run env self" "lv_run lv" "distinct order"
    "\<forall>pk s hs. fork_choice_dirty_set lv pk = Some (s, hs) \<longrightarrow> key_slot (tree_root self) \<le> s \<longrightarrow> length hs \<le> 1"
  shows "\<exists>self' lv' best. compute_bank_stats order env self lv = Some (self', lv', best) \<and> fc_run env self' \<and> lv_run lv' \<and>
    best_overall_slot self' = Some best \<and> fork_choice_dirty_set lv' = Map.empty \<and>
    (\<forall>pk s h. pk \<in> set order \<and> fork_choice_dirty_set lv pk = Some (s, [h]) \<and> key_slot (tree_root self) \<le> s \<longrightarrow>
      latest_votes self' pk = (case latest_votes self pk of
        None \<Rightarrow> Some (Key s h)
      | Some old \<Rightarrow> Some (if key_slot old < s \<or> (key_slot old = s \<and> h < key_hash old) then Key s h else old)))"
proof -
  let ?root = "key_slot (tree_root self)" and ?dirty = "fork_choice_dirty_set lv"
  let ?vs = "concat (map (dirty_votes ?dirty ?root) order)"
  have d: "distinct (map fst ?vs)" by (rule take_distinct [OF assms(3,4)])
  obtain self' best where s': "add_votes env self ?vs = Some (self', best)" "best_overall_slot self' = Some best"
    using run_votes_ok [OF fc_run_inv [OF assms(1)] d] by blast
  have c: "compute_bank_stats order env self lv = Some (self', lv\<lparr>fork_choice_dirty_set := Map.empty\<rparr>, best)"
    using s'(1) by (simp add: compute_bank_stats_def take_votes_dirty_set_def)
  have l: "lv_run (lv\<lparr>fork_choice_dirty_set := Map.empty\<rparr>)"
    using lv_take [OF assms(2), of order ?root] by (simp add: take_votes_dirty_set_def)
  have "latest_votes self' pk = (case latest_votes self pk of
      None \<Rightarrow> Some (Key s h)
    | Some old \<Rightarrow> Some (if key_slot old < s \<or> (key_slot old = s \<and> h < key_hash old) then Key s h else old))"
    if "pk \<in> set order" "?dirty pk = Some (s, [h])" "?root \<le> s" for pk s h
  proof -
    have "\<not> s < ?root" using that(3) by simp
    then show ?thesis
      using add_votes_latest [OF s'(1) d, of pk] take_map_of [OF assms(3) that d]
      by (cases "latest_votes self pk") (simp_all add: latest_vote_def supersedes_def)
  qed
  then show ?thesis using c l s'(2) run_votes [OF assms(1) s'(1) d] by auto
qed

theorem compute_bank_stats_feeds_votes_witness:
  "\<exists>self lv self' lv' best. fork_choice_new (Key 5 7) = Some self \<and>
     lv_process empty_votes [VoteSeen 1 5 (Some 7) True] = Some lv \<and>
     compute_bank_stats [1] \<lparr>get_epoch = (\<lambda>_. 0), epoch_stakes = Map.empty\<rparr> self lv = Some (self', lv', best) \<and>
     latest_votes self' 1 = Some (Key 5 7)"
proof -
  let ?env = "\<lparr>get_epoch = (\<lambda>_. 0), epoch_stakes = Map.empty\<rparr>"
  obtain self where self: "fork_choice_new (Key 5 7) = Some self" "latest_votes self = Map.empty" "tree_root self = Key 5 7"
    using fork_choice_new_ok [of "Key 5 7" ?env] by blast
  have run: "fc_run ?env self" by (rule run_new [OF self(1)]) (simp add: default_key_def)
  obtain lv where lv: "lv_process empty_votes [VoteSeen 1 5 (Some 7) True] = Some lv" "lv_run lv"
    using lv_process_latest [of "[VoteSeen 1 5 (Some 7) True]"] by blast
  have dirty: "fork_choice_dirty_set lv = [1 \<mapsto> (5, [7])]"
    using lv(1) by (auto simp: check_add_vote_def empty_votes_def vote_map_def put_votes_def put_dirty_def)
  have "\<forall>pk s hs. fork_choice_dirty_set lv pk = Some (s, hs) \<longrightarrow> key_slot (tree_root self) \<le> s \<longrightarrow> length hs \<le> 1"
    using dirty by auto
  from compute_bank_stats_feeds_votes [OF run lv(2) _ this, of "[1]"] obtain self' lv' best where
    "compute_bank_stats [1] ?env self lv = Some (self', lv', best)" "latest_votes self' 1 = Some (Key 5 7)"
    using dirty self(2,3) by auto
  then show ?thesis using self(1) lv(1) by blast
qed

text \<open>
  C39. A second version of a block is lost for the fork choice when its vote arrives after the dirty
  set was taken: \<open>check_add_vote\<close> reports the vote as added, but its entry in the dirty set gets slot
  zero, and for every root above zero no vote of the validator is handed to the fork choice.
\<close>

theorem late_second_version_is_lost:
  assumes "max_replay_frozen_votes self pk = Some (slot, hashes)" "fork_choice_dirty_set self pk = None"
    "hash \<notin> set hashes" "0 < root"
  shows "\<exists>self'. check_add_vote self pk slot (Some hash) True = Some (self', True, Some slot) \<and>
    max_replay_frozen_votes self' pk = Some (slot, hashes @ [hash]) \<and>
    pk \<notin> fst ` set (snd (take_votes_dirty_set order self' root))"
proof -
  let ?self = "put_votes (put_dirty self True pk (0, [hash])) True pk (slot, hashes @ [hash])"
  have "check_add_vote self pk slot (Some hash) True = Some (?self, True, Some slot)"
    using assms by (simp add: check_add_vote_def vote_map_def push_dirty_def)
  moreover have "pk \<notin> fst ` set (snd (take_votes_dirty_set order ?self root))"
    using assms(4)
    by (auto simp: take_votes_dirty_set_def dirty_votes_def put_votes_def put_dirty_def not_le [symmetric]
        split: option.splits if_splits)
  ultimately show ?thesis by (intro exI [of _ ?self]) (simp add: put_votes_def)
qed

theorem late_second_version_is_lost_witness:
  "\<exists>self'. check_add_vote \<lparr>max_gossip_frozen_votes = Map.empty, max_replay_frozen_votes = [1 \<mapsto> (5, [7])],
       fork_choice_dirty_set = Map.empty\<rparr> 1 5 (Some 6) True = Some (self', True, Some 5) \<and>
     1 \<notin> fst ` set (snd (take_votes_dirty_set [1] self' 3))"
proof -
  let ?self = "\<lparr>max_gossip_frozen_votes = Map.empty, max_replay_frozen_votes = [1 \<mapsto> (5, [7])], fork_choice_dirty_set = Map.empty\<rparr>"
  have "max_replay_frozen_votes ?self 1 = Some (5, [7])" "fork_choice_dirty_set ?self 1 = None" "(6 :: hash) \<notin> set [7]" "(0 :: slot) < 3"
    by simp_all
  from late_second_version_is_lost [OF this, of "[1]"] show ?thesis by blast
qed

text \<open>Two versions of a slot in one batch make the fork choice panic.\<close>

lemma two_versions_panic:
  "Option.bind (fork_choice_new (Key 5 7)) (\<lambda>self.
     Option.bind (lv_process empty_votes [VoteSeen 1 5 (Some 7) True, VoteSeen 1 5 (Some 6) True]) (\<lambda>lv.
       compute_bank_stats [1] \<lparr>get_epoch = (\<lambda>_. 0), epoch_stakes = Map.empty\<rparr> self lv)) = None \<and>
   fork_choice_new (Key 5 7) \<noteq> None \<and>
   lv_process empty_votes [VoteSeen 1 5 (Some 7) True, VoteSeen 1 5 (Some 6) True] \<noteq> None"
  by code_simp

end
