(* ===== verification/Qos_Service.thy ===== *)
theory Qos_Service
  imports Cost_Tracker
begin

text \<open>
  The quality of service of the banking stage (core/src/banking_stage/qos_service.rs): the transactions of a
  batch are admitted by the cost tracker of the bank before they run, and their costs are corrected
  or taken back afterwards.

  The lock on the cost tracker is held in each of the operations, so each is one step on it.  The
  metrics are left out.
\<close>

section \<open>Data and operations\<close>

text \<open>The errors of a transaction: those of the cost tracker, and what it was filtered with before.\<close>

datatype 'e qos_error = WouldExceedMaxBlockCostLimit | WouldExceedMaxVoteCostLimit | WouldExceedMaxAccountCostLimit
  | ExceedsAccountDataBlockLimit | ExceedsAccountDataTotalLimit | FilteredBefore 'e

definition from_cost_tracker_error :: "cost_tracker_error \<Rightarrow> 'e qos_error" where
  "from_cost_tracker_error err =
     (case err of
        WouldExceedBlockMaxLimit \<Rightarrow> WouldExceedMaxBlockCostLimit
      | WouldExceedVoteMaxLimit \<Rightarrow> WouldExceedMaxVoteCostLimit
      | WouldExceedAccountMaxLimit \<Rightarrow> WouldExceedMaxAccountCostLimit
      | WouldExceedAccountDataBlockLimit \<Rightarrow> ExceedsAccountDataBlockLimit
      | WouldExceedAccountDataTotalLimit \<Rightarrow> ExceedsAccountDataTotalLimit)"

text \<open>A transaction with its instructions and its compute budget limits.\<close>

type_synonym 'i qos_transaction = "cost_message \<times> (pubkey \<times> 'i) list \<times> (u32 \<times> u32) option"

type_synonym 'e cost_result = "('e qos_error, transaction_cost) result"

text \<open>What the committer reports of a transaction.\<close>

datatype commit_transaction_details = Committed u64 u32 | NotCommitted

definition compute_transaction_costs ::
  "'i cost_env \<Rightarrow> 'i qos_transaction list \<Rightarrow> ('e qos_error, unit) result list \<Rightarrow> 'e cost_result list" where
  "compute_transaction_costs env transactions pre_results =
     map (\<lambda>((tx, instructions, limits), pre_result).
            map_sum id (\<lambda>_. calculate_cost env tx instructions limits) pre_result) (zip transactions pre_results)"

fun select_loop :: "u64 \<Rightarrow> 'e cost_result list \<Rightarrow> cost_tracker \<Rightarrow> cost_tracker \<times> 'e cost_result list \<times> nat" where
  "select_loop reservation [] t = (t, [], 0)"
| "select_loop reservation (Inl e # costs) t =
     (let (t, results, n) = select_loop reservation costs t in (t, Inl e # results, n))"
| "select_loop reservation (Inr cost # costs) t =
     (case try_add cost reservation t of
        Inr (t, _) \<Rightarrow> (let (t, results, n) = select_loop reservation costs t in (t, Inr cost # results, n + 1))
      | Inl e \<Rightarrow> (let (t, results, n) = select_loop reservation costs t in (t, Inl (from_cost_tracker_error e) # results, n)))"

definition select_transactions_per_cost ::
  "u64 \<Rightarrow> 'e cost_result list \<Rightarrow> cost_tracker \<Rightarrow> cost_tracker \<times> 'e cost_result list \<times> nat" where
  "select_transactions_per_cost reservation costs t =
     (let (t, results, num_included) = select_loop reservation costs t
      in (add_transactions_in_flight (of_nat num_included) t, results, num_included))"

definition select_and_accumulate_transaction_costs ::
  "'i cost_env \<Rightarrow> 'i qos_transaction list \<Rightarrow> ('e qos_error, unit) result list \<Rightarrow> u64 \<Rightarrow> cost_tracker \<Rightarrow>
   cost_tracker \<times> 'e cost_result list \<times> nat" where
  "select_and_accumulate_transaction_costs env transactions pre_results reservation t =
     (let (t, results, num_included) =
            select_transactions_per_cost reservation (compute_transaction_costs env transactions pre_results) t
      in (t, results, length transactions - num_included))"

fun recorded_loop ::
  "'i cost_env \<Rightarrow> ('e cost_result \<times> commit_transaction_details) list \<Rightarrow> cost_tracker \<Rightarrow> cost_tracker \<times> nat" where
  "recorded_loop env [] t = (t, 0)"
| "recorded_loop env ((Inl _, _) # rest) t = recorded_loop env rest t"
| "recorded_loop env ((Inr tx_cost, details) # rest) t =
     (let t = (case details of
                 Committed compute_units loaded_accounts_data_size \<Rightarrow>
                   update_execution_cost tx_cost compute_units (ce_memory_usage_cost env loaded_accounts_data_size) t
               | NotCommitted \<Rightarrow> remove_cost tx_cost t);
          (t, n) = recorded_loop env rest t
      in (t, n + 1))"

definition remove_or_update_recorded_transaction_costs ::
  "'i cost_env \<Rightarrow> 'e cost_result list \<Rightarrow> commit_transaction_details list \<Rightarrow> cost_tracker \<Rightarrow> cost_tracker" where
  "remove_or_update_recorded_transaction_costs env results committed t =
     (let (t, num_included) = recorded_loop env (zip results committed) t
      in sub_transactions_in_flight (of_nat num_included) t)"

fun unrecorded_loop :: "'e cost_result list \<Rightarrow> cost_tracker \<Rightarrow> cost_tracker \<times> nat" where
  "unrecorded_loop [] t = (t, 0)"
| "unrecorded_loop (Inl _ # rest) t = unrecorded_loop rest t"
| "unrecorded_loop (Inr tx_cost # rest) t =
     (let (t, n) = unrecorded_loop rest (remove_cost tx_cost t) in (t, n + 1))"

definition remove_unrecorded_transaction_costs :: "'e cost_result list \<Rightarrow> cost_tracker \<Rightarrow> cost_tracker" where
  "remove_unrecorded_transaction_costs results t =
     (let (t, num_included) = unrecorded_loop results t in sub_transactions_in_flight (of_nat num_included) t)"

definition remove_or_update_costs ::
  "'i cost_env \<Rightarrow> 'e cost_result list \<Rightarrow> commit_transaction_details list option \<Rightarrow> cost_tracker \<Rightarrow> cost_tracker" where
  "remove_or_update_costs env results committed_status t =
     (case committed_status of
        Some committed \<Rightarrow> remove_or_update_recorded_transaction_costs env results committed t
      | None \<Rightarrow> remove_unrecorded_transaction_costs results t)"

section \<open>A batch and the run of the tracker\<close>

text \<open>The costs of the selected transactions, and what the committed ones are charged in the end.\<close>

definition selected :: "'e cost_result list \<Rightarrow> transaction_cost list" where
  "selected results = List.map_filter (\<lambda>r. case r of Inr c \<Rightarrow> Some c | Inl _ \<Rightarrow> None) results"

definition estimate :: "transaction_cost \<Rightarrow> transaction_cost \<times> nat" where
  "estimate c = (c, unat (cost_sum c))"

definition final_charge :: "'i cost_env \<Rightarrow> transaction_cost \<Rightarrow> u64 \<Rightarrow> u32 \<Rightarrow> nat" where
  "final_charge env c units loaded = actual_charge c units (ce_memory_usage_cost env loaded)"

fun committed_charges :: "'i cost_env \<Rightarrow> ('e cost_result \<times> commit_transaction_details) list \<Rightarrow> (transaction_cost \<times> nat) list" where
  "committed_charges env [] = []"
| "committed_charges env ((Inr c, Committed units loaded) # rest) = (c, final_charge env c units loaded) # committed_charges env rest"
| "committed_charges env (_ # rest) = committed_charges env rest"

text \<open>How far the committed transactions of a batch went above their estimates.\<close>

fun batch_overrun :: "'i cost_env \<Rightarrow> ('e cost_result \<times> commit_transaction_details) list \<Rightarrow> nat" where
  "batch_overrun env [] = 0"
| "batch_overrun env ((Inr c, Committed units loaded) # rest) =
     overrun c units (ce_memory_usage_cost env loaded) + batch_overrun env rest"
| "batch_overrun env (_ # rest) = batch_overrun env rest"

lemma selected_simps [simp]:
  "selected [] = []" "selected (Inl e # rs) = selected rs" "selected (Inr c # rs) = c # selected rs"
  by (simp_all add: selected_def List.map_filter_def)

lemma in_flight_untouched:
  "in_flight_transaction_count (remove_cost c t) = in_flight_transaction_count t"
  "in_flight_transaction_count (update_execution_cost c e l t) = in_flight_transaction_count t"
  "in_flight_transaction_count (fst (add_transaction_cost c t)) = in_flight_transaction_count t"
  by (simp_all add: add_transaction_cost_def remove_cost_def remove_transaction_cost_def sub_transaction_execution_cost_def
    update_execution_cost_def add_transaction_execution_cost_def Let_def split: prod.splits)

lemma select_loop_run:
  assumes "ct_run al bl vl t charged over loaded" "\<And>c. Inr c \<in> set costs \<Longrightarrow> distinct (cm_account_keys (cost_transaction c))"
    and "select_loop reservation costs t = (t', results, n)"
  shows "ct_run al bl vl t' (map estimate (rev (selected results)) @ charged) over loaded
    \<and> n = length (selected results) \<and> length results = length costs \<and> in_flight_transaction_count t' = in_flight_transaction_count t"
  using assms
proof (induction reservation costs t arbitrary: t' results n charged rule: select_loop.induct)
  case (3 reservation cost costs t)
  obtain r where r: "try_add cost reservation t = r" by simp
  show ?case
  proof (cases r)
    case (Inl e)
    obtain rs where rs: "select_loop reservation costs t = (t', rs, n)" "results = Inl (from_cost_tracker_error e) # rs"
      using 3(5) r Inl by (auto split: prod.splits)
    show ?thesis using 3(1) [OF r [unfolded Inl] 3(3) _ rs(1)] 3(4) rs(2) by auto
  next
    case (Inr p)
    obtain t1 u where p: "p = (t1, u)" by (cases p)
    obtain rs m where rs: "select_loop reservation costs t1 = (t', rs, m)" "results = Inr cost # rs" "n = m + 1"
      using 3(5) r Inr p by (auto split: prod.splits)
    have ok: "try_add cost reservation t = Inr (t1, u)" using r Inr p by simp
    have run: "ct_run al bl vl t1 (estimate cost # charged) over loaded"
      unfolding estimate_def using 3(3) 3(4) ok by (intro ct_run.add) auto
    have "in_flight_transaction_count t1 = in_flight_transaction_count t"
      using ok by (auto simp: try_add_Inr in_flight_untouched)
    then show ?thesis using 3(2) [OF r [unfolded Inr p] refl run _ rs(1)] 3(4) rs(2,3) by auto
  qed
qed (auto split: prod.splits)

text \<open>Reporting the outcomes of a batch: the estimates still open, then what was settled, then the charges of others.\<close>

lemma recorded_loop_run:
  assumes "ct_run al bl vl t (map estimate (rev (selected (map fst outcomes))) @ settled @ charged) over bytes"
    and "recorded_loop env outcomes t = (t', n)"
  shows "ct_run al bl vl t' (rev (committed_charges env outcomes) @ settled @ charged) (over + batch_overrun env outcomes) bytes
    \<and> n = length (selected (map fst outcomes)) \<and> in_flight_transaction_count t' = in_flight_transaction_count t"
  using assms
proof (induction env outcomes t arbitrary: t' n settled over rule: recorded_loop.induct)
  case (3 env c details rest t)
  let ?open = "map estimate (rev (selected (map fst rest)))"
  have run: "ct_run al bl vl t (?open @ (c, unat (cost_sum c)) # settled @ charged) over bytes"
    using 3(2) by (simp add: estimate_def [of c, symmetric])
  define t1 where "t1 = (case details of
      Committed units loaded \<Rightarrow> update_execution_cost c units (ce_memory_usage_cost env loaded) t | NotCommitted \<Rightarrow> remove_cost c t)"
  define closed where "closed = (case details of
      Committed units loaded \<Rightarrow> (c, final_charge env c units loaded) # settled | NotCommitted \<Rightarrow> settled)"
  define over1 where "over1 = over + (case details of
      Committed units loaded \<Rightarrow> overrun c units (ce_memory_usage_cost env loaded) | NotCommitted \<Rightarrow> 0)"
  have run1: "ct_run al bl vl t1 (?open @ closed @ charged) over1 bytes"
  proof (cases details)
    case (Committed units loaded)
    with ct_run.update [OF run] show ?thesis by (simp add: t1_def closed_def over1_def final_charge_def)
  next
    case NotCommitted
    then show ?thesis using ct_run.remove [OF run] by (simp add: t1_def closed_def over1_def)
  qed
  obtain m where m: "recorded_loop env rest t1 = (t', m)" "n = m + 1"
    using 3(3) by (auto simp: t1_def split: prod.splits)
  have flight: "in_flight_transaction_count t1 = in_flight_transaction_count t"
    by (cases details) (simp_all add: t1_def in_flight_untouched)
  show ?case
    using 3(1) [OF t1_def run1 m(1)] m(2) flight by (cases details) (auto simp: closed_def over1_def add.assoc)
qed auto

lemma unrecorded_loop_run:
  assumes "ct_run al bl vl t (map estimate (rev (selected results)) @ charged) over loaded" "unrecorded_loop results t = (t', n)"
  shows "ct_run al bl vl t' charged over loaded \<and> n = length (selected results)
    \<and> in_flight_transaction_count t' = in_flight_transaction_count t"
  using assms
proof (induction results t arbitrary: t' n rule: unrecorded_loop.induct)
  case (3 c rest t)
  have "ct_run al bl vl (remove_cost c t) (map estimate (rev (selected rest)) @ charged) over loaded"
    using 3(2) by (intro ct_run.remove) (simp add: estimate_def [of c, symmetric])
  then show ?case using 3(1) 3(3) by (auto simp: in_flight_untouched split: prod.splits)
qed auto

lemma compute_costs_keys:
  assumes "\<forall>(tx, _) \<in> set txs. distinct (cm_account_keys tx)" "Inr c \<in> set (compute_transaction_costs env txs pre)"
  shows "distinct (cm_account_keys (cost_transaction c))"
proof -
  obtain tx instructions limits where "(tx, instructions, limits) \<in> set txs" "c = calculate_cost env tx instructions limits"
    using assms(2) by (auto simp: compute_transaction_costs_def map_sum_def split: sum.splits dest!: set_zip_leftD)
  then show ?thesis
    using assms(1) by (auto simp: calculate_cost_def calculate_non_vote_transaction_cost_def)
qed

lemma in_flight_back:
  assumes "unat (in_flight_transaction_count t) + n < 2 ^ 64" "in_flight_transaction_count t' = sat_add (in_flight_transaction_count t) (of_nat n)"
  shows "in_flight_transaction_count (sub_transactions_in_flight (of_nat n) t') = in_flight_transaction_count t"
proof -
  have n: "unat (of_nat n :: u64) = n" using assms(1) by (simp add: unat_of_nat take_bit_nat_eq_self)
  show ?thesis using assms unfolding sub_transactions_in_flight_def
    by (simp add: word_unat_eq_iff unat_sat_sub unat_sat_add n)
qed

lemma ct_run_block_cost:
  "ct_run al bl vl t charged over loaded \<Longrightarrow> cost_room al bl vl over \<Longrightarrow>
   unat (block_cost t) = charged_for (\<lambda>_. True) charged \<and> unat (block_cost t) \<le> unat bl + over"
  using ct_run_inv [of al bl vl t charged over loaded] by (auto simp: tracks_def within_limits_def)

lemma charged_for_all: "charged_for (\<lambda>_. True) charged = sum_list (map snd charged)"
  by (induction charged) (auto simp: charged_for_def)

text \<open>
  C9.  The cost of a block is what its committed transactions cost.  A batch that is admitted and whose outcomes are
  then reported leaves the tracker in a run with exactly the committed transactions added, each
  charged its estimate corrected by what it used, below or above.  The block exceeds its limit by no
  more than what was charged without admission before and the overruns of the batch, a batch that was not recorded
  leaves nothing behind, and the number of transactions in flight is what it was.  The keys of a
  transaction are distinct, and the counters do not reach 64 bits.
\<close>

theorem qos_charges_committed:
  assumes run: "ct_run account_limit block_limit vote_limit t charged over loaded"
    and keys: "\<forall>(tx, _) \<in> set txs. distinct (cm_account_keys tx)"
    and flight: "unat (in_flight_transaction_count t) + length txs < 2 ^ 64"
    and select: "select_and_accumulate_transaction_costs env txs pre_results reservation t = (t1, results, throttled)"
    and committed: "length committed = length results"
    and room: "cost_room account_limit block_limit vote_limit (over + batch_overrun env (zip results committed))"
  shows "unat (block_cost (remove_or_update_costs env results (Some committed) t1)) =
           unat (block_cost t) + sum_list (map snd (committed_charges env (zip results committed)))
       \<and> ct_run account_limit block_limit vote_limit (remove_or_update_costs env results (Some committed) t1)
           (rev (committed_charges env (zip results committed)) @ charged)
           (over + batch_overrun env (zip results committed)) loaded
       \<and> unat (block_cost (remove_or_update_costs env results (Some committed) t1)) \<le>
           unat block_limit + over + batch_overrun env (zip results committed)
       \<and> in_flight_transaction_count (remove_or_update_costs env results (Some committed) t1) = in_flight_transaction_count t
       \<and> ct_run account_limit block_limit vote_limit (remove_or_update_costs env results None t1) charged over loaded
       \<and> in_flight_transaction_count (remove_or_update_costs env results None t1) = in_flight_transaction_count t"
proof -
  let ?run = "ct_run account_limit block_limit vote_limit" and ?costs = "compute_transaction_costs env txs pre_results"
  obtain t0 n where sel: "select_loop reservation ?costs t = (t0, results, n)"
    and t1: "t1 = add_transactions_in_flight (of_nat n) t0"
    using select by (auto simp: select_and_accumulate_transaction_costs_def select_transactions_per_cost_def split: prod.splits)
  have dist: "distinct (cm_account_keys (cost_transaction c))" if "Inr c \<in> set ?costs" for c
    using keys that by (rule compute_costs_keys)
  have sl: "?run t0 (map estimate (rev (selected results)) @ charged) over loaded" "n = length (selected results)"
    "length results = length ?costs" "in_flight_transaction_count t0 = in_flight_transaction_count t"
    using select_loop_run [OF run dist sel] by auto
  have run1: "?run t1 (map estimate (rev (selected results)) @ charged) over loaded" unfolding t1 using sl(1) by (rule ct_run.in_flight)
  have "length (selected results) \<le> length results" by (simp add: selected_def List.map_filter_def)
  then have flight_room: "unat (in_flight_transaction_count t) + n < 2 ^ 64"
    using flight sl(2,3) by (simp add: compute_transaction_costs_def)
  have count: "in_flight_transaction_count t1 = sat_add (in_flight_transaction_count t) (of_nat n)"
    by (simp add: t1 add_transactions_in_flight_def sl(4))
  have fst_zip: "map fst (zip results committed) = results" using committed by simp
  obtain t2 m where t2: "recorded_loop env (zip results committed) t1 = (t2, m)" by fastforce
  let ?over = "over + batch_overrun env (zip results committed)"
  have r2: "?run t2 (rev (committed_charges env (zip results committed)) @ charged) ?over loaded" "m = n"
    "in_flight_transaction_count t2 = in_flight_transaction_count t1"
    using recorded_loop_run [of _ _ _ t1 "zip results committed" "[]" charged over loaded, OF _ t2] run1 sl(2)
    unfolding fst_zip by auto
  obtain t3 k where t3: "unrecorded_loop results t1 = (t3, k)" by fastforce
  have r3: "?run t3 charged over loaded" "k = n" "in_flight_transaction_count t3 = in_flight_transaction_count t1"
    using unrecorded_loop_run [OF run1 t3] sl(2) by auto
  have eq2: "remove_or_update_costs env results (Some committed) t1 = sub_transactions_in_flight (of_nat n) t2"
    and eq3: "remove_or_update_costs env results None t1 = sub_transactions_in_flight (of_nat n) t3"
    using t2 t3 r2(2) r3(2)
    by (simp_all add: remove_or_update_costs_def remove_or_update_recorded_transaction_costs_def remove_unrecorded_transaction_costs_def)
  have fin: "?run (sub_transactions_in_flight (of_nat n) t2) (rev (committed_charges env (zip results committed)) @ charged) ?over loaded"
    using r2(1) by (rule ct_run.landed)
  note cost = ct_run_block_cost [OF fin room] ct_run_block_cost [OF run cost_room_mono [OF room]]
  show ?thesis unfolding eq2 eq3
    using fin cost ct_run.landed [OF r3(1)] in_flight_back [OF flight_room] count r2(3) r3(3)
    by (auto simp: charged_for_all rev_map [symmetric])
qed

text \<open>
  A batch of two transactions: the first is committed with more units than estimated, the second
  is not committed.
\<close>

definition demo_batch :: "unit qos_transaction list" where
  "demo_batch = [(demo_message, [(0, ())], Some (200000, 8192)), (demo_message, [], Some (1000, 4096))]"

definition demo_pre :: "(unit qos_error, unit) result list" where
  "demo_pre = [Inr (), Inr ()]"

definition demo_selection :: "cost_tracker \<times> unit cost_result list \<times> nat" where
  "demo_selection = select_and_accumulate_transaction_costs demo_cost_env demo_batch demo_pre 0 demo_ct0"

definition demo_second :: transaction_cost where
  "demo_second = calculate_cost demo_cost_env demo_message [] (Some (1000, 4096))"

lemma demo_selection_results: "fst (snd demo_selection) = [Inr demo_cost, Inr demo_second]"
proof -
  have "would_fit demo_second 0 demo_ct1 = Inr ()" by (simp add: demo_second_def demo_defs)
  then have second: "try_add demo_second 0 demo_ct1 = Inr (fst (add_transaction_cost demo_second demo_ct1),
      \<lparr>updated_block_cost = block_cost (fst (add_transaction_cost demo_second demo_ct1)),
       updated_costliest_account_cost = snd (add_transaction_cost demo_second demo_ct1)\<rparr>)"
    by (rule try_add_fits)
  have "compute_transaction_costs demo_cost_env demo_batch demo_pre = [Inr demo_cost, Inr demo_second]"
    by (simp add: demo_pre_def compute_transaction_costs_def demo_batch_def demo_cost_def demo_second_def)
  then show ?thesis
    using try_add_fits [OF demo_cost_values(1)] second
    by (simp add: demo_selection_def select_and_accumulate_transaction_costs_def select_transactions_per_cost_def
      demo_ct1_def [symmetric])
qed

lemma qos_charges_committed_witness:
  "unat (block_cost (remove_or_update_costs demo_cost_env [Inr demo_cost, Inr demo_second :: unit cost_result]
     (Some [Committed 200500 4096, NotCommitted]) (fst demo_selection))) = unat (block_cost demo_ct0) + 201831"
proof -
  note run = demo_ct0_run
  have select: "select_and_accumulate_transaction_costs demo_cost_env demo_batch demo_pre 0 demo_ct0 =
      (fst demo_selection, [Inr demo_cost, Inr demo_second], snd (snd demo_selection))"
    using demo_selection_results by (metis demo_selection_def prod.collapse)
  have keys: "\<forall>(tx, _) \<in> set demo_batch. distinct (cm_account_keys tx)"
    by (simp add: demo_batch_def demo_message_def)
  have flight: "unat (in_flight_transaction_count demo_ct0) + length demo_batch < 2 ^ 64"
    by (simp add: demo_batch_def demo_ct0_def set_limits_def default_cost_tracker_def)
  let ?out = "zip [Inr demo_cost, Inr demo_second :: unit cost_result] [Committed 200500 4096, NotCommitted]"
  have mem: "ce_memory_usage_cost demo_cost_env 4096 = 1" by (simp add: demo_cost_env_def)
  have charge: "actual_charge demo_cost 200500 1 = 201831" "overrun demo_cost 200500 1 = 499"
    by (simp_all add: demo_defs actual_charge_def overrun_def)
  have charges: "sum_list (map snd (committed_charges demo_cost_env ?out)) = 201831"
    by (simp add: final_charge_def mem charge)
  have room: "cost_room 12000000 60000000 36000000 (0 + batch_overrun demo_cost_env ?out)"
    by (simp add: cost_room_def mem charge)
  show ?thesis using qos_charges_committed [OF run keys flight select _ room] charges by simp
qed

end
