(* ===== verification/Scheduler_Synchronization.thy ===== *)
theory Scheduler_Synchronization
  imports Prelude
begin

text \<open>
  Who schedules a slot: core/src/scheduler_synchronization.rs. One atomic u64 holds the last
  claimed slot and, in its top bit, whether the block stage or the vanilla scheduler claimed
  it; a second atomic flag says that the vote worker is in a batch.

  Each operation is a function on the value of the atomic, a \<open>fetch_update\<close> being one atomic
  step. The protocol of the threads is a step relation over the same functions: an operation
  of several atomic accesses takes as many steps, and the threads interleave.

  The claim is one location, which all threads see change in the same order. The flag is a
  second one, and the order of the vote worker's store to the flag and its load of the claim
  matters. The store is \<open>SeqCst\<close> but the load (\<open>is_block_executing\<close>) is \<open>Acquire\<close>, so the memory
  model allows the load to be performed before the store is visible. The stores to the flag
  therefore go through a buffer, and the step relation has a parameter: whether the load
  waits until the buffer is empty, as on a machine that implements a \<open>SeqCst\<close> store with a
  full barrier (x86). On the side of the block stage a \<open>SeqCst\<close> fence stands between the claim
  and the load of the flag, so these two are in program order.
\<close>

unbundle bit_operations_syntax

section \<open>The encoding\<close>

definition BLOCK_CLAIMED_BIT :: u64 where
  "BLOCK_CLAIMED_BIT = push_bit 63 1"

definition SLOT_MASK :: u64 where
  "SLOT_MASK = NOT BLOCK_CLAIMED_BIT"

definition SENTINEL :: u64 where
  "SENTINEL = - 1"

definition get_slot :: "u64 \<Rightarrow> u64" where
  "get_slot val = val AND SLOT_MASK"

definition is_block_claim :: "u64 \<Rightarrow> bool" where
  "is_block_claim val \<longleftrightarrow> val \<noteq> SENTINEL \<and> val AND BLOCK_CLAIMED_BIT \<noteq> 0"

definition vanilla_claim :: "u64 \<Rightarrow> u64" where
  "vanilla_claim slot = slot AND SLOT_MASK"

definition block_claim :: "u64 \<Rightarrow> u64" where
  "block_claim slot = (slot AND SLOT_MASK) OR BLOCK_CLAIMED_BIT"

section \<open>The operations\<close>

text \<open>\<open>AtomicU64::fetch_update\<close>: the new value and whether the closure returned one.\<close>

definition fetch_update :: "(u64 \<Rightarrow> u64 option) \<Rightarrow> u64 \<Rightarrow> u64 \<times> bool" where
  "fetch_update f state = (case f state of Some new_state \<Rightarrow> (new_state, True) | None \<Rightarrow> (state, False))"

text \<open>The closure of both claims: a slot is claimed when the last claimed one is in the past.\<close>

definition claim_update :: "u64 \<Rightarrow> u64 \<Rightarrow> u64 \<Rightarrow> u64 option" where
  "claim_update new_state current_slot old_state =
     (if old_state = SENTINEL then Some new_state
      else if get_slot old_state < current_slot then Some new_state
      else None)"

text \<open>The check of who claimed the slot, done before and after the attempt to claim it.\<close>

definition vanilla_check :: "u64 \<Rightarrow> u64 \<Rightarrow> bool option" where
  "vanilla_check state current_slot =
     (if state \<noteq> SENTINEL \<and> get_slot state = current_slot then Some (\<not> is_block_claim state) else None)"

definition vanilla_should_schedule :: "u64 \<Rightarrow> u64 \<Rightarrow> bool \<Rightarrow> u64 \<times> bool option" where
  "vanilla_should_schedule state current_slot in_delegation_period =
     (case vanilla_check state current_slot of
        Some yes \<Rightarrow> (state, Some yes)
      | None \<Rightarrow>
          if in_delegation_period then (state, None)
          else
            let (state_now, claimed) =
              fetch_update (claim_update (vanilla_claim current_slot) current_slot) state
            in if claimed then (state_now, Some True)
               else (case vanilla_check state_now current_slot of
                       Some yes \<Rightarrow> (state_now, Some yes)
                     | None \<Rightarrow> (state_now, Some False)))"

definition block_should_schedule :: "u64 \<Rightarrow> u64 \<Rightarrow> bool \<Rightarrow> u64 \<times> bool option" where
  "block_should_schedule state current_slot in_delegation_period =
     (if \<not> in_delegation_period then (state, None)
      else
        let (state', did_claim) = fetch_update (claim_update (block_claim current_slot) current_slot) state
        in (state', Some did_claim))"

definition is_block_executing :: "u64 \<Rightarrow> u64 \<Rightarrow> bool" where
  "is_block_executing state current_slot \<longleftrightarrow>
     state \<noteq> SENTINEL \<and> get_slot state = current_slot \<and> is_block_claim state"

definition block_execution_finished :: "u64 \<Rightarrow> u64 \<Rightarrow> u64 \<times> bool" where
  "block_execution_finished state current_slot =
     fetch_update (\<lambda>old_state.
       if old_state = SENTINEL then None
       else if get_slot old_state \<noteq> current_slot then None
       else if \<not> is_block_claim old_state then None
       else Some (vanilla_claim current_slot)) state"

definition block_failed :: "u64 \<Rightarrow> u64 \<Rightarrow> u64 \<times> bool option" where
  "block_failed state current_slot =
     (let (state', did_revert) =
        fetch_update (\<lambda>old_state.
          if old_state = SENTINEL then None
          else if get_slot old_state \<noteq> current_slot then None
          else if \<not> is_block_claim old_state then None
          else Some (vanilla_claim (current_slot - 1))) state
      in (state', Some did_revert))"

section \<open>What the encoded values mean\<close>

datatype claim = Unclaimed | VanillaClaim u64 | BlockClaim u64

definition decode :: "u64 \<Rightarrow> claim" where
  "decode state =
     (if state = SENTINEL then Unclaimed
      else if is_block_claim state then BlockClaim (get_slot state)
      else VanillaClaim (get_slot state))"

text \<open>Slots whose block claim is not the sentinel.\<close>

definition valid_slot :: "u64 \<Rightarrow> bool" where
  "valid_slot slot \<longleftrightarrow> slot < SLOT_MASK"

lemma slot_mask_eq: "SLOT_MASK = mask 63"
  by (simp add: SLOT_MASK_def BLOCK_CLAIMED_BIT_def mask_eq_exp_minus_1)

lemma slot_mask_less: "SLOT_MASK < 2 ^ 63"
  by (simp add: slot_mask_eq mask_eq_exp_minus_1)

lemma block_bit_iff: "v AND BLOCK_CLAIMED_BIT \<noteq> 0 \<longleftrightarrow> bit v 63"
  by (simp add: BLOCK_CLAIMED_BIT_def bit_iff_and_push_bit_not_eq_0)

lemma get_slot_less: "get_slot v < 2 ^ 63"
  unfolding get_slot_def slot_mask_eq by (rule and_mask_less') simp

lemma mask_slot: "slot < 2 ^ 63 \<Longrightarrow> slot AND SLOT_MASK = slot"
  by (simp add: slot_mask_eq less_mask_eq)

lemma bit_get_slot: "bit (get_slot v) n \<longleftrightarrow> n < 63 \<and> bit v n"
  by (auto simp: get_slot_def slot_mask_eq bit_and_iff bit_mask_iff)

lemma bit_SLOT_MASK: "bit SLOT_MASK n \<longleftrightarrow> n < 63"
  by (auto simp: slot_mask_eq bit_mask_iff)

lemma bit_BLOCK: "bit BLOCK_CLAIMED_BIT n \<longleftrightarrow> n = 63"
  unfolding BLOCK_CLAIMED_BIT_def bit_push_bit_iff by (auto simp: bit_1_iff)

lemma get_slot_claims [simp]:
  "get_slot (vanilla_claim slot) = get_slot slot" "get_slot (block_claim slot) = get_slot slot"
  by (auto intro!: bit_eqI simp: get_slot_def vanilla_claim_def block_claim_def bit_and_iff bit_or_iff
      bit_SLOT_MASK bit_BLOCK)

lemma get_slot_id: "slot < 2 ^ 63 \<Longrightarrow> get_slot slot = slot"
  by (simp add: get_slot_def mask_slot)

lemma valid_slot_less: "valid_slot slot \<Longrightarrow> slot < 2 ^ 63"
  unfolding valid_slot_def by (rule less_trans [OF _ slot_mask_less])

lemma get_slot_valid [simp]: "valid_slot slot \<Longrightarrow> get_slot slot = slot"
  by (rule get_slot_id [OF valid_slot_less])

lemma vanilla_claim_cases: "vanilla_claim slot \<noteq> SENTINEL" "\<not> is_block_claim (vanilla_claim slot)"
proof -
  have "\<not> bit (vanilla_claim slot) 63"
    by (simp add: vanilla_claim_def bit_and_iff bit_SLOT_MASK)
  moreover have "bit SENTINEL 63" by (simp add: SENTINEL_def)
  ultimately show "vanilla_claim slot \<noteq> SENTINEL" by metis
  show "\<not> is_block_claim (vanilla_claim slot)"
    using \<open>\<not> bit (vanilla_claim slot) 63\<close> by (simp add: is_block_claim_def block_bit_iff)
qed

lemma get_slot_sentinel: "get_slot SENTINEL = SLOT_MASK"
  by (simp add: get_slot_def SENTINEL_def)

lemma block_claim_cases:
  assumes "valid_slot slot"
  shows "block_claim slot \<noteq> SENTINEL" "is_block_claim (block_claim slot)"
proof -
  have "get_slot (block_claim slot) = slot"
    using assms by simp
  then show ne: "block_claim slot \<noteq> SENTINEL"
    using assms get_slot_sentinel unfolding valid_slot_def by (metis less_irrefl)
  have "bit (block_claim slot) 63"
    by (simp add: block_claim_def bit_or_iff bit_BLOCK)
  then show "is_block_claim (block_claim slot)"
    using ne by (simp add: is_block_claim_def block_bit_iff)
qed

lemma decode_vanilla: "slot < 2 ^ 63 \<Longrightarrow> decode (vanilla_claim slot) = VanillaClaim slot"
  by (simp add: decode_def vanilla_claim_cases get_slot_id)

lemma decode_block: "valid_slot slot \<Longrightarrow> decode (block_claim slot) = BlockClaim slot"
  by (simp add: decode_def block_claim_cases)

lemma decode_sentinel [simp]: "decode SENTINEL = Unclaimed"
  by (simp add: decode_def)

text \<open>Nothing is lost: the claim determines the encoded value.\<close>

lemma decode_inject: "decode v = decode w \<Longrightarrow> v = w"
proof -
  assume eq: "decode v = decode w"
  have bits: "v = w" if "get_slot v = get_slot w" "bit v 63 = bit w 63"
  proof (rule bit_eqI)
    fix n assume "possible_bit TYPE(64 word) n"
    then have "n < 64" by simp
    then show "bit v n = bit w n"
      using that bit_get_slot [of v n] bit_get_slot [of w n] by (cases "n = 63") auto
  qed
  show "v = w"
    using eq bits by (auto simp: decode_def is_block_claim_def block_bit_iff split: if_splits)
qed

section \<open>The operations on claims\<close>

text \<open>What each operation does, without the encoding.\<close>

fun claim_before :: "claim \<Rightarrow> u64 \<Rightarrow> bool" where
  "claim_before Unclaimed slot = True"
| "claim_before (VanillaClaim t) slot = (t < slot)"
| "claim_before (BlockClaim t) slot = (t < slot)"

fun claim_after :: "claim \<Rightarrow> u64 \<Rightarrow> bool" where
  "claim_after Unclaimed slot = False"
| "claim_after (VanillaClaim t) slot = (slot < t)"
| "claim_after (BlockClaim t) slot = (slot < t)"

definition spec_vanilla :: "claim \<Rightarrow> u64 \<Rightarrow> bool \<Rightarrow> claim \<times> bool option" where
  "spec_vanilla c slot delegation =
     (if c = VanillaClaim slot then (c, Some True)
      else if c = BlockClaim slot then (c, Some False)
      else if delegation then (c, None)
      else if claim_before c slot then (VanillaClaim slot, Some True)
      else (c, Some False))"

definition spec_block :: "claim \<Rightarrow> u64 \<Rightarrow> bool \<Rightarrow> claim \<times> bool option" where
  "spec_block c slot delegation =
     (if \<not> delegation then (c, None)
      else if claim_before c slot then (BlockClaim slot, Some True)
      else (c, Some False))"

definition spec_finished :: "claim \<Rightarrow> u64 \<Rightarrow> claim \<times> bool" where
  "spec_finished c slot = (if c = BlockClaim slot then (VanillaClaim slot, True) else (c, False))"

text \<open>A failed block gives its slot back: the last claimed slot is the one before.\<close>

fun claim_of_previous :: "u64 \<Rightarrow> claim" where
  "claim_of_previous slot = (if slot = 0 then Unclaimed else VanillaClaim (slot - 1))"

definition spec_failed :: "claim \<Rightarrow> u64 \<Rightarrow> claim \<times> bool option" where
  "spec_failed c slot =
     (if c = BlockClaim slot then (claim_of_previous slot, Some True) else (c, Some False))"

lemma decode_eq_iff:
  "decode v = Unclaimed \<longleftrightarrow> v = SENTINEL"
  "decode v = BlockClaim slot \<longleftrightarrow> v \<noteq> SENTINEL \<and> is_block_claim v \<and> get_slot v = slot"
  "decode v = VanillaClaim slot \<longleftrightarrow> v \<noteq> SENTINEL \<and> \<not> is_block_claim v \<and> get_slot v = slot"
  by (auto simp: decode_def)

lemma claim_before_decode: "claim_before (decode v) slot \<longleftrightarrow> v = SENTINEL \<or> get_slot v < slot"
  by (simp add: decode_def)

lemma claim_update_decode:
  "fetch_update (claim_update new slot) v =
     (if claim_before (decode v) slot then (new, True) else (v, False))"
  by (auto simp: fetch_update_def claim_update_def claim_before_decode)

lemma vanilla_check_decode:
  "vanilla_check v slot =
     (if decode v = VanillaClaim slot then Some True
      else if decode v = BlockClaim slot then Some False else None)"
  by (auto simp: vanilla_check_def decode_eq_iff)

lemma is_block_executing_decode: "is_block_executing v slot \<longleftrightarrow> decode v = BlockClaim slot"
  by (auto simp: is_block_executing_def decode_eq_iff)

lemma valid_slot_pred:
  assumes "valid_slot slot"
  shows "vanilla_claim (slot - 1) = vanilla_claim (if slot = 0 then SLOT_MASK else slot - 1)"
    "(if slot = 0 then SLOT_MASK else slot - 1) < 2 ^ 63"
proof -
  show "vanilla_claim (slot - 1) = vanilla_claim (if slot = 0 then SLOT_MASK else slot - 1)"
    by (simp add: vanilla_claim_def)
  show "(if slot = 0 then SLOT_MASK else slot - 1) < 2 ^ 63"
    using slot_mask_less valid_slot_less [OF assms] less_trans [of "slot - 1" slot "2 ^ 63"]
    by (cases "slot = 0") (simp_all add: word_gt_0 measure_unat word_less_nat_alt)
qed

lemma vanilla_refines:
  assumes "valid_slot slot"
  shows "(decode (fst (vanilla_should_schedule v slot d)), snd (vanilla_should_schedule v slot d)) =
    spec_vanilla (decode v) slot d"
  using decode_vanilla [OF valid_slot_less [OF assms]]
  by (auto simp: vanilla_should_schedule_def spec_vanilla_def vanilla_check_decode claim_update_decode)

lemma block_refines:
  assumes "valid_slot slot"
  shows "(decode (fst (block_should_schedule v slot d)), snd (block_should_schedule v slot d)) =
    spec_block (decode v) slot d"
  using decode_block [OF assms]
  by (auto simp: block_should_schedule_def spec_block_def claim_update_decode)

lemma finished_refines:
  assumes "valid_slot slot"
  shows "(decode (fst (block_execution_finished v slot)), snd (block_execution_finished v slot)) =
    spec_finished (decode v) slot"
  using decode_vanilla [OF valid_slot_less [OF assms]]
  by (auto simp: block_execution_finished_def spec_finished_def fetch_update_def decode_eq_iff)

lemma failed_decode:
  assumes "valid_slot slot"
  shows "(decode (fst (block_failed v slot)), snd (block_failed v slot)) =
    (if decode v = BlockClaim slot then (VanillaClaim (if slot = 0 then SLOT_MASK else slot - 1), Some True)
     else (decode v, Some False))"
  using decode_vanilla [OF valid_slot_pred(2) [OF assms]]
  by (auto simp: block_failed_def fetch_update_def decode_eq_iff valid_slot_pred(1) [OF assms])

lemma failed_refines:
  assumes "valid_slot slot" "slot \<noteq> 0"
  shows "(decode (fst (block_failed v slot)), snd (block_failed v slot)) = spec_failed (decode v) slot"
  using failed_decode [OF assms(1), of v] assms(2) by (simp add: spec_failed_def)

section \<open>The protocol of the threads\<close>

text \<open>
  The block stage (one thread, \<open>process_loop\<close> of core/src/block_stage/mod.rs): it claims a
  slot, waits until no vote batch is in flight, executes the block and releases the claim.
  The vote worker (one thread, \<open>process_packets\<close> of vote_worker.rs): it announces a batch,
  looks at the claim and processes or withdraws; its stores to the flag reach the memory in
  order, at some later step. With \<open>ordered\<close> it looks at the claim only after the announcement
  reached the memory. The vanilla threads (any number, numbered):
  \<open>vanilla_should_schedule\<close>, one step per access to the atomic.
\<close>

datatype block_pc = BIdle | BClaimed u64 | BRunning u64
datatype vote_pc = WIdle | WAnnounced u64 | WRefused | WProcessing u64
datatype vanilla_pc = VIdle | VUnclaimed u64 | VFailed u64 | VConsuming u64

record sched =
  scheduler_state :: u64
  vote_processing :: bool
  vote_buffer :: "bool list" \<comment> \<open>stores to the flag that are not visible yet, oldest first\<close>
  block_thread :: block_pc
  vote_thread :: vote_pc
  vanilla_thread :: "nat \<Rightarrow> vanilla_pc"

definition sched_init :: sched where
  "sched_init = \<lparr>scheduler_state = SENTINEL, vote_processing = False, vote_buffer = [],
     block_thread = BIdle,
     vote_thread = WIdle, vanilla_thread = \<lambda>i. VIdle\<rparr>"

inductive sched_step :: "bool \<Rightarrow> sched \<Rightarrow> sched \<Rightarrow> bool" for ordered where
  block_claims: "block_thread g = BIdle \<Longrightarrow> valid_slot slot \<Longrightarrow>
     block_should_schedule (scheduler_state g) slot d = (state', Some True) \<Longrightarrow>
     sched_step ordered g (g\<lparr>scheduler_state := state', block_thread := BClaimed slot\<rparr>)"
| block_refused: "block_thread g = BIdle \<Longrightarrow> valid_slot slot \<Longrightarrow>
     block_should_schedule (scheduler_state g) slot d = (state', r) \<Longrightarrow> r \<noteq> Some True \<Longrightarrow>
     sched_step ordered g (g\<lparr>scheduler_state := state'\<rparr>)"
| block_waited: "block_thread g = BClaimed slot \<Longrightarrow> \<not> vote_processing g \<Longrightarrow>
     sched_step ordered g (g\<lparr>block_thread := BRunning slot\<rparr>)"
| block_finishes: "block_thread g = BRunning slot \<Longrightarrow>
     sched_step ordered g (g\<lparr>scheduler_state := fst (block_execution_finished (scheduler_state g) slot),
       block_thread := BIdle\<rparr>)"
| block_fails: "block_thread g = BRunning slot \<Longrightarrow>
     sched_step ordered g (g\<lparr>scheduler_state := fst (block_failed (scheduler_state g) slot),
       block_thread := BIdle\<rparr>)"
| vote_announces: "vote_thread g = WIdle \<Longrightarrow>
     sched_step ordered g (g\<lparr>vote_buffer := vote_buffer g @ [True], vote_thread := WAnnounced slot\<rparr>)"
| vote_visible: "vote_buffer g = flag # later \<Longrightarrow>
     sched_step ordered g (g\<lparr>vote_processing := flag, vote_buffer := later\<rparr>)"
| vote_starts: "vote_thread g = WAnnounced slot \<Longrightarrow> (ordered \<longrightarrow> vote_buffer g = []) \<Longrightarrow>
     \<not> is_block_executing (scheduler_state g) slot \<Longrightarrow>
     sched_step ordered g (g\<lparr>vote_thread := WProcessing slot\<rparr>)"
| vote_refused: "vote_thread g = WAnnounced slot \<Longrightarrow> (ordered \<longrightarrow> vote_buffer g = []) \<Longrightarrow>
     is_block_executing (scheduler_state g) slot \<Longrightarrow>
     sched_step ordered g (g\<lparr>vote_thread := WRefused\<rparr>)"
| vote_withdraws: "vote_thread g = WRefused \<Longrightarrow>
     sched_step ordered g (g\<lparr>vote_buffer := vote_buffer g @ [False], vote_thread := WIdle\<rparr>)"
| vote_ends: "vote_thread g = WProcessing slot \<Longrightarrow>
     sched_step ordered g (g\<lparr>vote_buffer := vote_buffer g @ [False], vote_thread := WIdle\<rparr>)"
| vanilla_loads: "vanilla_thread g i = VIdle \<Longrightarrow> valid_slot slot \<Longrightarrow>
     pc = (case vanilla_check (scheduler_state g) slot of
             Some yes \<Rightarrow> if yes then VConsuming slot else VIdle
           | None \<Rightarrow> if d then VIdle else VUnclaimed slot) \<Longrightarrow>
     sched_step ordered g (g\<lparr>vanilla_thread := (vanilla_thread g)(i := pc)\<rparr>)"
| vanilla_updates: "vanilla_thread g i = VUnclaimed slot \<Longrightarrow>
     fetch_update (claim_update (vanilla_claim slot) slot) (scheduler_state g) = (state', claimed) \<Longrightarrow>
     sched_step ordered g (g\<lparr>scheduler_state := state',
       vanilla_thread := (vanilla_thread g)(i := if claimed then VConsuming slot else VFailed slot)\<rparr>)"
| vanilla_rechecks: "vanilla_thread g i = VFailed slot \<Longrightarrow>
     pc = (if vanilla_check (scheduler_state g) slot = Some True then VConsuming slot else VIdle) \<Longrightarrow>
     sched_step ordered g (g\<lparr>vanilla_thread := (vanilla_thread g)(i := pc)\<rparr>)"
| vanilla_done: "vanilla_thread g i = VConsuming slot \<Longrightarrow>
     sched_step ordered g (g\<lparr>vanilla_thread := (vanilla_thread g)(i := VIdle)\<rparr>)"

definition sched_reachable :: "bool \<Rightarrow> sched \<Rightarrow> bool" where
  "sched_reachable ordered g \<longleftrightarrow> (sched_step ordered)\<^sup>*\<^sup>* sched_init g"

definition block_holds :: "sched \<Rightarrow> u64 \<Rightarrow> bool" where
  "block_holds g slot \<longleftrightarrow> block_thread g = BClaimed slot \<or> block_thread g = BRunning slot"

text \<open>
  The invariant, on the decoded claim: the slot of the block stage is the claimed one or an
  earlier one; so are those of the consuming vanilla threads, which the block stage never
  holds; and the last store to the flag is that of the announcement until the batch ends.
  With \<open>ordered\<close> that store is visible while the batch is processed.
\<close>

definition flag_inv :: "bool \<Rightarrow> bool \<Rightarrow> bool list \<Rightarrow> vote_pc \<Rightarrow> bool" where
  "flag_inv ordered flag buffer pc \<longleftrightarrow>
     (last (flag # buffer) \<longleftrightarrow> pc \<noteq> WIdle) \<and> (\<forall>slot. ordered \<and> pc = WProcessing slot \<longrightarrow> buffer = [])"

definition sched_inv :: "bool \<Rightarrow> sched \<Rightarrow> bool" where
  "sched_inv ordered g \<longleftrightarrow>
     (\<forall>slot. block_holds g slot \<longrightarrow> valid_slot slot \<and>
        (decode (scheduler_state g) = BlockClaim slot \<or> claim_after (decode (scheduler_state g)) slot)) \<and>
     (\<forall>i slot. vanilla_thread g i = VConsuming slot \<longrightarrow> \<not> block_holds g slot \<and>
        (decode (scheduler_state g) = VanillaClaim slot \<or> claim_after (decode (scheduler_state g)) slot)) \<and>
     (\<forall>i slot. vanilla_thread g i = VUnclaimed slot \<or> vanilla_thread g i = VFailed slot \<longrightarrow> valid_slot slot) \<and>
     flag_inv ordered (vote_processing g) (vote_buffer g) (vote_thread g) \<and>
     (\<forall>slot. ordered \<and> block_thread g = BRunning slot \<and> vote_thread g = WProcessing slot \<longrightarrow>
        claim_after (decode (scheduler_state g)) slot)"

lemma claim_after_before: "claim_before c slot \<Longrightarrow> \<not> claim_after c slot"
  by (cases c) auto

lemma sched_inv_init: "sched_inv ordered sched_init"
  by (simp add: sched_inv_def sched_init_def block_holds_def flag_inv_def)

lemma claim_after_pred:
  "t \<noteq> 0 \<Longrightarrow> slot < t \<Longrightarrow> slot \<noteq> t - 1 \<Longrightarrow> slot < t - (1 :: u64)"
  by (auto simp: word_less_nat_alt word_unat_eq_iff unat_minus_one)

lemma block_claims_inv:
  assumes "sched_inv ordered g" "block_thread g = BIdle" "valid_slot slot"
    "block_should_schedule (scheduler_state g) slot d = (state', Some True)"
  shows "sched_inv ordered (g\<lparr>scheduler_state := state', block_thread := BClaimed slot\<rparr>)"
proof -
  have c: "decode state' = BlockClaim slot" "claim_before (decode (scheduler_state g)) slot"
    using block_refines [OF assms(3), of "scheduler_state g" d] assms(4)
    by (auto simp: spec_block_def split: if_splits)
  have mono: "claim_after (BlockClaim slot) s" if "decode (scheduler_state g) = VanillaClaim s \<or>
      claim_after (decode (scheduler_state g)) s" for s
    using c(2) that by (cases "decode (scheduler_state g)") auto
  show ?thesis
    using assms mono unfolding sched_inv_def by (auto simp: block_holds_def c)
qed

lemma block_fails_inv:
  assumes "sched_inv ordered g" "block_thread g = BRunning slot"
  shows "sched_inv ordered (g\<lparr>scheduler_state := fst (block_failed (scheduler_state g) slot), block_thread := BIdle\<rparr>)"
proof -
  have v: "valid_slot slot" "block_holds g slot"
    using assms by (auto simp: sched_inv_def block_holds_def)
  let ?c = "if decode (scheduler_state g) = BlockClaim slot
    then VanillaClaim (if slot = 0 then SLOT_MASK else slot - 1) else decode (scheduler_state g)"
  have c: "decode (fst (block_failed (scheduler_state g) slot)) = ?c"
    using arg_cong [OF failed_decode [OF v(1), of "scheduler_state g"], of fst]
    by (simp only: fst_conv if_distrib [of fst])
  have "?c = VanillaClaim s \<or> claim_after ?c s"
    if "vanilla_thread g i = VConsuming s" for i s
  proof -
    have "s \<noteq> slot" "decode (scheduler_state g) = VanillaClaim s \<or> claim_after (decode (scheduler_state g)) s"
      using assms(1) v(2) that unfolding sched_inv_def by blast+
    then show ?thesis
      using claim_after_pred [of slot s] by (cases "s = slot - 1") auto
  qed
  then show ?thesis
    using assms unfolding sched_inv_def by (auto simp: block_holds_def c)
qed

lemma block_finishes_inv:
  assumes "sched_inv ordered g" "block_thread g = BRunning slot"
  shows "sched_inv ordered (g\<lparr>scheduler_state := fst (block_execution_finished (scheduler_state g) slot),
    block_thread := BIdle\<rparr>)"
proof -
  have v: "valid_slot slot"
    using assms by (auto simp: sched_inv_def block_holds_def)
  have c: "decode (fst (block_execution_finished (scheduler_state g) slot)) =
      fst (spec_finished (decode (scheduler_state g)) slot)"
    using finished_refines [OF v, of "scheduler_state g"] by (metis fst_conv)
  show ?thesis
    using assms unfolding sched_inv_def by (auto simp: block_holds_def c spec_finished_def)
qed

lemma vanilla_updates_inv:
  assumes "sched_inv ordered g" "vanilla_thread g i = VUnclaimed slot"
    "fetch_update (claim_update (vanilla_claim slot) slot) (scheduler_state g) = (state', claimed)"
  shows "sched_inv ordered (g\<lparr>scheduler_state := state',
    vanilla_thread := (vanilla_thread g)(i := if claimed then VConsuming slot else VFailed slot)\<rparr>)"
proof (cases "claim_before (decode (scheduler_state g)) slot")
  case True
  have "valid_slot slot" using assms(1,2) by (auto simp: sched_inv_def)
  then have st: "decode state' = VanillaClaim slot" "claimed"
    using assms(3) True decode_vanilla [OF valid_slot_less] by (auto simp: claim_update_decode)
  have mono: "s < slot" if "decode (scheduler_state g) = VanillaClaim s \<or>
      decode (scheduler_state g) = BlockClaim s \<or> claim_after (decode (scheduler_state g)) s" for s
    using True that by (cases "decode (scheduler_state g)") auto
  then have "\<not> block_holds g slot"
    using assms(1) unfolding sched_inv_def by (metis less_irrefl)
  then show ?thesis
    using assms(1) mono st unfolding sched_inv_def by (auto simp: block_holds_def)
next
  case False
  then show ?thesis
    using assms unfolding sched_inv_def by (auto simp: block_holds_def claim_update_decode)
qed

lemma sched_step_inv: "sched_step ordered g g' \<Longrightarrow> sched_inv ordered g \<Longrightarrow> sched_inv ordered g'"
proof (induction rule: sched_step.induct)
  case (block_refused g slot d state' r)
  then have "state' = scheduler_state g"
    by (auto simp: block_should_schedule_def claim_update_decode split: if_splits)
  then show ?case using block_refused by simp
next
  case (block_waited g slot)
  then show ?case by (auto simp: sched_inv_def block_holds_def flag_inv_def)
next
  case (vote_starts g slot)
  then have "flag_inv ordered (vote_processing g) (vote_buffer g) (WProcessing slot)"
    by (auto simp: sched_inv_def flag_inv_def)
  then show ?case
    using vote_starts by (auto simp: sched_inv_def block_holds_def is_block_executing_decode)
next
  case (vote_visible g flag later)
  then have "flag_inv ordered flag later (vote_thread g)"
    by (auto simp: sched_inv_def flag_inv_def)
  then show ?case using vote_visible by (auto simp: sched_inv_def block_holds_def)
next
  case (vanilla_loads g i slot pc d)
  then show ?case
    by (auto simp: sched_inv_def block_holds_def vanilla_check_decode split: if_splits)
next
  case (vanilla_rechecks g i slot pc)
  then show ?case
    by (auto simp: sched_inv_def block_holds_def vanilla_check_decode split: if_splits)
next
  case (block_claims g slot d state')
  then show ?case by (blast intro: block_claims_inv)
next
  case (vanilla_updates g i slot state' claimed)
  then show ?case by (blast intro: vanilla_updates_inv)
qed (blast intro: block_finishes_inv block_fails_inv | auto simp: sched_inv_def block_holds_def flag_inv_def)+

lemma sched_reachable_inv: "sched_reachable ordered g \<Longrightarrow> sched_inv ordered g"
  unfolding sched_reachable_def
  by (induction rule: rtranclp_induct) (auto intro: sched_inv_init sched_step_inv)

section \<open>Properties\<close>

text \<open>
  C4. The vanilla scheduler and the block stage never build the same slot at once: in every
  interleaving of the block stage, the vote worker and any number of vanilla threads, no
  vanilla thread that was told to consume a slot is still consuming it while the block stage
  has the slot claimed or is executing its block.
\<close>

theorem vanilla_block_exclusion:
  assumes "sched_reachable ordered g" "vanilla_thread g i = VConsuming slot"
  shows "\<not> block_holds g slot"
  using sched_reachable_inv [OF assms(1)] assms(2) unfolding sched_inv_def by blast

lemma sched_reachable_step: "sched_reachable ordered g \<Longrightarrow> sched_step ordered g g' \<Longrightarrow> sched_reachable ordered g'"
  unfolding sched_reachable_def by (rule rtranclp.rtrancl_into_rtrancl)

lemma sched_reachable_init: "sched_reachable ordered sched_init"
  by (simp add: sched_reachable_def)

lemmas sched_eval = sched_init_def block_should_schedule_def fetch_update_def claim_update_def
  SENTINEL_def get_slot_def SLOT_MASK_def BLOCK_CLAIMED_BIT_def block_claim_def vanilla_claim_def
  vanilla_check_def is_block_claim_def valid_slot_def

definition sample_vanilla_6 :: sched where
  "sample_vanilla_6 = sched_init\<lparr>scheduler_state := vanilla_claim 6, block_thread := BRunning 5,
     vanilla_thread := (\<lambda>i. VIdle)(0 := VConsuming 6)\<rparr>"

definition sample_block_5 :: sched where
  "sample_block_5 = sched_init\<lparr>scheduler_state := block_claim 5, block_thread := BRunning 5\<rparr>"

lemma sample_block_5_reachable: "sched_reachable ordered sample_block_5"
proof -
  have "sched_step ordered sched_init (sched_init\<lparr>scheduler_state := block_claim 5, block_thread := BClaimed 5\<rparr>)"
    by (rule sched_step.block_claims [where d = True]) (simp_all add: sched_eval)
  then have "sched_reachable ordered (sched_init\<lparr>scheduler_state := block_claim 5, block_thread := BClaimed 5\<rparr>)"
    by (rule sched_reachable_step [OF sched_reachable_init])
  moreover have "sched_step ordered (sched_init\<lparr>scheduler_state := block_claim 5, block_thread := BClaimed 5\<rparr>) sample_block_5"
    using sched_step.block_waited [of "sched_init\<lparr>scheduler_state := block_claim 5, block_thread := BClaimed 5\<rparr>" 5]
    by (simp add: sample_block_5_def sched_init_def)
  ultimately show ?thesis by (rule sched_reachable_step)
qed

lemma sample_vanilla_6_reachable: "sched_reachable ordered sample_vanilla_6"
proof -
  let ?g = "sample_block_5\<lparr>vanilla_thread := (vanilla_thread sample_block_5)(0 := VUnclaimed 6)\<rparr>"
  have "sched_step ordered sample_block_5 ?g"
    by (rule sched_step.vanilla_loads [where slot = 6 and d = False])
      (simp_all add: sample_block_5_def sched_eval)
  then have "sched_reachable ordered ?g" by (rule sched_reachable_step [OF sample_block_5_reachable])
  moreover have "sched_step ordered ?g sample_vanilla_6"
    using sched_step.vanilla_updates [of ?g 0 6 "vanilla_claim 6" True]
    by (simp add: sample_block_5_def sample_vanilla_6_def sched_eval)
  ultimately show ?thesis by (rule sched_reachable_step)
qed

text \<open>
  The vote worker announces a batch and reads the claim before the announcement is visible;
  the block stage claims the slot and finds the flag down.
\<close>

definition sample_overlap :: "u64 \<Rightarrow> sched" where
  "sample_overlap slot = sched_init\<lparr>scheduler_state := block_claim slot, vote_buffer := [True],
     block_thread := BRunning slot, vote_thread := WProcessing slot\<rparr>"

lemma sample_overlap_reachable:
  assumes "valid_slot slot"
  shows "sched_reachable False (sample_overlap slot)"
proof -
  let ?g1 = "sched_init\<lparr>vote_buffer := [True], vote_thread := WAnnounced slot\<rparr>"
  let ?g2 = "?g1\<lparr>vote_thread := WProcessing slot\<rparr>"
  let ?g3 = "?g2\<lparr>scheduler_state := block_claim slot, block_thread := BClaimed slot\<rparr>"
  have "sched_step False sched_init ?g1"
    using sched_step.vote_announces [of sched_init False slot] by (simp add: sched_init_def)
  moreover have "sched_step False ?g1 ?g2"
    by (rule sched_step.vote_starts) (simp_all add: sched_init_def is_block_executing_def)
  moreover have "sched_step False ?g2 ?g3"
    using assms by (intro sched_step.block_claims [where d = True])
      (simp_all add: sched_init_def block_should_schedule_def claim_update_decode)
  moreover have "sched_step False ?g3 (sample_overlap slot)"
    using sched_step.block_waited [of ?g3 slot False] by (simp add: sample_overlap_def sched_init_def)
  ultimately show ?thesis using sched_reachable_step sched_reachable_init by blast
qed

theorem vanilla_block_exclusion_witness:
  "sched_reachable False sample_vanilla_6 \<and> vanilla_thread sample_vanilla_6 0 = VConsuming 6 \<and>
   \<not> block_holds sample_vanilla_6 6"
  using vanilla_block_exclusion [OF sample_vanilla_6_reachable, of 0 6] sample_vanilla_6_reachable
  by (simp add: sample_vanilla_6_def)

text \<open>
  C21. Votes and the block of a slot are processed one at a time exactly when the announcement
  of the vote worker is visible before it reads the claim. If it is (\<open>ordered\<close>, a \<open>SeqCst\<close>
  store with a full barrier), then while the block stage executes the block of a slot and no
  later slot has been claimed, the vote worker is not in a batch of that slot, whatever the
  interleaving. The \<open>Acquire\<close> load of the claim in the code does not ask for this order, and
  without it both run: on every slot there is an execution in which the block stage executes
  the block of a slot it has claimed while the vote worker is in a batch of that slot.
\<close>

theorem vote_block_exclusion:
  assumes "valid_slot slot"
  shows "(\<forall>g. sched_reachable True g \<longrightarrow> block_thread g = BRunning slot \<longrightarrow>
      get_slot (scheduler_state g) \<le> slot \<longrightarrow> vote_thread g \<noteq> WProcessing slot) \<and>
    (\<exists>g. sched_reachable False g \<and> block_thread g = BRunning slot \<and>
      scheduler_state g = block_claim slot \<and> vote_thread g = WProcessing slot)"
proof (intro conjI allI impI notI)
  fix g assume g: "sched_reachable True g" "block_thread g = BRunning slot"
    "get_slot (scheduler_state g) \<le> slot" "vote_thread g = WProcessing slot"
  then have "claim_after (decode (scheduler_state g)) slot"
    using sched_reachable_inv [OF g(1)] unfolding sched_inv_def by blast
  then show False using g(3) by (auto simp: decode_def split: if_splits)
next
  show "\<exists>g. sched_reachable False g \<and> block_thread g = BRunning slot \<and>
      scheduler_state g = block_claim slot \<and> vote_thread g = WProcessing slot"
    using sample_overlap_reachable [OF assms] by (intro exI [of _ "sample_overlap slot"]) (simp add: sample_overlap_def)
qed

theorem vote_block_exclusion_witness:
  "valid_slot 5 \<and> sched_reachable True sample_block_5 \<and> block_thread sample_block_5 = BRunning 5 \<and>
   vote_thread sample_block_5 \<noteq> WProcessing 5 \<and>
   (\<exists>g. sched_reachable False g \<and> block_thread g = BRunning 5 \<and> vote_thread g = WProcessing 5)"
proof -
  have v: "valid_slot 5" by (simp add: sched_eval)
  have "block_thread sample_block_5 = BRunning 5" "get_slot (scheduler_state sample_block_5) \<le> 5"
    by (simp_all add: sample_block_5_def sched_eval)
  then show ?thesis
    using vote_block_exclusion [OF v] sample_block_5_reachable [of True] v by blast
qed

text \<open>
  C22. The encoding in one u64 loses nothing: on the slots that fit, the operations on the
  encoded value do what their specification on claims says, the result included, and the
  claim determines the encoded value. The one exception is \<open>block_failed\<close> on slot 0: there the
  code leaves a claim of the largest slot instead of giving the slot back.
\<close>

theorem operations_refine_claims:
  assumes "valid_slot slot"
  shows "map_prod decode id (vanilla_should_schedule v slot d) = spec_vanilla (decode v) slot d \<and>
    map_prod decode id (block_should_schedule v slot d) = spec_block (decode v) slot d \<and>
    map_prod decode id (block_execution_finished v slot) = spec_finished (decode v) slot \<and>
    (slot \<noteq> 0 \<longrightarrow> map_prod decode id (block_failed v slot) = spec_failed (decode v) slot) \<and>
    (slot = 0 \<and> decode v = BlockClaim slot \<longrightarrow>
      map_prod decode id (block_failed v slot) = (VanillaClaim SLOT_MASK, Some True)) \<and>
    (is_block_executing v slot \<longleftrightarrow> decode v = BlockClaim slot) \<and> inj decode"
proof (intro conjI impI)
  show "slot \<noteq> 0 \<Longrightarrow> map_prod decode id (block_failed v slot) = spec_failed (decode v) slot"
    using failed_refines [OF assms, of v] by (simp add: map_prod_def split_beta)
  show "slot = 0 \<and> decode v = BlockClaim slot \<Longrightarrow>
      map_prod decode id (block_failed v slot) = (VanillaClaim SLOT_MASK, Some True)"
    using failed_decode [OF assms, of v] by (simp add: map_prod_def split_beta)
qed (use vanilla_refines [OF assms, of v d] block_refines [OF assms, of v d] finished_refines [OF assms, of v]
    is_block_executing_decode decode_inject in \<open>simp_all add: map_prod_def split_beta inj_def\<close>)

theorem operations_refine_claims_witness:
  "valid_slot 7 \<and> map_prod decode id (vanilla_should_schedule (block_claim 6) 7 False) =
     (VanillaClaim 7, Some True)"
proof -
  have v: "valid_slot 7" "valid_slot 6" by (simp_all add: sched_eval)
  then have "spec_vanilla (decode (block_claim 6)) 7 False = (VanillaClaim 7, Some True)"
    using decode_block [of 6] by (simp add: spec_vanilla_def)
  then show ?thesis using operations_refine_claims [OF v(1), of "block_claim 6" False] v by simp
qed

text \<open>
  A block that fails does not cost the slot: after \<open>block_failed\<close> on a slot other than 0
  that the block stage holds, the vanilla scheduler claims that slot at its next call, even
  though the slot had been claimed.
\<close>

lemma block_failed_frees_slot:
  assumes "valid_slot slot" "slot \<noteq> 0" "decode v = BlockClaim slot"
  shows "snd (block_failed v slot) = Some True \<and>
    vanilla_should_schedule (fst (block_failed v slot)) slot False = (vanilla_claim slot, Some True)"
proof -
  have f: "decode (fst (block_failed v slot)) = VanillaClaim (slot - 1)" "snd (block_failed v slot) = Some True"
    using failed_refines [OF assms(1,2), of v] assms(2,3) by (simp_all add: spec_failed_def)
  have "slot - 1 < slot" "slot - 1 \<noteq> slot" using assms(2) by (simp_all add: measure_unat word_less_nat_alt)
  then show ?thesis
    using f by (simp add: vanilla_should_schedule_def vanilla_check_decode claim_update_decode)
qed

theorem block_failed_frees_slot_witness:
  "vanilla_should_schedule (fst (block_failed (block_claim 9) 9)) 9 False = (vanilla_claim 9, Some True)"
proof -
  have "valid_slot 9" by (simp add: sched_eval)
  then show ?thesis using block_failed_frees_slot [of 9 "block_claim 9"] decode_block [of 9] by simp
qed

text \<open>
  On slot 0 the subtraction wraps to the largest slot, after which nobody can claim any slot;
  and a block that finished leaves a vanilla claim, so the vanilla scheduler consumes in a
  slot that a whole block was scheduled for.
\<close>

lemma block_failed_slot_zero:
  assumes "valid_slot slot"
  shows "snd (vanilla_should_schedule (fst (block_failed (block_claim 0) 0)) slot d) \<noteq> Some True \<and>
    snd (block_should_schedule (fst (block_failed (block_claim 0) 0)) slot d) \<noteq> Some True"
proof -
  have zero: "valid_slot 0" by (simp add: valid_slot_def slot_mask_eq mask_eq_exp_minus_1)
  have "decode (fst (block_failed (block_claim 0) 0)) = VanillaClaim SLOT_MASK"
    using failed_decode [OF zero, of "block_claim 0"] by (simp add: decode_block [OF zero])
  moreover have late: "SLOT_MASK \<noteq> slot" "\<not> SLOT_MASK < slot"
    using assms unfolding valid_slot_def by (auto dest: order.asym)
  ultimately show ?thesis
    using vanilla_refines [OF assms, of "fst (block_failed (block_claim 0) 0)" d]
      block_refines [OF assms, of "fst (block_failed (block_claim 0) 0)" d] late
    by (simp add: spec_vanilla_def spec_block_def split: if_splits)
qed

lemma vanilla_consumes_after_block:
  assumes "valid_slot slot" "decode v = BlockClaim slot"
  shows "snd (vanilla_should_schedule (fst (block_execution_finished v slot)) slot d) = Some True"
proof -
  have "decode (fst (block_execution_finished v slot)) = VanillaClaim slot"
    using finished_refines [OF assms(1), of v] assms(2) by (simp add: spec_finished_def)
  then show ?thesis
    using vanilla_refines [OF assms(1), of "fst (block_execution_finished v slot)" d]
    by (simp add: spec_vanilla_def)
qed

end
