(* ===== verification/Slot_State.thy ===== *)
theory Slot_State
  imports Fork_Run
begin

text \<open>
  The state machine that keeps the local version of a slot in agreement with the cluster
  (core/src/repair/cluster_slot_state_verifier.rs), working on the fork choice of Fork_Choice and on
  the bank hash column of the blockstore (ledger/src/blockstore.rs).

  The column is a map from slots to the frozen hash and its duplicate confirmed flag; its reads and
  writes succeed, the store itself being RocksDB.  Messages to the ancestor hashes service are
  collected in a list.  \<open>None\<close> is a panic.
\<close>

section \<open>Data\<close>

datatype cluster_confirmed_hash = ClusterDuplicateConfirmed hash | ClusterEpochSlotsFrozen hash

datatype bank_status = BankFrozen hash | BankDead | BankUnprocessed

definition bank_status_from_hash :: "hash option \<Rightarrow> bank_status" where
  "bank_status_from_hash h =
     (case h of
        Some hash \<Rightarrow> if hash = 0 then BankUnprocessed else BankFrozen hash
      | None \<Rightarrow> BankUnprocessed)"

definition bank_status_new :: "bool \<Rightarrow> hash option \<Rightarrow> bank_status" where
  "bank_status_new is_dead get_hash = (if is_dead then BankDead else bank_status_from_hash get_hash)"

fun status_bank_hash :: "bank_status \<Rightarrow> hash option" where
  "status_bank_hash (BankFrozen hash) = Some hash"
| "status_bank_hash BankDead = None"
| "status_bank_hash BankUnprocessed = None"

fun status_is_dead :: "bank_status \<Rightarrow> bool" where
  "status_is_dead (BankFrozen _) = False"
| "status_is_dead BankDead = True"
| "status_is_dead BankUnprocessed = False"

fun status_can_be_further_replayed :: "bank_status \<Rightarrow> bool" where
  "status_can_be_further_replayed BankUnprocessed = True"
| "status_can_be_further_replayed BankDead = False"
| "status_can_be_further_replayed (BankFrozen _) = False"

record dead_state =
  ds_cluster_confirmed_hash :: "cluster_confirmed_hash option"
  ds_is_slot_duplicate :: bool

record bank_frozen_state =
  bfs_frozen_hash :: hash
  bfs_cluster_confirmed_hash :: "cluster_confirmed_hash option"
  bfs_is_slot_duplicate :: bool

record duplicate_confirmed_state =
  dcs_duplicate_confirmed_hash :: hash
  dcs_bank_status :: bank_status

record duplicate_state =
  dup_duplicate_confirmed_hash :: "hash option"
  dup_bank_status :: bank_status

record epoch_slots_frozen_state =
  esf_epoch_slots_frozen_hash :: hash
  esf_duplicate_confirmed_hash :: "hash option"
  esf_bank_status :: bank_status
  esf_is_popular_pruned :: bool

datatype slot_state_update =
    UpdateBankFrozen bank_frozen_state
  | UpdateDuplicateConfirmed duplicate_confirmed_state
  | UpdateDead dead_state
  | UpdateDuplicate duplicate_state
  | UpdateEpochSlotsFrozen epoch_slots_frozen_state
  | UpdatePopularPrunedFork

datatype ancestor_hashes_replay_update =
  ReplayDead slot | ReplayDeadDuplicateConfirmed slot | ReplayPopularPrunedFork slot

datatype resulting_state_change =
    ChangeBankFrozen hash
  | MarkSlotDuplicate hash
  | RepairDuplicateConfirmedVersion hash
  | DuplicateConfirmedSlotMatchesCluster hash
  | SendAncestorHashesReplayUpdate ancestor_hashes_replay_update

section \<open>What the cluster confirmed\<close>

definition get_duplicate_confirmed_hash :: "hash option \<Rightarrow> hash option \<Rightarrow> bool \<Rightarrow> hash option option" where
  "get_duplicate_confirmed_hash duplicate_confirmed_hash bank_frozen_hash is_local_replay_duplicate_confirmed =
     do {
       local_duplicate_confirmed_hash \<leftarrow>
         (if is_local_replay_duplicate_confirmed then map_option Some bank_frozen_hash else Some None);
       Some (case (local_duplicate_confirmed_hash, duplicate_confirmed_hash) of
               (Some local_hash, Some _) \<Rightarrow> Some local_hash
             | (Some local_hash, None) \<Rightarrow> Some local_hash
             | (None, _) \<Rightarrow> duplicate_confirmed_hash)
     }"

definition local_replay_confirmed :: "fork_choice \<Rightarrow> slot \<Rightarrow> hash option \<Rightarrow> bool" where
  "local_replay_confirmed fc slot bank_frozen_hash =
     (case bank_frozen_hash of
        Some h \<Rightarrow> (case is_duplicate_confirmed fc (Key slot h) of Some b \<Rightarrow> b | None \<Rightarrow> False)
      | None \<Rightarrow> False)"

definition get_duplicate_confirmed_hash_from_state ::
  "slot \<Rightarrow> (slot \<rightharpoonup> hash) \<Rightarrow> fork_choice \<Rightarrow> hash option \<Rightarrow> hash option option" where
  "get_duplicate_confirmed_hash_from_state slot duplicate_confirmed_slots fc bank_frozen_hash =
     get_duplicate_confirmed_hash (duplicate_confirmed_slots slot) bank_frozen_hash
       (local_replay_confirmed fc slot bank_frozen_hash)"

definition get_cluster_confirmed_hash_from_state ::
  "slot \<Rightarrow> (slot \<rightharpoonup> hash) \<Rightarrow> (slot \<rightharpoonup> hash) \<Rightarrow> fork_choice \<Rightarrow> hash option \<Rightarrow> cluster_confirmed_hash option option" where
  "get_cluster_confirmed_hash_from_state slot duplicate_confirmed_slots epoch_slots_frozen_slots fc bank_frozen_hash =
     do {
       h \<leftarrow> get_duplicate_confirmed_hash (duplicate_confirmed_slots slot) bank_frozen_hash
              (local_replay_confirmed fc slot bank_frozen_hash);
       Some (case h of
               Some hash \<Rightarrow> Some (ClusterDuplicateConfirmed hash)
             | None \<Rightarrow> map_option ClusterEpochSlotsFrozen (epoch_slots_frozen_slots slot))
     }"

section \<open>Building an update from the state\<close>

definition dead_state_new_from_state ::
  "slot \<Rightarrow> slot set \<Rightarrow> (slot \<rightharpoonup> hash) \<Rightarrow> fork_choice \<Rightarrow> (slot \<rightharpoonup> hash) \<Rightarrow> dead_state option" where
  "dead_state_new_from_state slot duplicate_slots_tracker duplicate_confirmed_slots fc epoch_slots_frozen_slots =
     do {
       h \<leftarrow> get_cluster_confirmed_hash_from_state slot duplicate_confirmed_slots epoch_slots_frozen_slots fc None;
       Some \<lparr>ds_cluster_confirmed_hash = h, ds_is_slot_duplicate = (slot \<in> duplicate_slots_tracker)\<rparr>
     }"

definition bank_frozen_state_new_from_state ::
  "slot \<Rightarrow> hash \<Rightarrow> slot set \<Rightarrow> (slot \<rightharpoonup> hash) \<Rightarrow> fork_choice \<Rightarrow> (slot \<rightharpoonup> hash) \<Rightarrow> bank_frozen_state option" where
  "bank_frozen_state_new_from_state slot frozen_hash duplicate_slots_tracker duplicate_confirmed_slots fc epoch_slots_frozen_slots =
     do {
       h \<leftarrow> get_cluster_confirmed_hash_from_state slot duplicate_confirmed_slots epoch_slots_frozen_slots fc (Some frozen_hash);
       if frozen_hash = 0 then None
       else Some \<lparr>bfs_frozen_hash = frozen_hash, bfs_cluster_confirmed_hash = h,
                  bfs_is_slot_duplicate = (slot \<in> duplicate_slots_tracker)\<rparr>
     }"

definition duplicate_confirmed_state_new_from_state :: "hash \<Rightarrow> bool \<Rightarrow> hash option \<Rightarrow> duplicate_confirmed_state" where
  "duplicate_confirmed_state_new_from_state duplicate_confirmed_hash is_dead get_hash =
     \<lparr>dcs_duplicate_confirmed_hash = duplicate_confirmed_hash, dcs_bank_status = bank_status_new is_dead get_hash\<rparr>"

definition duplicate_state_new_from_state ::
  "slot \<Rightarrow> (slot \<rightharpoonup> hash) \<Rightarrow> fork_choice \<Rightarrow> bool \<Rightarrow> hash option \<Rightarrow> duplicate_state option" where
  "duplicate_state_new_from_state slot duplicate_confirmed_slots fc is_dead get_hash =
     (let bank_status = bank_status_new is_dead get_hash in
      do {
        h \<leftarrow> get_duplicate_confirmed_hash_from_state slot duplicate_confirmed_slots fc (status_bank_hash bank_status);
        Some \<lparr>dup_duplicate_confirmed_hash = h, dup_bank_status = bank_status\<rparr>
      })"

definition epoch_slots_frozen_state_new_from_state ::
  "slot \<Rightarrow> hash \<Rightarrow> (slot \<rightharpoonup> hash) \<Rightarrow> fork_choice \<Rightarrow> bool \<Rightarrow> hash option \<Rightarrow> bool \<Rightarrow> epoch_slots_frozen_state option" where
  "epoch_slots_frozen_state_new_from_state slot epoch_slots_frozen_hash duplicate_confirmed_slots fc is_dead get_hash is_popular_pruned =
     (let bank_status = bank_status_new is_dead get_hash in
      do {
        h \<leftarrow> get_duplicate_confirmed_hash_from_state slot duplicate_confirmed_slots fc (status_bank_hash bank_status);
        Some \<lparr>esf_epoch_slots_frozen_hash = epoch_slots_frozen_hash, esf_duplicate_confirmed_hash = h,
              esf_bank_status = bank_status, esf_is_popular_pruned = is_popular_pruned\<rparr>
      })"

section \<open>From an update to the changes\<close>

text \<open>The functions that push to \<open>state_changes\<close> return what they push.\<close>

definition check_duplicate_confirmed_hash_against_bank_status :: "hash \<Rightarrow> bank_status \<Rightarrow> resulting_state_change list" where
  "check_duplicate_confirmed_hash_against_bank_status duplicate_confirmed_hash bank_status =
     (case bank_status of
        BankUnprocessed \<Rightarrow> []
      | BankDead \<Rightarrow> [RepairDuplicateConfirmedVersion duplicate_confirmed_hash]
      | BankFrozen bank_frozen_hash \<Rightarrow>
          if duplicate_confirmed_hash = bank_frozen_hash
          then [DuplicateConfirmedSlotMatchesCluster bank_frozen_hash]
          else [MarkSlotDuplicate bank_frozen_hash, RepairDuplicateConfirmedVersion duplicate_confirmed_hash])"

definition check_epoch_slots_hash_against_bank_status ::
  "hash \<Rightarrow> bank_status \<Rightarrow> bool \<Rightarrow> resulting_state_change list option" where
  "check_epoch_slots_hash_against_bank_status epoch_slots_frozen_hash bank_status is_popular_pruned =
     (let repair = RepairDuplicateConfirmedVersion epoch_slots_frozen_hash in
      case bank_status of
        BankFrozen bank_frozen_hash \<Rightarrow>
          if bank_frozen_hash = epoch_slots_frozen_hash then Some []
          else if \<not> is_popular_pruned then Some [MarkSlotDuplicate bank_frozen_hash, repair]
          else Some [repair]
      | BankDead \<Rightarrow> Some [repair]
      | BankUnprocessed \<Rightarrow> if is_popular_pruned then Some [repair] else None)"

definition on_dead_slot :: "slot \<Rightarrow> dead_state \<Rightarrow> resulting_state_change list option" where
  "on_dead_slot slot st =
     (case ds_cluster_confirmed_hash st of
        Some (ClusterDuplicateConfirmed h) \<Rightarrow>
          Some (SendAncestorHashesReplayUpdate (ReplayDeadDuplicateConfirmed slot) #
            check_duplicate_confirmed_hash_against_bank_status h BankDead)
      | Some (ClusterEpochSlotsFrozen h) \<Rightarrow> check_epoch_slots_hash_against_bank_status h BankDead False
      | None \<Rightarrow> Some [SendAncestorHashesReplayUpdate (ReplayDead slot)])"

definition on_frozen_slot :: "bank_frozen_state \<Rightarrow> resulting_state_change list option" where
  "on_frozen_slot st =
     (let frozen_hash = bfs_frozen_hash st in
      map_option (Cons (ChangeBankFrozen frozen_hash))
        (case bfs_cluster_confirmed_hash st of
           Some (ClusterDuplicateConfirmed h) \<Rightarrow>
             Some (check_duplicate_confirmed_hash_against_bank_status h (BankFrozen frozen_hash))
         | Some (ClusterEpochSlotsFrozen h) \<Rightarrow>
             check_epoch_slots_hash_against_bank_status h (BankFrozen frozen_hash) False
         | None \<Rightarrow> Some (if bfs_is_slot_duplicate st then [MarkSlotDuplicate frozen_hash] else [])))"

definition on_duplicate_confirmed :: "slot \<Rightarrow> duplicate_confirmed_state \<Rightarrow> resulting_state_change list" where
  "on_duplicate_confirmed slot st =
     (let bank_status = dcs_bank_status st in
      if bank_status = BankUnprocessed then []
      else
        (if status_is_dead bank_status
         then [SendAncestorHashesReplayUpdate (ReplayDeadDuplicateConfirmed slot)] else []) @
        check_duplicate_confirmed_hash_against_bank_status (dcs_duplicate_confirmed_hash st) bank_status)"

definition on_duplicate :: "duplicate_state \<Rightarrow> resulting_state_change list" where
  "on_duplicate st =
     (if dup_bank_status st = BankUnprocessed then []
      else
        (case dup_duplicate_confirmed_hash st of
           None \<Rightarrow>
             (case status_bank_hash (dup_bank_status st) of
                Some h \<Rightarrow> [MarkSlotDuplicate h]
              | None \<Rightarrow> [])
         | Some _ \<Rightarrow> []))"

definition on_epoch_slots_frozen :: "epoch_slots_frozen_state \<Rightarrow> resulting_state_change list option" where
  "on_epoch_slots_frozen st =
     (if \<not> esf_is_popular_pruned st \<and> esf_duplicate_confirmed_hash st \<noteq> None then Some []
      else if esf_bank_status st = BankUnprocessed \<and> \<not> esf_is_popular_pruned st then Some []
      else check_epoch_slots_hash_against_bank_status (esf_epoch_slots_frozen_hash st) (esf_bank_status st)
             (esf_is_popular_pruned st))"

definition on_popular_pruned_fork :: "slot \<Rightarrow> resulting_state_change list" where
  "on_popular_pruned_fork slot = [SendAncestorHashesReplayUpdate (ReplayPopularPrunedFork slot)]"

fun can_be_further_replayed :: "slot_state_update \<Rightarrow> bool" where
  "can_be_further_replayed (UpdateBankFrozen _) = False"
| "can_be_further_replayed (UpdateDuplicateConfirmed st) = status_can_be_further_replayed (dcs_bank_status st)"
| "can_be_further_replayed (UpdateDead _) = False"
| "can_be_further_replayed (UpdateDuplicate st) = status_can_be_further_replayed (dup_bank_status st)"
| "can_be_further_replayed (UpdateEpochSlotsFrozen st) =
     (status_can_be_further_replayed (esf_bank_status st) \<and> \<not> esf_is_popular_pruned st)"
| "can_be_further_replayed UpdatePopularPrunedFork = False"

definition into_state_changes :: "slot_state_update \<Rightarrow> slot \<Rightarrow> resulting_state_change list option" where
  "into_state_changes update slot =
     (if can_be_further_replayed update then Some []
      else
        (case update of
           UpdateDead st \<Rightarrow> on_dead_slot slot st
         | UpdateBankFrozen st \<Rightarrow> on_frozen_slot st
         | UpdateDuplicateConfirmed st \<Rightarrow> Some (on_duplicate_confirmed slot st)
         | UpdateDuplicate st \<Rightarrow> Some (on_duplicate st)
         | UpdateEpochSlotsFrozen st \<Rightarrow> on_epoch_slots_frozen st
         | UpdatePopularPrunedFork \<Rightarrow> Some (on_popular_pruned_fork slot)))"

section \<open>The bank hash column\<close>

type_synonym bank_hash_cf = "slot \<rightharpoonup> hash \<times> bool"

definition insert_bank_hash :: "bank_hash_cf \<Rightarrow> slot \<Rightarrow> hash \<Rightarrow> bool \<Rightarrow> bank_hash_cf" where
  "insert_bank_hash cf slot frozen_hash is_dup_confirmed =
     (if cf slot = Some (frozen_hash, True) then cf
      else cf(slot \<mapsto> (frozen_hash, is_dup_confirmed)))"

fun set_duplicate_confirmed_slots_and_hashes :: "bank_hash_cf \<Rightarrow> slot_hash_key list \<Rightarrow> bank_hash_cf" where
  "set_duplicate_confirmed_slots_and_hashes cf [] = cf"
| "set_duplicate_confirmed_slots_and_hashes cf (k # rest) =
     set_duplicate_confirmed_slots_and_hashes (cf(key_slot k \<mapsto> (key_hash k, True))) rest"

section \<open>Applying the changes\<close>

record cluster_state =
  cs_fork_choice :: fork_choice
  cs_duplicate_slots_tracker :: "slot set"
  cs_epoch_slots_frozen_slots :: "slot \<rightharpoonup> hash"
  cs_duplicate_slots_to_repair :: "slot \<rightharpoonup> hash"
  cs_purge_repair_slot_counter :: "slot \<rightharpoonup> nat"
  cs_bank_hashes :: bank_hash_cf
  cs_sent :: "ancestor_hashes_replay_update list"

text \<open>One change; the second component is \<open>not_duplicate_confirmed_frozen_hash\<close>.\<close>

definition apply_state_change ::
  "slot \<Rightarrow> resulting_state_change \<Rightarrow> cluster_state \<times> hash option \<Rightarrow> (cluster_state \<times> hash option) option" where
  "apply_state_change slot change st =
     (case st of (cs, not_confirmed) \<Rightarrow>
        (case change of
           ChangeBankFrozen h \<Rightarrow>
             do {
               confirmed \<leftarrow> is_duplicate_confirmed (cs_fork_choice cs) (Key slot h);
               Some (cs, if confirmed then not_confirmed else Some h)
             }
         | MarkSlotDuplicate h \<Rightarrow>
             do {
               fc \<leftarrow> mark_fork_invalid_candidate (cs_fork_choice cs) (Key slot h);
               Some (cs\<lparr>cs_fork_choice := fc\<rparr>, not_confirmed)
             }
         | RepairDuplicateConfirmedVersion h \<Rightarrow>
             Some (cs\<lparr>cs_duplicate_slots_to_repair := (cs_duplicate_slots_to_repair cs)(slot \<mapsto> h)\<rparr>, not_confirmed)
         | DuplicateConfirmedSlotMatchesCluster h \<Rightarrow>
             do {
               (fc, new_confirmed) \<leftarrow> mark_fork_valid_candidate (cs_fork_choice cs) (Key slot h);
               Some (cs\<lparr>cs_fork_choice := fc,
                        cs_bank_hashes := set_duplicate_confirmed_slots_and_hashes (cs_bank_hashes cs) new_confirmed,
                        cs_duplicate_slots_to_repair := (cs_duplicate_slots_to_repair cs)(slot := None),
                        cs_purge_repair_slot_counter := (cs_purge_repair_slot_counter cs)(slot := None)\<rparr>, None)
             }
         | SendAncestorHashesReplayUpdate u \<Rightarrow> Some (cs\<lparr>cs_sent := cs_sent cs @ [u]\<rparr>, not_confirmed)))"

fun apply_changes_loop ::
  "slot \<Rightarrow> resulting_state_change list \<Rightarrow> cluster_state \<times> hash option \<Rightarrow> (cluster_state \<times> hash option) option" where
  "apply_changes_loop slot [] st = Some st"
| "apply_changes_loop slot (change # rest) st =
     do { st \<leftarrow> apply_state_change slot change st; apply_changes_loop slot rest st }"

definition apply_state_changes :: "slot \<Rightarrow> cluster_state \<Rightarrow> resulting_state_change list \<Rightarrow> cluster_state option" where
  "apply_state_changes slot cs state_changes =
     do {
       (cs, not_confirmed) \<leftarrow> apply_changes_loop slot state_changes (cs, None);
       Some (case not_confirmed of
               Some frozen_hash \<Rightarrow> cs\<lparr>cs_bank_hashes := insert_bank_hash (cs_bank_hashes cs) slot frozen_hash False\<rparr>
             | None \<Rightarrow> cs)
     }"

text \<open>The early returns of \<open>check_slot_agrees_with_cluster\<close>, which it takes when the second component is false.\<close>

definition register_update :: "slot \<Rightarrow> cluster_state \<Rightarrow> slot_state_update \<Rightarrow> cluster_state \<times> bool" where
  "register_update slot cs update =
     (case update of
        UpdateDuplicate _ \<Rightarrow>
          (cs\<lparr>cs_duplicate_slots_tracker := insert slot (cs_duplicate_slots_tracker cs)\<rparr>,
           slot \<notin> cs_duplicate_slots_tracker cs)
      | UpdateDuplicateConfirmed st \<Rightarrow>
          (cs, case status_bank_hash (dcs_bank_status st) of
                 Some h \<Rightarrow> is_duplicate_confirmed (cs_fork_choice cs) (Key slot h) \<noteq> Some True
               | None \<Rightarrow> True)
      | UpdateEpochSlotsFrozen st \<Rightarrow>
          (cs\<lparr>cs_epoch_slots_frozen_slots := (cs_epoch_slots_frozen_slots cs)(slot \<mapsto> esf_epoch_slots_frozen_hash st)\<rparr>,
           cs_epoch_slots_frozen_slots cs slot \<noteq> Some (esf_epoch_slots_frozen_hash st))
      | _ \<Rightarrow> (cs, True))"

definition check_slot_agrees_with_cluster ::
  "slot \<Rightarrow> slot \<Rightarrow> cluster_state \<Rightarrow> slot_state_update \<Rightarrow> cluster_state option" where
  "check_slot_agrees_with_cluster slot root cs update =
     (if slot \<le> root then Some cs
      else
        (case register_update slot cs update of (cs, continue) \<Rightarrow>
           if \<not> continue then Some cs
           else do {
             state_changes \<leftarrow> into_state_changes update slot;
             apply_state_changes slot cs state_changes
           }))"

section \<open>Confirmed hashes\<close>

lemma get_duplicate_confirmed_hash_from_state_eq:
  "get_duplicate_confirmed_hash_from_state slot dcs fc h =
     Some (if local_replay_confirmed fc slot h then h else dcs slot)"
  by (cases h) (auto simp: get_duplicate_confirmed_hash_from_state_def get_duplicate_confirmed_hash_def
      local_replay_confirmed_def split: option.splits)

lemma get_cluster_confirmed_hash_from_state_eq:
  "get_cluster_confirmed_hash_from_state slot dcs esf fc h =
     Some (case (if local_replay_confirmed fc slot h then h else dcs slot) of
             Some hash \<Rightarrow> Some (ClusterDuplicateConfirmed hash)
           | None \<Rightarrow> map_option ClusterEpochSlotsFrozen (esf slot))"
  by (cases h) (auto simp: get_cluster_confirmed_hash_from_state_def get_duplicate_confirmed_hash_def
      local_replay_confirmed_def split: option.splits)

lemma local_replay_confirmed_Some [simp]:
  "local_replay_confirmed fc slot (Some h) \<longleftrightarrow> is_duplicate_confirmed fc (Key slot h) = Some True"
  by (auto simp: local_replay_confirmed_def split: option.splits)

lemma local_replay_confirmed_None [simp]: "\<not> local_replay_confirmed fc slot None"
  by (simp add: local_replay_confirmed_def)

lemma not_confirmed:
  "contains_block fc k \<Longrightarrow> is_duplicate_confirmed fc k \<noteq> Some True \<Longrightarrow> is_duplicate_confirmed fc k = Some False"
  by (auto simp: contains_block_def is_duplicate_confirmed_def split: option.splits)

section \<open>Updates that replay builds\<close>

text \<open>
  An update that replay builds from the state just before the check.  A frozen bank is in the fork
  choice, where replay adds it when it freezes.
\<close>

definition frozen_in :: "fork_choice \<Rightarrow> slot \<Rightarrow> bank_status \<Rightarrow> bool" where
  "frozen_in fc slot status \<longleftrightarrow> (\<forall>h. status_bank_hash status = Some h \<longrightarrow> contains_block fc (Key slot h))"

inductive built_update :: "slot \<Rightarrow> (slot \<rightharpoonup> hash) \<Rightarrow> cluster_state \<Rightarrow> slot_state_update \<Rightarrow> bool" for slot dcs cs where
  built_frozen: "bank_frozen_state_new_from_state slot h (cs_duplicate_slots_tracker cs) dcs (cs_fork_choice cs)
      (cs_epoch_slots_frozen_slots cs) = Some st \<Longrightarrow> contains_block (cs_fork_choice cs) (Key slot h) \<Longrightarrow>
    built_update slot dcs cs (UpdateBankFrozen st)"
| built_confirmed: "st = duplicate_confirmed_state_new_from_state h is_dead get_hash \<Longrightarrow>
    frozen_in (cs_fork_choice cs) slot (dcs_bank_status st) \<Longrightarrow>
    built_update slot dcs cs (UpdateDuplicateConfirmed st)"
| built_dead: "dead_state_new_from_state slot (cs_duplicate_slots_tracker cs) dcs (cs_fork_choice cs)
      (cs_epoch_slots_frozen_slots cs) = Some st \<Longrightarrow> built_update slot dcs cs (UpdateDead st)"
| built_duplicate: "duplicate_state_new_from_state slot dcs (cs_fork_choice cs) is_dead get_hash = Some st \<Longrightarrow>
    frozen_in (cs_fork_choice cs) slot (dup_bank_status st) \<Longrightarrow> built_update slot dcs cs (UpdateDuplicate st)"
| built_epoch_slots: "epoch_slots_frozen_state_new_from_state slot h dcs (cs_fork_choice cs) is_dead get_hash pruned = Some st \<Longrightarrow>
    frozen_in (cs_fork_choice cs) slot (esf_bank_status st) \<Longrightarrow> built_update slot dcs cs (UpdateEpochSlotsFrozen st)"
| built_pruned: "built_update slot dcs cs UpdatePopularPrunedFork"

text \<open>What a change asks of the fork choice.\<close>

fun change_ok :: "fork_choice \<Rightarrow> slot \<Rightarrow> resulting_state_change \<Rightarrow> bool" where
  "change_ok fc slot (ChangeBankFrozen h) = contains_block fc (Key slot h)"
| "change_ok fc slot (MarkSlotDuplicate h) = (is_duplicate_confirmed fc (Key slot h) = Some False)"
| "change_ok fc slot (DuplicateConfirmedSlotMatchesCluster h) = contains_block fc (Key slot h)"
| "change_ok fc slot _ = True"

fun fork_change :: "resulting_state_change \<Rightarrow> bool" where
  "fork_change (MarkSlotDuplicate h) = True"
| "fork_change (DuplicateConfirmedSlotMatchesCluster h) = True"
| "fork_change _ = False"

definition changes_ok :: "fork_choice \<Rightarrow> slot \<Rightarrow> resulting_state_change list \<Rightarrow> bool" where
  "changes_ok fc slot changes \<longleftrightarrow> (\<forall>c \<in> set changes. change_ok fc slot c) \<and> length (filter fork_change changes) \<le> 1"

lemmas check_defs = check_duplicate_confirmed_hash_against_bank_status_def check_epoch_slots_hash_against_bank_status_def

lemma frozen_changes:
  assumes "bank_frozen_state_new_from_state slot h trk dcs fc esf = Some st" "contains_block fc (Key slot h)"
  shows "\<exists>changes. into_state_changes (UpdateBankFrozen st) slot = Some changes \<and> changes_ok fc slot changes"
  using assms not_confirmed [OF assms(2)]
  by (auto simp: bank_frozen_state_new_from_state_def get_cluster_confirmed_hash_from_state_eq into_state_changes_def
      on_frozen_slot_def Let_def check_defs changes_ok_def split: option.splits if_splits)

lemma confirmed_changes:
  assumes "frozen_in fc slot (dcs_bank_status st)"
    "case status_bank_hash (dcs_bank_status st) of Some h \<Rightarrow> is_duplicate_confirmed fc (Key slot h) \<noteq> Some True | None \<Rightarrow> True"
  shows "\<exists>changes. into_state_changes (UpdateDuplicateConfirmed st) slot = Some changes \<and> changes_ok fc slot changes"
  using assms not_confirmed [of fc]
  by (cases "dcs_bank_status st")
    (auto simp: frozen_in_def into_state_changes_def on_duplicate_confirmed_def Let_def check_defs changes_ok_def)

lemma dead_changes:
  assumes "dead_state_new_from_state slot trk dcs fc esf = Some st"
  shows "\<exists>changes. into_state_changes (UpdateDead st) slot = Some changes \<and> changes_ok fc slot changes"
  using assms
  by (auto simp: dead_state_new_from_state_def get_cluster_confirmed_hash_from_state_eq into_state_changes_def on_dead_slot_def
      check_defs changes_ok_def Let_def split: option.splits)

lemma duplicate_changes:
  assumes "duplicate_state_new_from_state slot dcs fc is_dead get_hash = Some st" "frozen_in fc slot (dup_bank_status st)"
  shows "\<exists>changes. into_state_changes (UpdateDuplicate st) slot = Some changes \<and> changes_ok fc slot changes"
proof -
  have conf: "dup_duplicate_confirmed_hash st =
      (if local_replay_confirmed fc slot (status_bank_hash (dup_bank_status st))
       then status_bank_hash (dup_bank_status st) else dcs slot)"
    using assms(1) by (auto simp: duplicate_state_new_from_state_def get_duplicate_confirmed_hash_from_state_eq Let_def)
  have "changes_ok fc slot (on_duplicate st)"
  proof (cases "dup_bank_status st")
    case (BankFrozen h)
    then have "contains_block fc (Key slot h)" using assms(2) by (simp add: frozen_in_def)
    from not_confirmed [OF this] show ?thesis
      using BankFrozen conf by (simp add: on_duplicate_def changes_ok_def split: option.split)
  qed (simp_all add: on_duplicate_def changes_ok_def split: option.split)
  moreover have "into_state_changes (UpdateDuplicate st) slot = Some (on_duplicate st)"
    by (cases "dup_bank_status st") (simp_all add: into_state_changes_def on_duplicate_def)
  ultimately show ?thesis by blast
qed

lemma epoch_slots_changes:
  assumes "epoch_slots_frozen_state_new_from_state slot h dcs fc is_dead get_hash pruned = Some st"
    "frozen_in fc slot (esf_bank_status st)"
  shows "\<exists>changes. into_state_changes (UpdateEpochSlotsFrozen st) slot = Some changes \<and> changes_ok fc slot changes"
proof -
  have conf: "esf_duplicate_confirmed_hash st =
      (if local_replay_confirmed fc slot (status_bank_hash (esf_bank_status st))
       then status_bank_hash (esf_bank_status st) else dcs slot)"
    using assms(1) by (auto simp: epoch_slots_frozen_state_new_from_state_def get_duplicate_confirmed_hash_from_state_eq Let_def)
  show ?thesis
  proof (cases "esf_bank_status st")
    case (BankFrozen h)
    then have "contains_block fc (Key slot h)" using assms(2) by (simp add: frozen_in_def)
    from not_confirmed [OF this] show ?thesis
      using BankFrozen conf by (simp add: into_state_changes_def on_epoch_slots_frozen_def check_defs changes_ok_def Let_def)
  qed (simp_all add: into_state_changes_def on_epoch_slots_frozen_def check_defs changes_ok_def Let_def)
qed

lemma into_state_changes_ok:
  assumes "built_update slot dcs cs update" "snd (register_update slot cs update)"
  shows "\<exists>changes. into_state_changes update slot = Some changes \<and> changes_ok (cs_fork_choice cs) slot changes"
  using assms
proof (induction rule: built_update.induct)
  case (built_confirmed st h is_dead get_hash)
  then show ?case by (intro confirmed_changes) (simp_all add: register_update_def)
next
  case built_pruned
  then show ?case by (simp add: into_state_changes_def on_popular_pruned_fork_def changes_ok_def)
qed (rule frozen_changes dead_changes duplicate_changes epoch_slots_changes; assumption)+

section \<open>No panic\<close>

lemma mark_invalid_run:
  assumes r: "fc_run env fc" and k: "is_duplicate_confirmed fc k = Some False"
  shows "\<exists>fc'. mark_fork_invalid_candidate fc k = Some fc' \<and> fc_run env fc' \<and> (\<forall>j. contains_block fc' j = contains_block fc j)"
proof -
  have inv: "fc_inv fc" "fork_infos fc default_key = None" using fc_run_inv [OF r] by (simp_all add: run_inv_def)
  obtain i where i: "fork_infos fc k = Some i" "\<not> fi_is_duplicate_confirmed i" using k by (auto simp: is_duplicate_confirmed_def)
  obtain fc' where fc': "mark_fork_invalid_candidate fc k = Some fc'" "tree_shape (fork_infos fc') = tree_shape (fork_infos fc)"
    using mark_invalid_ok [OF inv(1) i inv(2)] by blast
  have "contains_block fc' j = contains_block fc j" for j using tree_shape_dom [OF fc'(2)] by (auto simp: contains_block_def)
  then show ?thesis using fc'(1) run_invalid [OF r fc'(1)] by blast
qed

lemma mark_valid_run:
  assumes r: "fc_run env fc" and k: "contains_block fc k"
  shows "\<exists>fc' l. mark_fork_valid_candidate fc k = Some (fc', l) \<and> fc_run env fc' \<and> (\<forall>j. contains_block fc' j = contains_block fc j)"
proof -
  have inv: "fc_inv fc" "fork_infos fc default_key = None" using fc_run_inv [OF r] by (simp_all add: run_inv_def)
  obtain i where i: "fork_infos fc k = Some i" using k by (auto simp: contains_block_def)
  obtain fc' l where fc': "mark_fork_valid_candidate fc k = Some (fc', l)" "tree_shape (fork_infos fc') = tree_shape (fork_infos fc)"
    using mark_valid_ok [OF inv(1) i inv(2)] by blast
  have "contains_block fc' j = contains_block fc j" for j using tree_shape_dom [OF fc'(2)] by (auto simp: contains_block_def)
  moreover have "fork_infos fc k \<noteq> None" using i by simp
  ultimately show ?thesis using fc'(1) run_valid [OF r fc'(1)] by blast
qed

lemma apply_state_change_ok:
  assumes r: "fc_run env (cs_fork_choice cs)" and c: "change_ok (cs_fork_choice cs) slot c"
  shows "\<exists>cs' nc'. apply_state_change slot c (cs, nc) = Some (cs', nc') \<and> fc_run env (cs_fork_choice cs') \<and>
    (\<forall>k. contains_block (cs_fork_choice cs') k = contains_block (cs_fork_choice cs) k) \<and>
    (\<not> fork_change c \<longrightarrow> cs_fork_choice cs' = cs_fork_choice cs)"
proof (cases c)
  case (ChangeBankFrozen h)
  then show ?thesis
    using r c by (auto simp: apply_state_change_def contains_block_def is_duplicate_confirmed_def)
next
  case (MarkSlotDuplicate h)
  then show ?thesis using mark_invalid_run [OF r, of "Key slot h"] c by (auto simp: apply_state_change_def)
next
  case (DuplicateConfirmedSlotMatchesCluster h)
  then show ?thesis using mark_valid_run [OF r, of "Key slot h"] c by (auto simp: apply_state_change_def)
qed (use r in \<open>simp_all add: apply_state_change_def\<close>)

lemma change_ok_no_fork:
  "\<not> fork_change c \<Longrightarrow> (\<And>k. contains_block fc' k = contains_block fc k) \<Longrightarrow> change_ok fc slot c \<Longrightarrow> change_ok fc' slot c"
  by (cases c) simp_all

lemma apply_changes_loop_ok:
  assumes "fc_run env (cs_fork_choice cs)" "changes_ok (cs_fork_choice cs) slot changes"
  shows "\<exists>cs' nc'. apply_changes_loop slot changes (cs, nc) = Some (cs', nc') \<and> fc_run env (cs_fork_choice cs')"
  using assms
proof (induction changes arbitrary: cs nc)
  case (Cons c changes)
  obtain cs1 nc1 where s: "apply_state_change slot c (cs, nc) = Some (cs1, nc1)" "fc_run env (cs_fork_choice cs1)"
    "\<And>k. contains_block (cs_fork_choice cs1) k = contains_block (cs_fork_choice cs) k"
    "\<not> fork_change c \<longrightarrow> cs_fork_choice cs1 = cs_fork_choice cs"
    using apply_state_change_ok [OF Cons.prems(1), of slot c nc] Cons.prems(2) by (auto simp: changes_ok_def)
  have "changes_ok (cs_fork_choice cs1) slot changes"
  proof (cases "fork_change c")
    case True
    then have "\<not> fork_change d" if "d \<in> set changes" for d
      using Cons.prems(2) that by (auto simp: changes_ok_def filter_empty_conv)
    then show ?thesis
      using Cons.prems(2) change_ok_no_fork [of _ "cs_fork_choice cs1" "cs_fork_choice cs" slot] s(3)
      by (auto simp: changes_ok_def split: if_splits)
  next
    case False
    then show ?thesis using Cons.prems(2) s(4) by (simp add: changes_ok_def)
  qed
  from Cons.IH [OF s(2) this, of nc1] show ?case by (auto simp: s(1))
qed simp

lemma register_update_fork_choice [simp]:
  "cs_fork_choice (fst (register_update slot cs update)) = cs_fork_choice cs"
  by (cases update) (simp_all add: register_update_def)

lemma check_slot_runs:
  assumes r: "fc_run env (cs_fork_choice cs)" and b: "built_update slot dcs cs update"
  shows "\<exists>cs'. check_slot_agrees_with_cluster slot root cs update = Some cs' \<and> fc_run env (cs_fork_choice cs')"
proof -
  obtain cs1 c where reg: "register_update slot cs update = (cs1, c)" by force
  have fc1: "cs_fork_choice cs1 = cs_fork_choice cs" using register_update_fork_choice [of slot cs update] reg by simp
  show ?thesis
  proof (cases "slot \<le> root \<or> \<not> c")
    case True
    then show ?thesis using r fc1 reg by (auto simp: check_slot_agrees_with_cluster_def)
  next
    case False
    then obtain ch where ch: "into_state_changes update slot = Some ch" "changes_ok (cs_fork_choice cs1) slot ch"
      using into_state_changes_ok [OF b] reg fc1 by auto
    obtain cs2 nc where "apply_changes_loop slot ch (cs1, None) = Some (cs2, nc)" "fc_run env (cs_fork_choice cs2)"
      using apply_changes_loop_ok [OF _ ch(2), of env None] r unfolding fc1 by blast
    then show ?thesis
      using False reg ch(1) by (auto simp: check_slot_agrees_with_cluster_def apply_state_changes_def split: option.splits)
  qed
qed

section \<open>The outcome for a frozen bank\<close>

text \<open>What a change does to the validity of the block and to the repair table.\<close>

lemma apply_mark:
  assumes "fc_run env (cs_fork_choice cs)" "is_duplicate_confirmed (cs_fork_choice cs) (Key slot h) = Some False"
  shows "\<exists>fc'. apply_state_change slot (MarkSlotDuplicate h) (cs, nc) = Some (cs\<lparr>cs_fork_choice := fc'\<rparr>, nc) \<and>
    is_candidate fc' (Key slot h) = Some False"
proof -
  obtain fc' where "mark_fork_invalid_candidate (cs_fork_choice cs) (Key slot h) = Some fc'"
    "\<forall>j. is_candidate fc' j = (if j \<in> subtree (fork_infos (cs_fork_choice cs)) (Key slot h) then Some False
      else is_candidate (cs_fork_choice cs) j)"
    using mark_invalid_effect [OF assms] by (elim exE conjE)
  then show ?thesis by (intro exI [of _ fc']) (simp add: apply_state_change_def)
qed

lemma apply_match:
  assumes "fc_run env (cs_fork_choice cs)" "contains_block (cs_fork_choice cs) (Key slot h)"
  shows "\<exists>cs'. apply_state_change slot (DuplicateConfirmedSlotMatchesCluster h) (cs, nc) = Some (cs', None) \<and>
    is_duplicate_confirmed (cs_fork_choice cs') (Key slot h) = Some True \<and> is_candidate (cs_fork_choice cs') (Key slot h) = Some True \<and>
    cs_duplicate_slots_to_repair cs' = (cs_duplicate_slots_to_repair cs)(slot := None)"
proof -
  have "fork_infos (cs_fork_choice cs) (Key slot h) \<noteq> None" using assms(2) by (simp add: contains_block_def)
  from mark_valid_effect [OF assms(1) this] show ?thesis
  proof (elim exE conjE)
    fix fc' l
    assume m: "mark_fork_valid_candidate (cs_fork_choice cs) (Key slot h) = Some (fc', l)"
      and all: "\<forall>a. contains_block (cs_fork_choice cs) a \<and> Key slot h \<in> subtree (fork_infos (cs_fork_choice cs)) a \<longrightarrow>
        is_duplicate_confirmed fc' a = Some True \<and> is_candidate fc' a = Some True"
    have "is_duplicate_confirmed fc' (Key slot h) = Some True \<and> is_candidate fc' (Key slot h) = Some True"
      using assms(2) by (intro all [rule_format] conjI subtree_self)
    then show ?thesis using m by (simp add: apply_state_change_def)
  qed
qed

lemma apply_frozen:
  assumes "contains_block (cs_fork_choice cs) (Key slot h)"
  shows "apply_state_change slot (ChangeBankFrozen h) (cs, None) =
    Some (cs, if is_duplicate_confirmed (cs_fork_choice cs) (Key slot h) = Some True then None else Some h)"
  using assms by (auto simp: apply_state_change_def contains_block_def is_duplicate_confirmed_def)

text \<open>The rest of the changes of a frozen bank, by what the cluster confirmed.\<close>

definition frozen_rest :: "(slot \<rightharpoonup> hash) \<Rightarrow> cluster_state \<Rightarrow> slot \<Rightarrow> hash \<Rightarrow> resulting_state_change list" where
  "frozen_rest dcs cs slot b =
     (if is_duplicate_confirmed (cs_fork_choice cs) (Key slot b) = Some True \<or> dcs slot = Some b
      then [DuplicateConfirmedSlotMatchesCluster b]
      else case dcs slot of
        Some h \<Rightarrow> [MarkSlotDuplicate b, RepairDuplicateConfirmedVersion h]
      | None \<Rightarrow>
          (case cs_epoch_slots_frozen_slots cs slot of
             Some h \<Rightarrow> if h = b then [] else [MarkSlotDuplicate b, RepairDuplicateConfirmedVersion h]
           | None \<Rightarrow> if slot \<in> cs_duplicate_slots_tracker cs then [MarkSlotDuplicate b] else []))"

lemma frozen_state_changes:
  assumes "bank_frozen_state_new_from_state slot b (cs_duplicate_slots_tracker cs) dcs (cs_fork_choice cs)
      (cs_epoch_slots_frozen_slots cs) = Some st"
  shows "into_state_changes (UpdateBankFrozen st) slot = Some (ChangeBankFrozen b # frozen_rest dcs cs slot b)"
  using assms
  by (auto simp: bank_frozen_state_new_from_state_def get_cluster_confirmed_hash_from_state_eq into_state_changes_def
      on_frozen_slot_def Let_def check_defs frozen_rest_def split: option.splits if_splits)

definition frozen_outcome :: "(slot \<rightharpoonup> hash) \<Rightarrow> cluster_state \<Rightarrow> slot \<Rightarrow> hash \<Rightarrow> cluster_state \<Rightarrow> bool" where
  "frozen_outcome dcs cs slot b cs' \<longleftrightarrow>
     (let valid = is_candidate (cs_fork_choice cs') (Key slot b); repair = cs_duplicate_slots_to_repair cs' slot in
      if is_duplicate_confirmed (cs_fork_choice cs) (Key slot b) = Some True \<or> dcs slot = Some b
      then is_duplicate_confirmed (cs_fork_choice cs') (Key slot b) = Some True \<and> valid = Some True \<and> repair = None
      else case dcs slot of
        Some h \<Rightarrow> valid = Some False \<and> repair = Some h
      | None \<Rightarrow>
          (case cs_epoch_slots_frozen_slots cs slot of
             Some h \<Rightarrow>
               if h = b then cs_fork_choice cs' = cs_fork_choice cs \<and> repair = cs_duplicate_slots_to_repair cs slot
               else valid = Some False \<and> repair = Some h
           | None \<Rightarrow>
               (if slot \<in> cs_duplicate_slots_tracker cs then valid = Some False
                else cs_fork_choice cs' = cs_fork_choice cs) \<and>
               repair = cs_duplicate_slots_to_repair cs slot))"

lemma frozen_outcome_bank_hashes [simp]:
  "frozen_outcome dcs cs slot b (cs'\<lparr>cs_bank_hashes := x\<rparr>) = frozen_outcome dcs cs slot b cs'"
proof -
  have "cs_fork_choice (cs'\<lparr>cs_bank_hashes := x\<rparr>) = cs_fork_choice cs'"
    "cs_duplicate_slots_to_repair (cs'\<lparr>cs_bank_hashes := x\<rparr>) = cs_duplicate_slots_to_repair cs'" by simp_all
  then show ?thesis by (simp only: frozen_outcome_def)
qed

lemma apply_frozen_rest:
  assumes r: "fc_run env (cs_fork_choice cs)" and b: "contains_block (cs_fork_choice cs) (Key slot b)"
  shows "\<exists>cs' nc'. apply_changes_loop slot (frozen_rest dcs cs slot b) (cs, nc) = Some (cs', nc') \<and> frozen_outcome dcs cs slot b cs'"
proof (cases "is_duplicate_confirmed (cs_fork_choice cs) (Key slot b) = Some True \<or> dcs slot = Some b")
  case True
  then show ?thesis using apply_match [OF r b, of nc] by (auto simp: frozen_rest_def frozen_outcome_def Let_def)
next
  case False
  then have "is_duplicate_confirmed (cs_fork_choice cs) (Key slot b) = Some False" using not_confirmed [OF b] by blast
  from apply_mark [OF r this] obtain fc' where
    m: "apply_state_change slot (MarkSlotDuplicate b) (cs, nc) = Some (cs\<lparr>cs_fork_choice := fc'\<rparr>, nc)"
    "is_candidate fc' (Key slot b) = Some False" by blast
  have rep: "apply_state_change slot (RepairDuplicateConfirmedVersion h) (cs\<lparr>cs_fork_choice := fc'\<rparr>, nc) =
      Some (cs\<lparr>cs_fork_choice := fc', cs_duplicate_slots_to_repair := (cs_duplicate_slots_to_repair cs)(slot \<mapsto> h)\<rparr>, nc)" for h
    by (simp add: apply_state_change_def)
  show ?thesis
    using False m rep by (simp add: frozen_rest_def frozen_outcome_def Let_def split: option.split)
qed

lemma frozen_bank_outcome:
  assumes r: "fc_run env (cs_fork_choice cs)" and b: "contains_block (cs_fork_choice cs) (Key slot b)" and root: "root < slot"
    and st: "bank_frozen_state_new_from_state slot b (cs_duplicate_slots_tracker cs) dcs (cs_fork_choice cs)
      (cs_epoch_slots_frozen_slots cs) = Some st"
  shows "\<exists>cs'. check_slot_agrees_with_cluster slot root cs (UpdateBankFrozen st) = Some cs' \<and> frozen_outcome dcs cs slot b cs'"
proof -
  let ?nc = "if is_duplicate_confirmed (cs_fork_choice cs) (Key slot b) = Some True then None else Some b"
  obtain cs1 nc where l: "apply_changes_loop slot (frozen_rest dcs cs slot b) (cs, ?nc) = Some (cs1, nc)"
    "frozen_outcome dcs cs slot b cs1" using apply_frozen_rest [OF r b] by blast
  have "check_slot_agrees_with_cluster slot root cs (UpdateBankFrozen st) =
      Some (case nc of Some h \<Rightarrow> cs1\<lparr>cs_bank_hashes := insert_bank_hash (cs_bank_hashes cs1) slot h False\<rparr> | None \<Rightarrow> cs1)"
    using root l(1) frozen_state_changes [OF st] apply_frozen [OF b]
    by (simp add: check_slot_agrees_with_cluster_def register_update_def apply_state_changes_def not_le [symmetric])
  then show ?thesis using l(2) by (cases nc) simp_all
qed

section \<open>Properties\<close>

definition demo_cluster :: cluster_state where
  "demo_cluster = \<lparr>cs_fork_choice = the (fork_choice_new (Key 5 7)), cs_duplicate_slots_tracker = {},
     cs_epoch_slots_frozen_slots = Map.empty, cs_duplicate_slots_to_repair = Map.empty,
     cs_purge_repair_slot_counter = Map.empty, cs_bank_hashes = Map.empty, cs_sent = []\<rparr>"

lemma demo_cluster_run: "fc_run env (cs_fork_choice demo_cluster)" "contains_block (cs_fork_choice demo_cluster) (Key 5 7)"
proof -
  obtain fc where fc: "fork_choice_new (Key 5 7) = Some fc" "fork_infos fc = [Key 5 7 \<mapsto> leaf_info (Key 5 7) None None]"
    using fork_choice_new_ok [of "Key 5 7" env] by blast
  have "fc_run env fc" by (rule run_new [OF fc(1)]) (simp add: default_key_def)
  then show "fc_run env (cs_fork_choice demo_cluster)" "contains_block (cs_fork_choice demo_cluster) (Key 5 7)"
    using fc by (simp_all add: demo_cluster_def contains_block_def)
qed

text \<open>
  C15. Whatever update replay builds from the state, the check of a slot against the cluster never
  panics, and the fork choice afterwards is again a state of a run of the fork choice: no block that
  is duplicate confirmed is marked invalid, and only blocks of the tree are marked.
\<close>

theorem cluster_check_never_panics:
  assumes "fc_run env (cs_fork_choice cs)" "built_update slot duplicate_confirmed_slots cs update"
  shows "\<exists>cs'. check_slot_agrees_with_cluster slot root cs update = Some cs' \<and> fc_run env (cs_fork_choice cs')"
  using assms by (rule check_slot_runs)

theorem cluster_check_never_panics_witness:
  "\<exists>cs'. check_slot_agrees_with_cluster 5 0 demo_cluster (UpdateBankFrozen
       \<lparr>bfs_frozen_hash = 7, bfs_cluster_confirmed_hash = Some (ClusterDuplicateConfirmed 7), bfs_is_slot_duplicate = False\<rparr>) = Some cs' \<and>
     fc_run \<lparr>get_epoch = (\<lambda>_. 0), epoch_stakes = Map.empty\<rparr> (cs_fork_choice cs')"
proof (rule cluster_check_never_panics [OF demo_cluster_run(1) built_frozen])
  show "contains_block (cs_fork_choice demo_cluster) (Key 5 7)" by (rule demo_cluster_run(2))
  show "bank_frozen_state_new_from_state 5 7 (cs_duplicate_slots_tracker demo_cluster) [5 \<mapsto> 7] (cs_fork_choice demo_cluster)
      (cs_epoch_slots_frozen_slots demo_cluster) =
    Some \<lparr>bfs_frozen_hash = 7, bfs_cluster_confirmed_hash = Some (ClusterDuplicateConfirmed 7), bfs_is_slot_duplicate = False\<rparr>"
    by (simp add: bank_frozen_state_new_from_state_def get_cluster_confirmed_hash_from_state_eq demo_cluster_def)
qed

text \<open>
  C37. When a bank freezes, the outcome of the check is decided by what the cluster confirmed.  If
  replay or the cluster duplicate confirmed its hash, the block becomes a duplicate confirmed
  candidate and its repair is dropped.  If the cluster duplicate confirmed another hash, or sampled
  another one, the block is no candidate any more and this other version is to be repaired.  If
  nothing is confirmed, a slot known to be duplicate makes the block no candidate, and otherwise the
  fork choice does not change.
\<close>

theorem frozen_bank_follows_cluster:
  assumes "fc_run env (cs_fork_choice cs)" "contains_block (cs_fork_choice cs) (Key slot b)" "root < slot"
    "bank_frozen_state_new_from_state slot b (cs_duplicate_slots_tracker cs) duplicate_confirmed_slots (cs_fork_choice cs)
      (cs_epoch_slots_frozen_slots cs) = Some st"
  shows "\<exists>cs'. check_slot_agrees_with_cluster slot root cs (UpdateBankFrozen st) = Some cs' \<and>
    (let valid = is_candidate (cs_fork_choice cs') (Key slot b); repair = cs_duplicate_slots_to_repair cs' slot in
     if is_duplicate_confirmed (cs_fork_choice cs) (Key slot b) = Some True \<or> duplicate_confirmed_slots slot = Some b
     then is_duplicate_confirmed (cs_fork_choice cs') (Key slot b) = Some True \<and> valid = Some True \<and> repair = None
     else case duplicate_confirmed_slots slot of
       Some h \<Rightarrow> valid = Some False \<and> repair = Some h
     | None \<Rightarrow>
         (case cs_epoch_slots_frozen_slots cs slot of
            Some h \<Rightarrow>
              if h = b then cs_fork_choice cs' = cs_fork_choice cs \<and> repair = cs_duplicate_slots_to_repair cs slot
              else valid = Some False \<and> repair = Some h
          | None \<Rightarrow>
              (if slot \<in> cs_duplicate_slots_tracker cs then valid = Some False
               else cs_fork_choice cs' = cs_fork_choice cs) \<and>
              repair = cs_duplicate_slots_to_repair cs slot))"
  using frozen_bank_outcome [OF assms] unfolding frozen_outcome_def .

theorem frozen_bank_follows_cluster_witness:
  "\<exists>cs'. check_slot_agrees_with_cluster 5 0 demo_cluster (UpdateBankFrozen
       \<lparr>bfs_frozen_hash = 7, bfs_cluster_confirmed_hash = Some (ClusterDuplicateConfirmed 7), bfs_is_slot_duplicate = False\<rparr>) = Some cs' \<and>
     is_candidate (cs_fork_choice cs') (Key 5 7) = Some True \<and> cs_duplicate_slots_to_repair cs' 5 = None"
proof -
  let ?st = "\<lparr>bfs_frozen_hash = 7, bfs_cluster_confirmed_hash = Some (ClusterDuplicateConfirmed 7), bfs_is_slot_duplicate = False\<rparr>"
  have st: "bank_frozen_state_new_from_state 5 7 (cs_duplicate_slots_tracker demo_cluster) [5 \<mapsto> 7] (cs_fork_choice demo_cluster)
      (cs_epoch_slots_frozen_slots demo_cluster) = Some ?st"
    by (simp add: bank_frozen_state_new_from_state_def get_cluster_confirmed_hash_from_state_eq demo_cluster_def)
  have "(0 :: slot) < 5" by simp
  from frozen_bank_follows_cluster [OF demo_cluster_run this st] show ?thesis by (auto simp: Let_def)
qed

end
