(* ===== verification/Thread_Aware_Account_Locks.thy ===== *)
theory Thread_Aware_Account_Locks
  imports Prelude "HOL-Library.Monad_Syntax"
begin

text \<open>
  The account locks of the banking stage schedulers: \<open>ThreadAwareAccountLocks\<close> and the bit set
  \<open>ThreadSet\<close> of scheduling-utils/src/thread_aware_account_locks.rs. A thread may take an
  account again while it holds it; two threads share an account only for reading. \<open>None\<close> is a
  panic, that of an assertion included.
\<close>

unbundle bit_operations_syntax

section \<open>Thread sets\<close>

definition MAX_THREADS :: nat where
  "MAX_THREADS = 64"

type_synonym thread_set = u64

text \<open>\<open>1 << thread_id\<close>; the shift amount is taken modulo the width, as in the release profile.\<close>

definition as_flag :: "nat \<Rightarrow> thread_set" where
  "as_flag thread_id = push_bit (thread_id mod MAX_THREADS) 1"

definition threads_none :: thread_set where
  "threads_none = 0"

definition threads_any :: "nat \<Rightarrow> thread_set" where
  "threads_any num_threads = (if num_threads = MAX_THREADS then - 1 else as_flag num_threads - 1)"

definition threads_only :: "nat \<Rightarrow> thread_set" where
  "threads_only thread_id = as_flag thread_id"

text \<open>\<open>u64::count_ones\<close> and \<open>u64::trailing_zeros\<close>.\<close>

definition set_bits_of :: "u64 \<Rightarrow> nat list" where
  "set_bits_of w = filter (bit w) [0..<64]"

definition count_ones :: "u64 \<Rightarrow> nat" where
  "count_ones w = length (set_bits_of w)"

definition trailing_zeros :: "u64 \<Rightarrow> nat" where
  "trailing_zeros w = (case set_bits_of w of [] \<Rightarrow> 64 | i # rest \<Rightarrow> i)"

definition only_one_contained :: "thread_set \<Rightarrow> nat option" where
  "only_one_contained self = (if count_ones self = 1 then Some (trailing_zeros self) else None)"

definition threads_is_empty :: "thread_set \<Rightarrow> bool" where
  "threads_is_empty self \<longleftrightarrow> self = threads_none"

definition threads_contains :: "thread_set \<Rightarrow> nat \<Rightarrow> bool" where
  "threads_contains self thread_id \<longleftrightarrow> self AND as_flag thread_id \<noteq> 0"

definition threads_insert :: "thread_set \<Rightarrow> nat \<Rightarrow> thread_set" where
  "threads_insert self thread_id = self OR as_flag thread_id"

definition threads_remove :: "thread_set \<Rightarrow> nat \<Rightarrow> thread_set" where
  "threads_remove self thread_id = self AND NOT (as_flag thread_id)"

definition thread_set_next :: "u64 \<Rightarrow> (nat \<times> u64) option" where
  "thread_set_next self =
     (if self = 0 then None else Some (trailing_zeros self, self AND (self - 1)))"

section \<open>Operations\<close>

record account_write_locks =
  write_thread_id :: nat
  write_lock_count :: u32

record account_read_locks =
  read_thread_set :: thread_set
  read_lock_counts :: "u32 list"

record thread_account_locks =
  ta_write_locks :: "account_write_locks option"
  ta_read_locks :: "account_read_locks option"

datatype try_lock_error = MultipleConflicts | ThreadNotAllowed

record thread_aware_account_locks =
  num_threads :: nat
  locks :: "pubkey \<rightharpoonup> thread_account_locks"

definition thread_aware_new :: "nat \<Rightarrow> thread_aware_account_locks option" where
  "thread_aware_new n =
     (if 0 < n \<and> n \<le> MAX_THREADS then Some \<lparr>num_threads = n, locks = Map.empty\<rparr> else None)"

definition schedulable_threads ::
  "bool \<Rightarrow> thread_aware_account_locks \<Rightarrow> pubkey \<Rightarrow> thread_set option" where
  "schedulable_threads WRITE self account =
     (case locks self account of
        None \<Rightarrow> Some (threads_any (num_threads self))
      | Some l \<Rightarrow>
          (case (ta_write_locks l, ta_read_locks l) of
             (None, Some r) \<Rightarrow>
               Some (if WRITE
                     then (case only_one_contained (read_thread_set r) of
                             Some t \<Rightarrow> threads_only t | None \<Rightarrow> threads_none)
                     else threads_any (num_threads self))
           | (Some w, None) \<Rightarrow> Some (threads_only (write_thread_id w))
           | (Some w, Some r) \<Rightarrow>
               if only_one_contained (read_thread_set r) = Some (write_thread_id w)
               then Some (read_thread_set r) else None
           | (None, None) \<Rightarrow> None))"

text \<open>
  The loops of \<open>accounts_schedulable_threads\<close>: \<open>Some None\<close> is the early return of \<open>None\<close>.
\<close>

fun schedulable_loop ::
  "bool \<Rightarrow> thread_aware_account_locks \<Rightarrow> thread_set \<Rightarrow> pubkey list \<Rightarrow> thread_set option option" where
  "schedulable_loop WRITE self threads [] = Some (Some threads)"
| "schedulable_loop WRITE self threads (account # rest) =
     (case schedulable_threads WRITE self account of
        None \<Rightarrow> None
      | Some here \<Rightarrow>
          let threads = threads AND here in
          if threads_is_empty threads then Some None
          else schedulable_loop WRITE self threads rest)"

definition accounts_schedulable_threads ::
  "thread_aware_account_locks \<Rightarrow> pubkey list \<Rightarrow> pubkey list \<Rightarrow> thread_set option option" where
  "accounts_schedulable_threads self write_account_locks read_account_locks =
     (case schedulable_loop True self (threads_any (num_threads self)) write_account_locks of
        None \<Rightarrow> None
      | Some None \<Rightarrow> Some None
      | Some (Some threads) \<Rightarrow> schedulable_loop False self threads read_account_locks)"

definition entry_or_new :: "thread_aware_account_locks \<Rightarrow> pubkey \<Rightarrow> thread_account_locks" where
  "entry_or_new self account =
     (case locks self account of Some l \<Rightarrow> l | None \<Rightarrow> \<lparr>ta_write_locks = None, ta_read_locks = None\<rparr>)"

definition write_lock_account ::
  "thread_aware_account_locks \<Rightarrow> pubkey \<Rightarrow> nat \<Rightarrow> thread_aware_account_locks option" where
  "write_lock_account self account thread_id =
     (let l = entry_or_new self account in
      if (case ta_read_locks l of
            Some r \<Rightarrow> only_one_contained (read_thread_set r) \<noteq> Some thread_id | None \<Rightarrow> False) then None
      else
        (case ta_write_locks l of
           Some w \<Rightarrow>
             if write_thread_id w \<noteq> thread_id then None
             else Some (self\<lparr>locks := (locks self)(account \<mapsto>
               l\<lparr>ta_write_locks := Some (w\<lparr>write_lock_count := write_lock_count w + 1\<rparr>)\<rparr>)\<rparr>)
         | None \<Rightarrow>
             Some (self\<lparr>locks := (locks self)(account \<mapsto>
               l\<lparr>ta_write_locks := Some \<lparr>write_thread_id = thread_id, write_lock_count = 1\<rparr>\<rparr>)\<rparr>)))"

definition write_unlock_account ::
  "thread_aware_account_locks \<Rightarrow> pubkey \<Rightarrow> nat \<Rightarrow> thread_aware_account_locks option" where
  "write_unlock_account self account thread_id =
     (case locks self account of
        None \<Rightarrow> None
      | Some l \<Rightarrow>
          (case ta_write_locks l of
             None \<Rightarrow> None
           | Some w \<Rightarrow>
               if write_thread_id w \<noteq> thread_id then None
               else
                 let count = write_lock_count w - 1 in
                 if count = 0
                 then Some (self\<lparr>locks := (locks self)(account :=
                        (if ta_read_locks l = None then None else Some (l\<lparr>ta_write_locks := None\<rparr>)))\<rparr>)
                 else Some (self\<lparr>locks := (locks self)(account \<mapsto>
                        l\<lparr>ta_write_locks := Some (w\<lparr>write_lock_count := count\<rparr>)\<rparr>)\<rparr>)))"

definition read_lock_account ::
  "thread_aware_account_locks \<Rightarrow> pubkey \<Rightarrow> nat \<Rightarrow> thread_aware_account_locks option" where
  "read_lock_account self account thread_id =
     (let l = entry_or_new self account in
      if (case ta_write_locks l of Some w \<Rightarrow> write_thread_id w \<noteq> thread_id | None \<Rightarrow> False) then None
      else if \<not> thread_id < MAX_THREADS then None
      else
        (case ta_read_locks l of
           Some r \<Rightarrow>
             Some (self\<lparr>locks := (locks self)(account \<mapsto> l\<lparr>ta_read_locks := Some
               \<lparr>read_thread_set = threads_insert (read_thread_set r) thread_id,
                read_lock_counts = (read_lock_counts r)[thread_id := read_lock_counts r ! thread_id + 1]\<rparr>\<rparr>)\<rparr>)
         | None \<Rightarrow>
             Some (self\<lparr>locks := (locks self)(account \<mapsto> l\<lparr>ta_read_locks := Some
               \<lparr>read_thread_set = threads_only thread_id,
                read_lock_counts = (replicate MAX_THREADS 0)[thread_id := 1]\<rparr>\<rparr>)\<rparr>)))"

definition read_unlock_account ::
  "thread_aware_account_locks \<Rightarrow> pubkey \<Rightarrow> nat \<Rightarrow> thread_aware_account_locks option" where
  "read_unlock_account self account thread_id =
     (case locks self account of
        None \<Rightarrow> None
      | Some l \<Rightarrow>
          (case ta_read_locks l of
             None \<Rightarrow> None
           | Some r \<Rightarrow>
               if \<not> threads_contains (read_thread_set r) thread_id then None
               else if \<not> thread_id < MAX_THREADS then None
               else
                 let count = read_lock_counts r ! thread_id - 1;
                     counts = (read_lock_counts r)[thread_id := count];
                     threads = (if count = 0 then threads_remove (read_thread_set r) thread_id
                                else read_thread_set r)
                 in if count = 0 \<and> threads_is_empty threads
                    then Some (self\<lparr>locks := (locks self)(account :=
                           (if ta_write_locks l = None then None else Some (l\<lparr>ta_read_locks := None\<rparr>)))\<rparr>)
                    else Some (self\<lparr>locks := (locks self)(account \<mapsto>
                           l\<lparr>ta_read_locks := Some
                             \<lparr>read_thread_set = threads, read_lock_counts = counts\<rparr>\<rparr>)\<rparr>)))"

text \<open>The loops over the write and then the read accounts.\<close>

fun each_account ::
  "('s \<Rightarrow> pubkey \<Rightarrow> nat \<Rightarrow> 's option) \<Rightarrow> 's \<Rightarrow> pubkey list \<Rightarrow> nat \<Rightarrow> 's option" where
  "each_account f self [] thread_id = Some self"
| "each_account f self (account # rest) thread_id =
     do { self' \<leftarrow> f self account thread_id; each_account f self' rest thread_id }"

definition thread_lock_accounts ::
  "thread_aware_account_locks \<Rightarrow> pubkey list \<Rightarrow> pubkey list \<Rightarrow> nat \<Rightarrow> thread_aware_account_locks option" where
  "thread_lock_accounts self write_account_locks read_account_locks thread_id =
     (if \<not> thread_id < num_threads self then None
      else do {
        self \<leftarrow> each_account write_lock_account self write_account_locks thread_id;
        each_account read_lock_account self read_account_locks thread_id
      })"

definition thread_unlock_accounts ::
  "thread_aware_account_locks \<Rightarrow> pubkey list \<Rightarrow> pubkey list \<Rightarrow> nat \<Rightarrow> thread_aware_account_locks option" where
  "thread_unlock_accounts self write_account_locks read_account_locks thread_id =
     do {
       self \<leftarrow> each_account write_unlock_account self write_account_locks thread_id;
       each_account read_unlock_account self read_account_locks thread_id
     }"

definition thread_try_lock_accounts ::
  "thread_aware_account_locks \<Rightarrow> pubkey list \<Rightarrow> pubkey list \<Rightarrow> thread_set \<Rightarrow> (thread_set \<Rightarrow> nat) \<Rightarrow>
   (thread_aware_account_locks \<times> (try_lock_error, nat) result) option" where
  "thread_try_lock_accounts self write_account_locks read_account_locks allowed_threads thread_selector =
     (case accounts_schedulable_threads self write_account_locks read_account_locks of
        None \<Rightarrow> None
      | Some None \<Rightarrow> Some (self, Inl MultipleConflicts)
      | Some (Some threads) \<Rightarrow>
          let threads = threads AND allowed_threads in
          if threads_is_empty threads then Some (self, Inl ThreadNotAllowed)
          else
            let thread_id = thread_selector threads in
            do {
              self' \<leftarrow> thread_lock_accounts self write_account_locks read_account_locks thread_id;
              Some (self', Inr thread_id)
            })"

section \<open>Thread sets as sets\<close>

lemma bit_as_flag: "t < 64 \<Longrightarrow> bit (as_flag t) i \<longleftrightarrow> i = t"
  unfolding as_flag_def MAX_THREADS_def bit_push_bit_iff by (auto simp: bit_1_iff)

lemma bit_less_64: "bit (w :: u64) i \<Longrightarrow> i < 64"
  using bit_imp_le_length [of w i] by simp

lemma bit_threads_any: "n \<le> 64 \<Longrightarrow> bit (threads_any n) i \<longleftrightarrow> i < n"
proof (cases "n = 64")
  case True
  then show ?thesis by (auto simp: threads_any_def MAX_THREADS_def dest: bit_less_64)
next
  case False
  assume "n \<le> 64"
  then have "threads_any n = mask n"
    using False by (simp add: threads_any_def MAX_THREADS_def as_flag_def mask_eq_exp_minus_1)
  then show ?thesis using \<open>n \<le> 64\<close> False by (auto simp: bit_mask_iff)
qed

lemma threads_contains_iff: "t < 64 \<Longrightarrow> threads_contains w t \<longleftrightarrow> bit w t"
  by (simp add: threads_contains_def as_flag_def MAX_THREADS_def bit_iff_and_push_bit_not_eq_0)

lemma bit_threads_insert: "t < 64 \<Longrightarrow> bit (threads_insert w t) i \<longleftrightarrow> bit w i \<or> i = t"
  by (simp add: threads_insert_def bit_or_iff bit_as_flag)

lemma bit_threads_remove: "t < 64 \<Longrightarrow> bit (threads_remove w t) i \<longleftrightarrow> bit w i \<and> i \<noteq> t"
  by (auto simp: threads_remove_def bit_and_iff bit_not_iff bit_as_flag dest: bit_less_64)

lemma threads_empty_iff: "threads_is_empty w \<longleftrightarrow> (\<forall>i. \<not> bit w i)"
  by (auto simp: threads_is_empty_def threads_none_def intro: bit_eqI)

lemma set_set_bits_of: "set (set_bits_of w) = {i. bit w i}"
  unfolding set_bits_of_def set_filter set_upt by (auto dest: bit_less_64)

lemma sorted_set_bits_of: "sorted (set_bits_of w)" "distinct (set_bits_of w)"
  unfolding set_bits_of_def by (rule sorted_wrt_filter [OF sorted_upt], rule distinct_filter [OF distinct_upt])

lemma only_one_contained_iff: "only_one_contained w = Some t \<longleftrightarrow> (\<forall>i. bit w i \<longleftrightarrow> i = t)"
proof -
  note dist = sorted_set_bits_of(2) [of w]
  have "only_one_contained w = Some t \<longleftrightarrow> set_bits_of w = [t]"
    by (auto simp: only_one_contained_def count_ones_def trailing_zeros_def length_Suc_conv split: list.splits)
  also have "\<dots> \<longleftrightarrow> set (set_bits_of w) = {t}"
    using dist by (rule distinct_singleton_iff)
  finally show ?thesis by (auto simp: set_set_bits_of)
qed

text \<open>Clearing the lowest bit: \<open>w & (w - 1)\<close>.\<close>

lemma set_bits_of_lowest:
  assumes "set_bits_of w = k # rest"
  shows "bit w k" "k < 64" "\<forall>i < k. \<not> bit w i"
proof -
  have "k \<in> set (set_bits_of w)" using assms by simp
  then show "bit w k" by (simp add: set_set_bits_of)
  then show "k < 64" by (rule bit_less_64)
  have "sorted (k # rest)" using sorted_set_bits_of(1) [of w] by (simp only: assms)
  then have "\<forall>i \<in> set (set_bits_of w). k \<le> i" by (auto simp: assms)
  then show "\<forall>i < k. \<not> bit w i" by (auto simp: set_set_bits_of)
qed

lemma clear_lowest_bit:
  assumes "bit (w :: u64) k" "\<forall>i < k. \<not> bit w i"
  shows "bit (w AND (w - 1)) i \<longleftrightarrow> bit w i \<and> i \<noteq> k"
proof -
  have k: "k < 64" using bit_less_64 [OF assms(1)] .
  define x where "x = w AND NOT (mask (Suc k))"
  have bit_x: "bit x i \<longleftrightarrow> bit w i \<and> k < i" for i
    by (auto simp: x_def bit_and_iff bit_not_iff bit_mask_iff dest: bit_less_64)
  have bit_k: "bit (push_bit k (1 :: u64)) i \<longleftrightarrow> i = k" for i
    unfolding bit_push_bit_iff using k by (auto simp: bit_1_iff)
  have bit_m: "bit (mask k :: u64) i \<longleftrightarrow> i < k" for i
    using k by (auto simp: bit_mask_iff)
  have "w = x OR push_bit k 1"
  proof (rule bit_eqI)
    fix n
    show "bit w n = bit (x OR push_bit k 1) n"
      unfolding bit_or_iff bit_x bit_k using assms by (metis linorder_neqE_nat)
  qed
  also have "\<dots> = x + push_bit k 1"
    by (rule disjunctive_add [symmetric], unfold bit_x bit_k) auto
  finally have "w - 1 = x + mask k" by (simp add: mask_eq_exp_minus_1 push_bit_eq_mult algebra_simps)
  also have "\<dots> = x OR mask k"
    by (rule disjunctive_add, unfold bit_x bit_m) auto
  finally have pred: "w - 1 = x OR mask k" .
  show ?thesis
    unfolding bit_and_iff pred bit_or_iff bit_x bit_m using assms(2) by (metis nat_neq_iff)
qed

lemma thread_set_next_bits:
  assumes "thread_set_next w = Some (t, w')"
  shows "set_bits_of w = t # set_bits_of w'"
proof -
  have "w \<noteq> 0" "w' = w AND (w - 1)" using assms by (auto simp: thread_set_next_def split: if_splits)
  then have "set (set_bits_of w) \<noteq> {}" using bit_eqI [of w 0] by (auto simp: set_set_bits_of)
  then obtain k rest where bits: "set_bits_of w = k # rest" by (cases "set_bits_of w") auto
  then have t: "t = k" using assms by (auto simp: thread_set_next_def trailing_zeros_def split: if_splits)
  note low = set_bits_of_lowest [OF bits]
  have "set_bits_of w' = filter (\<lambda>i. i \<noteq> k) (set_bits_of w)"
    unfolding set_bits_of_def filter_filter \<open>w' = _\<close>
    by (rule filter_cong) (simp_all add: clear_lowest_bit [OF low(1,3)])
  moreover have "k \<notin> set rest" using bits sorted_set_bits_of(2) [of w] by simp
  then have "filter (\<lambda>i. i \<noteq> k) rest = rest" by (auto simp: filter_id_conv)
  ultimately show ?thesis using bits t by simp
qed

text \<open>The iterator of the contained threads, run to its end.\<close>

function contained_threads :: "thread_set \<Rightarrow> nat list" where
  "contained_threads self =
     (case thread_set_next self of None \<Rightarrow> [] | Some (t, rest) \<Rightarrow> t # contained_threads rest)"
  by pat_completeness auto
termination
  by (relation "measure count_ones") (auto simp: count_ones_def dest: thread_set_next_bits)

declare contained_threads.simps [simp del]

lemma contained_threads_eq: "contained_threads w = set_bits_of w"
proof (induction w rule: contained_threads.induct)
  case (1 w)
  show ?case
  proof (cases "thread_set_next w")
    case None
    then have "w = 0" by (simp add: thread_set_next_def split: if_splits)
    then have "set (set_bits_of w) = {}" by (simp add: set_set_bits_of)
    then show ?thesis using None by (simp add: contained_threads.simps)
  next
    case (Some p)
    obtain t w' where p: "p = (t, w')" by (cases p)
    with Some 1 show ?thesis
      using thread_set_next_bits [of w t w'] by (simp add: contained_threads.simps [of w])
  qed
qed

section \<open>Well-formed tables and the locks they hold\<close>

text \<open>A lock is an account, whether it is taken for writing, and the thread that holds it.\<close>

type_synonym thread_lock = "pubkey \<times> bool \<times> nat"

fun entry_held :: "thread_account_locks option \<Rightarrow> bool \<Rightarrow> nat \<Rightarrow> nat" where
  "entry_held None w t = 0"
| "entry_held (Some l) True t =
     (case ta_write_locks l of
        Some x \<Rightarrow> if write_thread_id x = t then unat (write_lock_count x) else 0 | None \<Rightarrow> 0)"
| "entry_held (Some l) False t =
     (case ta_read_locks l of
        Some r \<Rightarrow> if t < 64 then unat (read_lock_counts r ! t) else 0 | None \<Rightarrow> 0)"

definition thread_held :: "thread_aware_account_locks \<Rightarrow> thread_lock \<Rightarrow> nat" where
  "thread_held self = (\<lambda>(a, w, t). entry_held (locks self a) w t)"

definition read_entry_wf :: "nat \<Rightarrow> account_read_locks \<Rightarrow> bool" where
  "read_entry_wf n r \<longleftrightarrow>
     length (read_lock_counts r) = 64 \<and>
     (\<forall>t < 64. bit (read_thread_set r) t \<longleftrightarrow> read_lock_counts r ! t \<noteq> 0) \<and>
     (\<forall>t. bit (read_thread_set r) t \<longrightarrow> t < n) \<and> (\<exists>t. bit (read_thread_set r) t)"

definition entry_wf :: "nat \<Rightarrow> thread_account_locks \<Rightarrow> bool" where
  "entry_wf n l \<longleftrightarrow>
     (ta_write_locks l \<noteq> None \<or> ta_read_locks l \<noteq> None) \<and>
     (\<forall>w. ta_write_locks l = Some w \<longrightarrow> write_thread_id w < n \<and> write_lock_count w \<noteq> 0) \<and>
     (\<forall>r. ta_read_locks l = Some r \<longrightarrow> read_entry_wf n r) \<and>
     (\<forall>w r. ta_write_locks l = Some w \<and> ta_read_locks l = Some r \<longrightarrow>
        (\<forall>t. bit (read_thread_set r) t \<longleftrightarrow> t = write_thread_id w))"

definition thread_locks_wf :: "thread_aware_account_locks \<Rightarrow> bool" where
  "thread_locks_wf self \<longleftrightarrow>
     0 < num_threads self \<and> num_threads self \<le> 64 \<and>
     (\<forall>a l. locks self a = Some l \<longrightarrow> entry_wf (num_threads self) l)"

text \<open>
  A thread may take a lock when no other thread holds the account for writing, nor, to take
  it for writing, for reading.
\<close>

definition thread_can :: "thread_aware_account_locks \<Rightarrow> thread_lock \<Rightarrow> bool" where
  "thread_can self = (\<lambda>(a, w, t). t < num_threads self \<and>
     (\<forall>t'. t' \<noteq> t \<longrightarrow> thread_held self (a, True, t') = 0 \<and> (w \<longrightarrow> thread_held self (a, False, t') = 0)))"

lemma read_held_bit:
  assumes "read_entry_wf n r" "ta_read_locks l = Some r"
  shows "entry_held (Some l) False t = 0 \<longleftrightarrow> \<not> bit (read_thread_set r) t"
  using assms by (cases "t < 64") (auto simp: read_entry_wf_def unat_eq_0 dest: bit_less_64)

lemma write_held_thread:
  assumes "write_lock_count w \<noteq> 0" "ta_write_locks l = Some w"
  shows "entry_held (Some l) True t = 0 \<longleftrightarrow> t \<noteq> write_thread_id w"
  using assms by (auto simp: unat_eq_0)

lemma thread_update:
  assumes wf: "thread_locks_wf self" and l': "\<And>l. e = Some l \<Longrightarrow> entry_wf (num_threads self) l"
  shows "thread_locks_wf (self\<lparr>locks := (locks self)(a := e)\<rparr>)"
    "thread_held (self\<lparr>locks := (locks self)(a := e)\<rparr>) (b, w, t) =
      (if b = a then entry_held e w t else thread_held self (b, w, t))"
  using assms by (auto simp: thread_locks_wf_def thread_held_def)

lemma write_lock_ok:
  assumes wf: "thread_locks_wf self" and can: "thread_can self (a, True, t)"
    and room: "thread_held self (a, True, t) + 1 < 2 ^ 32"
  shows "\<exists>e. write_lock_account self a t = Some (self\<lparr>locks := (locks self)(a := e)\<rparr>) \<and>
    (\<forall>l. e = Some l \<longrightarrow> entry_wf (num_threads self) l) \<and>
    (\<forall>w t'. entry_held e w t' = thread_held self (a, w, t') + (if w \<and> t' = t then 1 else 0))"
proof -
  have t: "t < num_threads self" "t < 64" using can wf by (auto simp: thread_can_def thread_locks_wf_def)
  have free: "\<And>t' w. t' \<noteq> t \<Longrightarrow> thread_held self (a, w, t') = 0"
    using can by (auto simp: thread_can_def) (metis (full_types))
  show ?thesis
  proof (cases "locks self a")
    case None
    let ?l = "\<lparr>ta_write_locks = Some \<lparr>write_thread_id = t, write_lock_count = 1\<rparr>, ta_read_locks = None\<rparr>"
    have "entry_held (Some ?l) w t' = thread_held self (a, w, t') + (if w \<and> t' = t then 1 else 0)" for w t'
      using None by (cases w) (simp_all add: thread_held_def)
    moreover have "entry_wf (num_threads self) ?l" using t by (simp add: entry_wf_def)
    ultimately show ?thesis
      using None by (intro exI [of _ "Some ?l"]) (simp add: write_lock_account_def entry_or_new_def)
  next
    case (Some l)
    have l: "entry_wf (num_threads self) l" using wf Some by (auto simp: thread_locks_wf_def)
    have one: "only_one_contained (read_thread_set r) = Some t" if "ta_read_locks l = Some r" for r
    proof -
      have r: "read_entry_wf (num_threads self) r" using l that by (auto simp: entry_wf_def)
      have "\<not> bit (read_thread_set r) i" if "i \<noteq> t" for i
        using free [of i False] that read_held_bit [OF r \<open>ta_read_locks l = Some r\<close>, of i] Some
        by (simp add: thread_held_def)
      then show ?thesis using r unfolding only_one_contained_iff read_entry_wf_def by metis
    qed
    have same: "write_thread_id w = t" "unat (write_lock_count w) + 1 < 2 ^ 32" if w: "ta_write_locks l = Some w" for w
    proof -
      have "write_lock_count w \<noteq> 0" using l w by (auto simp: entry_wf_def)
      then show "write_thread_id w = t"
        using write_held_thread [OF _ w, of "write_thread_id w"] free [of "write_thread_id w" True] Some
        by (auto simp: thread_held_def)
      then show "unat (write_lock_count w) + 1 < 2 ^ 32" using room w Some by (simp add: thread_held_def)
    qed
    let ?w = "case ta_write_locks l of Some w \<Rightarrow> w\<lparr>write_lock_count := write_lock_count w + 1\<rparr>
      | None \<Rightarrow> \<lparr>write_thread_id = t, write_lock_count = 1\<rparr>"
    let ?l = "l\<lparr>ta_write_locks := Some ?w\<rparr>"
    have w': "write_thread_id ?w = t" "unat (write_lock_count ?w) =
        (case ta_write_locks l of Some w \<Rightarrow> unat (write_lock_count w) | None \<Rightarrow> 0) + 1"
      using same by (auto simp: unat_add_no_wrap split: option.split)
    then have nz: "write_lock_count ?w \<noteq> 0" by (metis Suc_eq_plus1 nat.distinct(1) unat_0)
    have "entry_wf (num_threads self) ?l"
      using l t w' nz one by (auto simp: entry_wf_def only_one_contained_iff)
    moreover have "entry_held (Some ?l) w t' = thread_held self (a, w, t') + (if w \<and> t' = t then 1 else 0)" for w t'
      using Some w' same free [of t' w]
      by (cases w) (auto simp: thread_held_def split: option.splits)
    moreover have "write_lock_account self a t = Some (self\<lparr>locks := (locks self)(a \<mapsto> ?l)\<rparr>)"
      using Some one same by (auto simp: write_lock_account_def entry_or_new_def split: option.split)
    ultimately show ?thesis by (intro exI [of _ "Some ?l"]) simp
  qed
qed

lemma write_unlock_ok:
  assumes wf: "thread_locks_wf self" and held: "thread_held self (a, True, t) > 0"
  shows "\<exists>e. write_unlock_account self a t = Some (self\<lparr>locks := (locks self)(a := e)\<rparr>) \<and>
    (\<forall>l. e = Some l \<longrightarrow> entry_wf (num_threads self) l) \<and>
    (\<forall>w t'. entry_held e w t' = thread_held self (a, w, t') - (if w \<and> t' = t then 1 else 0))"
proof -
  obtain l w where l: "locks self a = Some l" "ta_write_locks l = Some w" "write_thread_id w = t"
    "write_lock_count w \<noteq> 0"
    using held
    by (cases "locks self a") (auto simp: thread_held_def unat_gt_0 split: option.splits if_splits)
  have ewf: "entry_wf (num_threads self) l" using wf l by (auto simp: thread_locks_wf_def)
  have dec: "unat (write_lock_count w - 1) = unat (write_lock_count w) - 1"
    using l(4) by (rule unat_minus_one)
  show ?thesis
  proof (cases "write_lock_count w - 1 = 0")
    case True
    let ?e = "if ta_read_locks l = None then None else Some (l\<lparr>ta_write_locks := None\<rparr>)"
    have "unat (write_lock_count w) \<le> 1" using dec True by simp
    then have "entry_held ?e b t' = thread_held self (a, b, t') - (if b \<and> t' = t then 1 else 0)" for b t'
      using l by (cases b) (auto simp: thread_held_def split: option.splits)
    moreover have "\<forall>l. ?e = Some l \<longrightarrow> entry_wf (num_threads self) l"
      using ewf by (auto simp: entry_wf_def split: if_splits)
    ultimately show ?thesis
      using l True by (intro exI [of _ ?e]) (simp add: write_unlock_account_def)
  next
    case False
    let ?e = "Some (l\<lparr>ta_write_locks := Some (w\<lparr>write_lock_count := write_lock_count w - 1\<rparr>)\<rparr>)"
    have "entry_held ?e b t' = thread_held self (a, b, t') - (if b \<and> t' = t then 1 else 0)" for b t'
      using l dec by (cases b) (auto simp: thread_held_def split: option.splits)
    moreover have "\<forall>l. ?e = Some l \<longrightarrow> entry_wf (num_threads self) l"
      using ewf False l by (auto simp: entry_wf_def)
    ultimately show ?thesis
      using l False by (intro exI [of _ ?e]) (simp add: write_unlock_account_def)
  qed
qed

lemma read_lock_ok:
  assumes wf: "thread_locks_wf self" and can: "thread_can self (a, False, t)"
    and room: "thread_held self (a, False, t) + 1 < 2 ^ 32"
  shows "\<exists>e. read_lock_account self a t = Some (self\<lparr>locks := (locks self)(a := e)\<rparr>) \<and>
    (\<forall>l. e = Some l \<longrightarrow> entry_wf (num_threads self) l) \<and>
    (\<forall>w t'. entry_held e w t' = thread_held self (a, w, t') + (if \<not> w \<and> t' = t then 1 else 0))"
proof -
  have t: "t < num_threads self" "t < 64" using can wf by (auto simp: thread_can_def thread_locks_wf_def)
  have free: "\<And>t'. t' \<noteq> t \<Longrightarrow> thread_held self (a, True, t') = 0" using can by (auto simp: thread_can_def)
  define l where "l = entry_or_new self a"
  have held: "entry_held (Some l) w t' = thread_held self (a, w, t')" for w t'
    by (cases w) (auto simp: l_def entry_or_new_def thread_held_def split: option.split)
  have lw: "write_thread_id w = t" "write_lock_count w \<noteq> 0" if w: "ta_write_locks l = Some w" for w
  proof -
    show nz: "write_lock_count w \<noteq> 0"
      using w wf by (auto simp: l_def entry_or_new_def thread_locks_wf_def entry_wf_def split: option.splits)
    show "write_thread_id w = t"
      using free [of "write_thread_id w"] write_held_thread [OF nz w, of "write_thread_id w"] held by metis
  qed
  have lr: "read_entry_wf (num_threads self) r"
    "ta_write_locks l = Some w \<Longrightarrow> (\<forall>t. bit (read_thread_set r) t \<longleftrightarrow> t = write_thread_id w)"
    if "ta_read_locks l = Some r" for r w
    using that wf by (auto simp: l_def entry_or_new_def thread_locks_wf_def entry_wf_def split: option.splits)
  let ?r = "case ta_read_locks l of
      Some r \<Rightarrow> \<lparr>read_thread_set = threads_insert (read_thread_set r) t,
        read_lock_counts = (read_lock_counts r)[t := read_lock_counts r ! t + 1]\<rparr>
    | None \<Rightarrow> \<lparr>read_thread_set = threads_only t, read_lock_counts = (replicate MAX_THREADS 0)[t := 1]\<rparr>"
  let ?l = "l\<lparr>ta_read_locks := Some ?r\<rparr>"
  have inc: "unat (read_lock_counts r ! t + 1) = unat (read_lock_counts r ! t) + 1"
    if "ta_read_locks l = Some r" for r
    using room that held [of False t] t by (simp add: unat_add_no_wrap)
  have "read_entry_wf (num_threads self) ?r"
  proof (cases "ta_read_locks l")
    case (Some r)
    have "read_lock_counts r ! t + 1 \<noteq> 0" using inc [OF Some] by (metis Suc_eq_plus1 nat.distinct(1) unat_0)
    then show ?thesis
      using lr(1) [OF Some] t Some
      by (auto simp: read_entry_wf_def bit_threads_insert nth_list_update)
  qed (use t in \<open>auto simp: read_entry_wf_def threads_only_def bit_as_flag nth_list_update MAX_THREADS_def\<close>)
  then have "entry_wf (num_threads self) ?l"
    using lw lr t
    by (auto simp: entry_wf_def bit_threads_insert threads_only_def bit_as_flag split: option.splits)
  moreover have "entry_held (Some ?l) w t' = thread_held self (a, w, t') + (if \<not> w \<and> t' = t then 1 else 0)" for w t'
    unfolding held [symmetric] using inc t lr(1)
    by (cases w) (auto simp: nth_list_update MAX_THREADS_def read_entry_wf_def split: option.split)
  moreover have "read_lock_account self a t = Some (self\<lparr>locks := (locks self)(a \<mapsto> ?l)\<rparr>)"
    using lw t by (auto simp: read_lock_account_def l_def [symmetric] MAX_THREADS_def split: option.splits)
  ultimately show ?thesis by (intro exI [of _ "Some ?l"]) simp
qed

lemma read_unlock_ok:
  assumes wf: "thread_locks_wf self" and held: "thread_held self (a, False, t) > 0"
  shows "\<exists>e. read_unlock_account self a t = Some (self\<lparr>locks := (locks self)(a := e)\<rparr>) \<and>
    (\<forall>l. e = Some l \<longrightarrow> entry_wf (num_threads self) l) \<and>
    (\<forall>w t'. entry_held e w t' = thread_held self (a, w, t') - (if \<not> w \<and> t' = t then 1 else 0))"
proof -
  obtain l r where l: "locks self a = Some l" "ta_read_locks l = Some r" "t < 64" "read_lock_counts r ! t \<noteq> 0"
    using held
    by (cases "locks self a") (auto simp: thread_held_def unat_gt_0 split: option.splits if_splits)
  have ewf: "entry_wf (num_threads self) l" using wf l by (auto simp: thread_locks_wf_def)
  then have rwf: "read_entry_wf (num_threads self) r" using l by (auto simp: entry_wf_def)
  then have bt: "bit (read_thread_set r) t" using l by (auto simp: read_entry_wf_def)
  have dec: "unat (read_lock_counts r ! t - 1) = unat (read_lock_counts r ! t) - 1"
    using l(4) by (rule unat_minus_one)
  define count where "count = read_lock_counts r ! t - 1"
  define threads where
    "threads = (if count = 0 then threads_remove (read_thread_set r) t else read_thread_set r)"
  have threads: "bit threads i \<longleftrightarrow> bit (read_thread_set r) i \<and> \<not> (i = t \<and> count = 0)" for i
    using l(3) by (auto simp: threads_def bit_threads_remove)
  have eq: "read_unlock_account self a t =
    (if count = 0 \<and> threads_is_empty threads
     then Some (self\<lparr>locks := (locks self)(a :=
       (if ta_write_locks l = None then None else Some (l\<lparr>ta_read_locks := None\<rparr>)))\<rparr>)
     else Some (self\<lparr>locks := (locks self)(a \<mapsto> l\<lparr>ta_read_locks := Some
       \<lparr>read_thread_set = threads, read_lock_counts = (read_lock_counts r)[t := count]\<rparr>\<rparr>)\<rparr>))"
    using l bt unfolding read_unlock_account_def threads_def count_def Let_def
    by (simp add: threads_contains_iff MAX_THREADS_def)
  show ?thesis
  proof (cases "count = 0 \<and> threads_is_empty threads")
    case True
    let ?e = "if ta_write_locks l = None then None else Some (l\<lparr>ta_read_locks := None\<rparr>)"
    have "read_lock_counts r ! t' = 0" if "t' \<noteq> t" "t' < 64" for t'
      using True that threads [of t'] rwf by (auto simp: threads_empty_iff read_entry_wf_def)
    moreover have "unat (read_lock_counts r ! t) \<le> 1" using dec True by (simp add: count_def)
    ultimately have "entry_held ?e w t' = thread_held self (a, w, t') - (if \<not> w \<and> t' = t then 1 else 0)" for w t'
      using l by (cases w) (auto simp: thread_held_def split: option.splits)
    moreover have "\<forall>l. ?e = Some l \<longrightarrow> entry_wf (num_threads self) l"
      using ewf by (auto simp: entry_wf_def split: if_splits)
    ultimately show ?thesis
      using True eq by (intro exI [of _ ?e]) (simp del: entry_held.simps)
  next
    case False
    let ?r = "\<lparr>read_thread_set = threads, read_lock_counts = (read_lock_counts r)[t := count]\<rparr>"
    let ?e = "Some (l\<lparr>ta_read_locks := Some ?r\<rparr>)"
    have "entry_held ?e w t' = thread_held self (a, w, t') - (if \<not> w \<and> t' = t then 1 else 0)" for w t'
      using l dec rwf
      by (cases w) (auto simp: thread_held_def nth_list_update read_entry_wf_def count_def split: option.splits)
    moreover have ne: "\<exists>i. bit threads i" using False threads bt by (auto simp: threads_empty_iff)
    then have "read_entry_wf (num_threads self) ?r"
      using rwf l(3) bt unfolding read_entry_wf_def by (auto simp: threads nth_list_update)
    moreover have "bit threads i \<longleftrightarrow> i = write_thread_id w" if "ta_write_locks l = Some w" for w i
      using ewf l(2) that ne threads by (auto simp: entry_wf_def)
    ultimately show ?thesis
      using eq [unfolded if_not_P [OF False]] ewf
      by (intro exI [of _ ?e] conjI) (simp_all add: entry_wf_def del: entry_held.simps)
  qed
qed

text \<open>What a well-formed table holds determines it.\<close>

lemma write_part_ext:
  assumes nz: "\<And>w. e = Some w \<Longrightarrow> write_lock_count w \<noteq> 0" "\<And>w. e' = Some w \<Longrightarrow> write_lock_count w \<noteq> 0"
    and h: "\<And>t. entry_held (Some \<lparr>ta_write_locks = e, ta_read_locks = r\<rparr>) True t =
      entry_held (Some \<lparr>ta_write_locks = e', ta_read_locks = r'\<rparr>) True t"
  shows "e = e'"
proof (cases e)
  case None
  show ?thesis
  proof (cases e')
    case (Some w)
    then show ?thesis using h [of "write_thread_id w"] nz(2) \<open>e = None\<close> by (simp add: unat_eq_0)
  qed (use None in simp)
next
  case (Some w)
  then have "unat (write_lock_count w) \<noteq> 0" using nz(1) by (simp add: unat_eq_0)
  then show ?thesis
    using h [of "write_thread_id w"] Some
    by (cases e') (auto simp: word_unat_eq_iff [symmetric] split: if_splits)
qed

lemma read_part_ext:
  assumes wf: "\<And>r. e = Some r \<Longrightarrow> read_entry_wf n r" "\<And>r. e' = Some r \<Longrightarrow> read_entry_wf n r"
    and h: "\<And>t. entry_held (Some \<lparr>ta_write_locks = w, ta_read_locks = e\<rparr>) False t =
      entry_held (Some \<lparr>ta_write_locks = w', ta_read_locks = e'\<rparr>) False t"
  shows "e = e'"
proof -
  let ?l = "\<lambda>e. \<lparr>ta_write_locks = w, ta_read_locks = e\<rparr>"
  have none: False if "read_entry_wf n r" "\<And>t. entry_held (Some (?l (Some r))) False t = 0" for r
    using that(2) read_held_bit [OF that(1), of "?l (Some r)"] that(1) by (auto simp: read_entry_wf_def)
  show ?thesis
  proof (cases "e = None \<or> e' = None")
    case True
    then show ?thesis using h wf none by (cases e; cases e') auto
  next
    case False
    then obtain r r' where r: "e = Some r" "e' = Some r'" by auto
    note rwf = wf(1) [OF r(1)] wf(2) [OF r(2)]
    have cnt: "read_lock_counts r ! t = read_lock_counts r' ! t" if "t < 64" for t
      using h [of t] r that by (simp add: word_unat_eq_iff)
    then have "read_lock_counts r = read_lock_counts r'"
      using rwf by (auto simp: read_entry_wf_def intro: nth_equalityI)
    moreover have "bit (read_thread_set r) t \<longleftrightarrow> bit (read_thread_set r') t" for t
      using rwf cnt [of t] by (cases "t < 64") (auto simp: read_entry_wf_def dest: bit_less_64)
    then have "read_thread_set r = read_thread_set r'" by (simp add: bit_eq_iff)
    ultimately show ?thesis using r by simp
  qed
qed

lemma entry_ext:
  assumes wf: "\<And>l. e = Some l \<Longrightarrow> entry_wf n l" "\<And>l. e' = Some l \<Longrightarrow> entry_wf n l"
    and h: "\<And>w t. entry_held e w t = entry_held e' w t"
  shows "e = e'"
proof -
  define wp where "wp e = Option.bind e ta_write_locks" for e :: "thread_account_locks option"
  define rp where "rp e = Option.bind e ta_read_locks" for e :: "thread_account_locks option"
  have held: "entry_held e w t = entry_held (Some \<lparr>ta_write_locks = wp e, ta_read_locks = rp e\<rparr>) w t" for e w t
    by (cases e; cases w) (simp_all add: wp_def rp_def)
  have "wp e = wp e'"
    using wf h [unfolded held [of e] held [of e']]
    by (intro write_part_ext) (auto simp: wp_def entry_wf_def bind_eq_Some_conv simp del: entry_held.simps)
  moreover have "rp e = rp e'"
    using wf h [unfolded held [of e] held [of e']]
    by (intro read_part_ext) (auto simp: rp_def entry_wf_def bind_eq_Some_conv simp del: entry_held.simps)
  moreover have "e = (if wp e = None \<and> rp e = None then None
      else Some \<lparr>ta_write_locks = wp e, ta_read_locks = rp e\<rparr>)" if "\<And>l. e = Some l \<Longrightarrow> entry_wf n l" for e
    using that by (cases e) (auto simp: wp_def rp_def entry_wf_def)
  ultimately show ?thesis using wf by metis
qed

lemma thread_held_ext:
  assumes wf: "thread_locks_wf s" "thread_locks_wf s'" "num_threads s = num_threads s'"
    and held: "\<And>k. thread_held s k = thread_held s' k"
  shows "s = s'"
proof -
  have "locks s a = locks s' a" for a
  proof (rule entry_ext [of _ "num_threads s"])
    show "entry_held (locks s a) w t = entry_held (locks s' a) w t" for w t
      using held [of "(a, w, t)"] by (simp add: thread_held_def)
  qed (use wf in \<open>auto simp: thread_locks_wf_def\<close>)
  then show ?thesis using wf(3) by (cases s; cases s') auto
qed

section \<open>Counted locks\<close>

text \<open>
  The contract of a table of counted locks whose operations may panic: a lock that can be taken
  and whose count has room is taken, a lock that is held is released, each changes one count by
  one, what a table holds determines it, and a lock never stands in the way of another lock of
  the same owner.
\<close>

locale counted_locks =
  fixes lock unlock :: "'s \<Rightarrow> 'k \<Rightarrow> 's option" and held :: "'s \<Rightarrow> 'k \<Rightarrow> nat"
    and wf :: "'s \<Rightarrow> bool" and shape :: "'s \<Rightarrow> 'n" and can :: "'s \<Rightarrow> 'k \<Rightarrow> bool"
    and owner :: "'k \<Rightarrow> 'o" and cap :: nat
  assumes lock_one: "wf s \<Longrightarrow> can s k \<Longrightarrow> held s k + 1 < cap \<Longrightarrow>
      \<exists>s'. lock s k = Some s' \<and> wf s' \<and> shape s' = shape s \<and>
        (\<forall>j. held s' j = held s j + (if j = k then 1 else 0))"
    and unlock_one: "wf s \<Longrightarrow> 0 < held s k \<Longrightarrow>
      \<exists>s'. unlock s k = Some s' \<and> wf s' \<and> shape s' = shape s \<and>
        (\<forall>j. held s' j = held s j - (if j = k then 1 else 0))"
    and held_ext: "wf s \<Longrightarrow> wf s' \<Longrightarrow> shape s = shape s' \<Longrightarrow> (\<And>k. held s k = held s' k) \<Longrightarrow> s = s'"
    and can_owner: "can s j \<Longrightarrow> shape s' = shape s \<Longrightarrow>
      (\<And>i. owner i \<noteq> owner j \<Longrightarrow> held s' i = held s i) \<Longrightarrow> can s' j"
begin

fun lock_all :: "'s \<Rightarrow> 'k list \<Rightarrow> 's option" where
  "lock_all s [] = Some s"
| "lock_all s (k # ks) = Option.bind (lock s k) (\<lambda>s'. lock_all s' ks)"

fun unlock_all :: "'s \<Rightarrow> 'k list \<Rightarrow> 's option" where
  "unlock_all s [] = Some s"
| "unlock_all s (k # ks) = Option.bind (unlock s k) (\<lambda>s'. unlock_all s' ks)"

lemma lock_all_ok:
  assumes "wf s" "\<And>k. k \<in> set ks \<Longrightarrow> can s k \<and> owner k = c" "\<And>k. k \<in> set ks \<Longrightarrow> held s k + count_list ks k < cap"
  shows "\<exists>s'. lock_all s ks = Some s' \<and> wf s' \<and> shape s' = shape s \<and> (\<forall>j. held s' j = held s j + count_list ks j)"
  using assms
proof (induction ks arbitrary: s)
  case (Cons k ks)
  have "held s k + 1 < cap" using Cons.prems(3) [of k] by simp
  moreover have "can s k" using Cons.prems(2) by simp
  ultimately obtain s1 where s1: "lock s k = Some s1" "wf s1" "shape s1 = shape s"
    "\<And>j. held s1 j = held s j + (if j = k then 1 else 0)"
    using lock_one [OF Cons.prems(1), of k] by blast
  have "\<exists>s'. lock_all s1 ks = Some s' \<and> wf s' \<and> shape s' = shape s1 \<and>
      (\<forall>j. held s' j = held s1 j + count_list ks j)"
  proof (rule Cons.IH [OF s1(2)])
    fix j assume j: "j \<in> set ks"
    have "owner k = c" "owner j = c" "can s j" using Cons.prems(2) j by auto
    then have "held s1 i = held s i" if "owner i \<noteq> owner j" for i using that s1(4) [of i] by auto
    then have "can s1 j" by (rule can_owner [OF \<open>can s j\<close> s1(3)])
    then show "can s1 j \<and> owner j = c" using Cons.prems(2) j by simp
    show "held s1 j + count_list ks j < cap" using Cons.prems(3) [of j] j s1(4) [of j] by (simp split: if_splits)
  qed
  then obtain s' where "lock_all s1 ks = Some s'" "wf s'" "shape s' = shape s1"
    "\<And>j. held s' j = held s1 j + count_list ks j" by blast
  then show ?case using s1 by (intro exI [of _ s']) simp
qed simp

lemma unlock_all_ok:
  assumes "wf s" "\<And>k. count_list ks k \<le> held s k"
  shows "\<exists>s'. unlock_all s ks = Some s' \<and> wf s' \<and> shape s' = shape s \<and> (\<forall>j. held s' j = held s j - count_list ks j)"
  using assms
proof (induction ks arbitrary: s)
  case (Cons k ks)
  have "0 < held s k" using Cons.prems(2) [of k] by simp
  then obtain s1 where s1: "unlock s k = Some s1" "wf s1" "shape s1 = shape s"
    "\<And>j. held s1 j = held s j - (if j = k then 1 else 0)"
    using unlock_one [OF Cons.prems(1), of k] by blast
  have "count_list ks j \<le> held s1 j" for j
    using Cons.prems(2) [of j] s1(4) [of j] by (simp split: if_splits)
  from Cons.IH [OF s1(2) this] obtain s' where "unlock_all s1 ks = Some s'" "wf s'"
    "shape s' = shape s1" "\<And>j. held s' j = held s1 j - count_list ks j" by blast
  then show ?case using s1 by (intro exI [of _ s']) simp
qed simp

lemma lock_unlock_all:
  assumes s: "wf s" and s': "wf s'" "shape s' = shape s" "\<And>j. held s' j = held s j + count_list ks j"
  shows "unlock_all s' ks = Some s"
proof -
  have "\<And>k. count_list ks k \<le> held s' k" using s'(3) by simp
  from unlock_all_ok [OF s'(1) this] obtain s'' where
    "unlock_all s' ks = Some s''" "wf s''" "shape s'' = shape s'" "\<And>j. held s'' j = held s' j - count_list ks j"
    by blast
  then show ?thesis using held_ext [of s'' s] s s' by simp
qed

end

definition thread_lock_one :: "thread_aware_account_locks \<Rightarrow> thread_lock \<Rightarrow> thread_aware_account_locks option" where
  "thread_lock_one self = (\<lambda>(a, w, t). if w then write_lock_account self a t else read_lock_account self a t)"

definition thread_unlock_one :: "thread_aware_account_locks \<Rightarrow> thread_lock \<Rightarrow> thread_aware_account_locks option" where
  "thread_unlock_one self = (\<lambda>(a, w, t). if w then write_unlock_account self a t else read_unlock_account self a t)"

lemma thread_step_key:
  assumes "thread_locks_wf s"
    and "\<exists>e. r = Some (s\<lparr>locks := (locks s)(a := e)\<rparr>) \<and>
      (\<forall>l. e = Some l \<longrightarrow> entry_wf (num_threads s) l) \<and>
      (\<forall>w t. entry_held e w t = f (thread_held s (a, w, t)) (if w = w0 \<and> t = t0 then 1 else (0 :: nat)))"
    and "\<And>x. f x 0 = x"
  shows "\<exists>s'. r = Some s' \<and> thread_locks_wf s' \<and> num_threads s' = num_threads s \<and>
    (\<forall>j. thread_held s' j = f (thread_held s j) (if j = (a, w0, t0) then 1 else 0))"
proof -
  obtain e where e: "r = Some (s\<lparr>locks := (locks s)(a := e)\<rparr>)" "\<And>l. e = Some l \<Longrightarrow> entry_wf (num_threads s) l"
    "\<And>w t. entry_held e w t = f (thread_held s (a, w, t)) (if w = w0 \<and> t = t0 then 1 else 0)"
    using assms(2) by blast
  note u = thread_update [OF assms(1) e(2)]
  have "thread_held (s\<lparr>locks := (locks s)(a := e)\<rparr>) j = f (thread_held s j) (if j = (a, w0, t0) then 1 else 0)" for j
    using u(2) e(3) assms(3) by (cases j) simp
  then show ?thesis using e(1) u(1) by simp
qed

interpretation tal: counted_locks thread_lock_one thread_unlock_one thread_held thread_locks_wf
  num_threads thread_can "\<lambda>(a, w, t). t" "2 ^ 32"
proof
  fix s :: thread_aware_account_locks and k :: thread_lock
  obtain a w t where k: "k = (a, w, t)" by (cases k)
  show "\<exists>s'. thread_lock_one s k = Some s' \<and> thread_locks_wf s' \<and> num_threads s' = num_threads s \<and>
      (\<forall>j. thread_held s' j = thread_held s j + (if j = k then 1 else 0))"
    if p: "thread_locks_wf s" "thread_can s k" "thread_held s k + 1 < 2 ^ 32"
    unfolding k thread_lock_one_def prod.case
    by (rule thread_step_key [OF p(1)])
      (use write_lock_ok [OF p(1), of a t] read_lock_ok [OF p(1), of a t] p(2,3) k in \<open>cases w; simp\<close>)+
  show "\<exists>s'. thread_unlock_one s k = Some s' \<and> thread_locks_wf s' \<and> num_threads s' = num_threads s \<and>
      (\<forall>j. thread_held s' j = thread_held s j - (if j = k then 1 else 0))"
    if p: "thread_locks_wf s" "0 < thread_held s k"
    unfolding k thread_unlock_one_def prod.case
    by (rule thread_step_key [OF p(1)])
      (use write_unlock_ok [OF p(1), of a t] read_unlock_ok [OF p(1), of a t] p(2) k in \<open>cases w; simp\<close>)+
next
  fix s s' :: thread_aware_account_locks and j :: thread_lock
  show "thread_can s' j" if "thread_can s j" "num_threads s' = num_threads s"
    "\<And>i. (case i of (a, w, t) \<Rightarrow> t) \<noteq> (case j of (a, w, t) \<Rightarrow> t) \<Longrightarrow> thread_held s' i = thread_held s i"
    using that by (auto simp: thread_can_def)
qed (rule thread_held_ext)

section \<open>Which threads a transaction may go to\<close>

lemma mixed_read_held:
  assumes e: "entry_wf n l" and w: "ta_write_locks l = Some x" and t: "t \<noteq> write_thread_id x"
  shows "entry_held (Some l) False t = 0"
proof (cases "ta_read_locks l")
  case (Some r)
  then have "read_entry_wf n r" "\<not> bit (read_thread_set r) t" using e w t by (simp_all add: entry_wf_def)
  then show ?thesis using read_held_bit [OF _ Some] by blast
qed simp

lemma write_held_exclusive:
  assumes wf: "thread_locks_wf s" and h: "0 < thread_held s (a, True, t)" and t': "t' \<noteq> t"
  shows "thread_held s (a, w, t') = 0"
proof -
  obtain l x where l: "locks s a = Some l" "ta_write_locks l = Some x" "write_thread_id x = t"
    using h by (cases "locks s a") (auto simp: thread_held_def split: option.splits if_splits)
  then have "entry_wf (num_threads s) l" using wf by (auto simp: thread_locks_wf_def)
  then have "entry_held (Some l) False t' = 0" using mixed_read_held l(2,3) t' by blast
  then show ?thesis using l t' by (cases w) (simp_all add: thread_held_def)
qed

lemma schedulable_threads_can:
  assumes wf: "thread_locks_wf s"
  shows "\<exists>T. schedulable_threads W s a = Some T \<and> (\<forall>t. bit T t \<longleftrightarrow> thread_can s (a, W, t))"
proof (cases "locks s a")
  case None
  then show ?thesis
    using wf by (auto simp: schedulable_threads_def thread_can_def thread_held_def thread_locks_wf_def bit_threads_any)
next
  case (Some l)
  have n: "num_threads s \<le> 64" using wf by (simp add: thread_locks_wf_def)
  have l: "entry_wf (num_threads s) l" using wf Some by (auto simp: thread_locks_wf_def)
  have can: "thread_can s (a, W, t) \<longleftrightarrow> t < num_threads s \<and>
      (\<forall>t'. t' \<noteq> t \<longrightarrow> entry_held (Some l) True t' = 0 \<and> (W \<longrightarrow> entry_held (Some l) False t' = 0))" for t
    using Some by (simp add: thread_can_def thread_held_def)
  show ?thesis
  proof (cases "ta_write_locks l")
    case None
    then obtain r where r: "ta_read_locks l = Some r" and rwf: "read_entry_wf (num_threads s) r"
      using l by (auto simp: entry_wf_def)
    have bits: "entry_held (Some l) False t = 0 \<longleftrightarrow> \<not> bit (read_thread_set r) t"
      and nowrite: "entry_held (Some l) True t = 0" for t
      using read_held_bit [OF rwf r] None by simp_all
    have lt: "\<And>t. bit (read_thread_set r) t \<Longrightarrow> t < num_threads s" and ex: "\<exists>t. bit (read_thread_set r) t"
      using rwf by (auto simp: read_entry_wf_def)
    have sch: "schedulable_threads W s a = Some (if W
        then (case only_one_contained (read_thread_set r) of Some t \<Rightarrow> threads_only t | None \<Rightarrow> threads_none)
        else threads_any (num_threads s))"
      using Some None r by (simp add: schedulable_threads_def)
    have "bit (case only_one_contained (read_thread_set r) of Some t \<Rightarrow> threads_only t | None \<Rightarrow> threads_none) t
        \<longleftrightarrow> t < num_threads s \<and> (\<forall>t'. t' \<noteq> t \<longrightarrow> \<not> bit (read_thread_set r) t')" for t
    proof (cases "only_one_contained (read_thread_set r)")
      case (Some t0)
      then have t0: "bit (read_thread_set r) i \<longleftrightarrow> i = t0" for i by (simp add: only_one_contained_iff)
      then have t0': "t0 < 64" "t0 < num_threads s" using lt [of t0] n by simp_all
      have "(\<forall>t'. t' \<noteq> t \<longrightarrow> \<not> bit (read_thread_set r) t') \<longleftrightarrow> t = t0" unfolding t0 by metis
      then show ?thesis using Some t0' by (auto simp: threads_only_def bit_as_flag)
    next
      case None
      then have "\<not> (\<forall>t'. t' \<noteq> t \<longrightarrow> \<not> bit (read_thread_set r) t')"
        using only_one_contained_iff [of "read_thread_set r" t] ex by auto
      then show ?thesis using None by (simp add: threads_none_def)
    qed
    then show ?thesis unfolding sch can bits nowrite using n by (simp add: bit_threads_any)
  next
    case (Some w)
    then have w: "write_thread_id w < num_threads s" "write_lock_count w \<noteq> 0" using l by (auto simp: entry_wf_def)
    have sch: "schedulable_threads W s a = Some (threads_only (write_thread_id w))"
    proof (cases "ta_read_locks l")
      case None
      then show ?thesis using \<open>locks s a = Some l\<close> Some by (simp add: schedulable_threads_def)
    next
      case r: (Some r)
      then have "bit (read_thread_set r) t \<longleftrightarrow> t = write_thread_id w" for t using l Some by (simp add: entry_wf_def)
      moreover from this have "read_thread_set r = threads_only (write_thread_id w)"
        using w n by (intro bit_eqI) (simp add: threads_only_def bit_as_flag)
      ultimately show ?thesis
        using \<open>locks s a = Some l\<close> Some r
        by (simp add: schedulable_threads_def only_one_contained_iff [THEN iffD2])
    qed
    have "thread_can s (a, W, t) \<longleftrightarrow> t = write_thread_id w" for t
      unfolding can write_held_thread [OF w(2) Some] using w(1) mixed_read_held [OF l Some] by metis
    then show ?thesis unfolding sch using w n by (simp add: threads_only_def bit_as_flag)
  qed
qed

lemma schedulable_loop_can:
  assumes wf: "thread_locks_wf s" and ne: "\<exists>t. bit T t"
  shows "\<exists>r. schedulable_loop W s T as = Some r \<and>
    (case r of None \<Rightarrow> \<not> (\<exists>t. bit T t \<and> (\<forall>a \<in> set as. thread_can s (a, W, t)))
     | Some T' \<Rightarrow> (\<exists>t. bit T' t) \<and>
         (\<forall>t. bit T' t \<longleftrightarrow> bit T t \<and> (\<forall>a \<in> set as. thread_can s (a, W, t))))"
  using ne
proof (induction as arbitrary: T)
  case (Cons a as)
  obtain H where H: "schedulable_threads W s a = Some H" "\<And>t. bit H t \<longleftrightarrow> thread_can s (a, W, t)"
    using schedulable_threads_can [OF wf, of W a] by blast
  show ?case
  proof (cases "threads_is_empty (T AND H)")
    case True
    then show ?thesis using H by (auto simp: threads_empty_iff bit_and_iff)
  next
    case False
    then have "\<exists>t. bit (T AND H) t" by (simp add: threads_empty_iff)
    from Cons.IH [OF this] obtain r where r: "schedulable_loop W s (T AND H) as = Some r"
      "case r of None \<Rightarrow> \<not> (\<exists>t. bit (T AND H) t \<and> (\<forall>a \<in> set as. thread_can s (a, W, t)))
        | Some T' \<Rightarrow> (\<exists>t. bit T' t) \<and> (\<forall>t. bit T' t \<longleftrightarrow> bit (T AND H) t \<and> (\<forall>a \<in> set as. thread_can s (a, W, t)))"
      by blast
    have "schedulable_loop W s T (a # as) = Some r" using H(1) False r(1) by simp
    moreover have "case r of None \<Rightarrow> \<not> (\<exists>t. bit T t \<and> (\<forall>a \<in> set (a # as). thread_can s (a, W, t)))
      | Some T' \<Rightarrow> (\<exists>t. bit T' t) \<and> (\<forall>t. bit T' t \<longleftrightarrow> bit T t \<and> (\<forall>a \<in> set (a # as). thread_can s (a, W, t)))"
      using r(2) H(2) by (cases r) (auto simp: bit_and_iff)
    ultimately show ?thesis by blast
  qed
qed auto

text \<open>The threads on which every account of a transaction can be locked.\<close>

definition can_take_all ::
  "thread_aware_account_locks \<Rightarrow> pubkey list \<Rightarrow> pubkey list \<Rightarrow> nat \<Rightarrow> bool" where
  "can_take_all s ws rs t \<longleftrightarrow> t < num_threads s \<and>
     (\<forall>a \<in> set ws. thread_can s (a, True, t)) \<and> (\<forall>a \<in> set rs. thread_can s (a, False, t))"

lemma accounts_schedulable_can:
  assumes wf: "thread_locks_wf s"
  shows "\<exists>r. accounts_schedulable_threads s ws rs = Some r \<and>
    (case r of None \<Rightarrow> \<not> (\<exists>t. can_take_all s ws rs t)
     | Some T \<Rightarrow> (\<exists>t. bit T t) \<and> (\<forall>t. bit T t \<longleftrightarrow> can_take_all s ws rs t))"
proof -
  have any: "bit (threads_any (num_threads s)) t \<longleftrightarrow> t < num_threads s" for t
    using wf by (simp add: thread_locks_wf_def bit_threads_any)
  moreover have "0 < num_threads s" using wf by (simp add: thread_locks_wf_def)
  ultimately have "\<exists>t. bit (threads_any (num_threads s)) t" by blast
  from schedulable_loop_can [OF wf this, of True ws] obtain r where
    r: "schedulable_loop True s (threads_any (num_threads s)) ws = Some r"
      "case r of None \<Rightarrow> \<not> (\<exists>t. t < num_threads s \<and> (\<forall>a \<in> set ws. thread_can s (a, True, t)))
       | Some T \<Rightarrow> (\<exists>t. bit T t) \<and> (\<forall>t. bit T t \<longleftrightarrow> t < num_threads s \<and> (\<forall>a \<in> set ws. thread_can s (a, True, t)))"
    unfolding any by blast
  show ?thesis
  proof (cases r)
    case None
    then show ?thesis using r by (auto simp: accounts_schedulable_threads_def can_take_all_def)
  next
    case (Some T)
    then have T: "\<exists>t. bit T t" "\<And>t. bit T t \<longleftrightarrow> t < num_threads s \<and> (\<forall>a \<in> set ws. thread_can s (a, True, t))"
      using r(2) by auto
    from schedulable_loop_can [OF wf T(1), of False rs] show ?thesis
      using r(1) Some unfolding accounts_schedulable_threads_def can_take_all_def T(2) conj_assoc by simp
  qed
qed

section \<open>The locks of transactions\<close>

definition thread_keys :: "pubkey list \<Rightarrow> pubkey list \<Rightarrow> nat \<Rightarrow> thread_lock list" where
  "thread_keys ws rs t = map (\<lambda>a. (a, True, t)) ws @ map (\<lambda>a. (a, False, t)) rs"

lemma each_account_lock:
  "each_account write_lock_account s ws t = tal.lock_all s (map (\<lambda>a. (a, True, t)) ws)"
  "each_account read_lock_account s rs t = tal.lock_all s (map (\<lambda>a. (a, False, t)) rs)"
  by (induction ws arbitrary: s, simp_all add: thread_lock_one_def)
    (induction rs arbitrary: s, simp_all add: thread_lock_one_def)

lemma each_account_unlock:
  "each_account write_unlock_account s ws t = tal.unlock_all s (map (\<lambda>a. (a, True, t)) ws)"
  "each_account read_unlock_account s rs t = tal.unlock_all s (map (\<lambda>a. (a, False, t)) rs)"
  by (induction ws arbitrary: s, simp_all add: thread_unlock_one_def)
    (induction rs arbitrary: s, simp_all add: thread_unlock_one_def)

lemma lock_all_append: "tal.lock_all s (ks @ js) = Option.bind (tal.lock_all s ks) (\<lambda>s. tal.lock_all s js)"
  by (induction ks arbitrary: s) (simp_all add: Option.bind_assoc)

lemma unlock_all_append: "tal.unlock_all s (ks @ js) = Option.bind (tal.unlock_all s ks) (\<lambda>s. tal.unlock_all s js)"
  by (induction ks arbitrary: s) (simp_all add: Option.bind_assoc)

lemma thread_lock_accounts_keys:
  "t < num_threads s \<Longrightarrow> thread_lock_accounts s ws rs t = tal.lock_all s (thread_keys ws rs t)"
  by (simp add: thread_lock_accounts_def each_account_lock thread_keys_def lock_all_append)

lemma thread_unlock_accounts_keys:
  "thread_unlock_accounts s ws rs t = tal.unlock_all s (thread_keys ws rs t)"
  by (simp add: thread_unlock_accounts_def each_account_unlock thread_keys_def unlock_all_append)

text \<open>Every lock count has room for the accounts of one more transaction.\<close>

definition locks_room :: "thread_aware_account_locks \<Rightarrow> pubkey list \<Rightarrow> pubkey list \<Rightarrow> bool" where
  "locks_room s ws rs \<longleftrightarrow> (\<forall>k. thread_held s k + length ws + length rs < 2 ^ 32)"

lemma thread_lock_accounts_ok:
  assumes "thread_locks_wf s" "can_take_all s ws rs t" "locks_room s ws rs"
  shows "\<exists>s'. thread_lock_accounts s ws rs t = Some s' \<and> thread_locks_wf s' \<and> num_threads s' = num_threads s \<and>
    (\<forall>k. thread_held s' k = thread_held s k + count_list (thread_keys ws rs t) k)"
proof -
  have "thread_held s k + count_list (thread_keys ws rs t) k < 2 ^ 32" for k
  proof -
    have "count_list (thread_keys ws rs t) k \<le> length (thread_keys ws rs t)" by (rule count_le_length)
    also have "\<dots> = length ws + length rs" by (simp add: thread_keys_def)
    finally show ?thesis
      using assms(3) [unfolded locks_room_def, THEN spec [of _ k]] by linarith
  qed
  moreover have "thread_can s k \<and> (case k of (a, w, t) \<Rightarrow> t) = t" if "k \<in> set (thread_keys ws rs t)" for k
    using that assms(2) by (auto simp: thread_keys_def can_take_all_def)
  moreover have "t < num_threads s" using assms(2) by (simp add: can_take_all_def)
  ultimately show ?thesis
    using tal.lock_all_ok [OF assms(1), of "thread_keys ws rs t" t] by (simp add: thread_lock_accounts_keys)
qed

lemma try_lock_cases:
  assumes wf: "thread_locks_wf s" and room: "locks_room s ws rs"
    and sel: "\<And>T. \<exists>t. bit T t \<Longrightarrow> bit T (sel T)"
  obtains (conflicts) "thread_try_lock_accounts s ws rs allowed sel = Some (s, Inl MultipleConflicts)"
      "\<not> (\<exists>t. can_take_all s ws rs t)"
  | (not_allowed) "thread_try_lock_accounts s ws rs allowed sel = Some (s, Inl ThreadNotAllowed)"
      "\<exists>t. can_take_all s ws rs t" "\<not> (\<exists>t. bit allowed t \<and> can_take_all s ws rs t)"
  | (locked) s' t where "thread_try_lock_accounts s ws rs allowed sel = Some (s', Inr t)"
      "bit allowed t" "can_take_all s ws rs t" "thread_locks_wf s'" "num_threads s' = num_threads s"
      "\<And>k. thread_held s' k = thread_held s k + count_list (thread_keys ws rs t) k"
proof -
  obtain r where r: "accounts_schedulable_threads s ws rs = Some r"
    "case r of None \<Rightarrow> \<not> (\<exists>t. can_take_all s ws rs t)
     | Some T \<Rightarrow> (\<exists>t. bit T t) \<and> (\<forall>t. bit T t \<longleftrightarrow> can_take_all s ws rs t)"
    using accounts_schedulable_can [OF wf, of ws rs] by blast
  show thesis
  proof (cases r)
    case None
    with r show thesis by (intro conflicts) (simp_all add: thread_try_lock_accounts_def)
  next
    case (Some T)
    then have T: "\<exists>t. bit T t" "\<And>t. bit T t \<longleftrightarrow> can_take_all s ws rs t" using r(2) by auto
    show thesis
    proof (cases "threads_is_empty (T AND allowed)")
      case True
      have "\<exists>t. can_take_all s ws rs t" using T by simp
      moreover have "\<not> (\<exists>t. bit allowed t \<and> can_take_all s ws rs t)"
        using True T(2) by (auto simp: threads_empty_iff bit_and_iff)
      ultimately show thesis
        using r(1) Some True by (intro not_allowed) (simp_all add: thread_try_lock_accounts_def)
    next
      case False
      define t where "t = sel (T AND allowed)"
      have "bit (T AND allowed) t" unfolding t_def by (rule sel) (use False in \<open>simp add: threads_empty_iff\<close>)
      then have t: "bit allowed t" "can_take_all s ws rs t" using T(2) by (auto simp: bit_and_iff)
      from thread_lock_accounts_ok [OF wf t(2) room] obtain s' where
        s': "thread_lock_accounts s ws rs t = Some s'" "thread_locks_wf s'" "num_threads s' = num_threads s"
          "\<And>k. thread_held s' k = thread_held s k + count_list (thread_keys ws rs t) k" by blast
      have "thread_try_lock_accounts s ws rs allowed sel = Some (s', Inr t)"
        using r(1) Some False s'(1) by (simp add: thread_try_lock_accounts_def t_def)
      from this t s'(2-4) show thesis by (rule locked)
    qed
  qed
qed

text \<open>
  A scheduler's use of the table: locks are taken with \<open>try_lock_accounts\<close>, whose selector picks
  one of the threads it is given, and what was locked is unlocked once on its thread.  The list
  holds the transactions that are locked.
\<close>

inductive thread_run ::
  "nat \<Rightarrow> thread_aware_account_locks \<Rightarrow> (pubkey list \<times> pubkey list \<times> nat) list \<Rightarrow> bool" for n where
  run_new: "thread_aware_new n = Some s \<Longrightarrow> thread_run n s []"
| run_locked: "thread_run n s out \<Longrightarrow> locks_room s ws rs \<Longrightarrow> (\<And>T. \<exists>t. bit T t \<Longrightarrow> bit T (sel T)) \<Longrightarrow>
    thread_try_lock_accounts s ws rs allowed sel = Some (s', Inr t) \<Longrightarrow> thread_run n s' ((ws, rs, t) # out)"
| run_refused: "thread_run n s out \<Longrightarrow> locks_room s ws rs \<Longrightarrow> (\<And>T. \<exists>t. bit T t \<Longrightarrow> bit T (sel T)) \<Longrightarrow>
    thread_try_lock_accounts s ws rs allowed sel = Some (s', Inl err) \<Longrightarrow> thread_run n s' out"
| run_unlocked: "thread_run n s (out1 @ (ws, rs, t) # out2) \<Longrightarrow>
    thread_unlock_accounts s ws rs t = Some s' \<Longrightarrow> thread_run n s' (out1 @ out2)"

definition held_by :: "(pubkey list \<times> pubkey list \<times> nat) list \<Rightarrow> thread_lock \<Rightarrow> nat" where
  "held_by out k = sum_list (map (\<lambda>(ws, rs, t). count_list (thread_keys ws rs t) k) out)"

lemma held_by_append [simp]: "held_by (out1 @ out2) k = held_by out1 k + held_by out2 k"
  by (simp add: held_by_def)

lemma held_by_Cons [simp]:
  "held_by ((ws, rs, t) # out) k = count_list (thread_keys ws rs t) k + held_by out k"
  by (simp add: held_by_def)

lemma unlock_held:
  assumes "thread_locks_wf s" "\<And>k. thread_held s k = held_by (out1 @ (ws, rs, t) # out2) k"
  shows "\<exists>s'. thread_unlock_accounts s ws rs t = Some s' \<and> thread_locks_wf s' \<and>
    num_threads s' = num_threads s \<and> (\<forall>k. thread_held s' k = held_by (out1 @ out2) k)"
  using tal.unlock_all_ok [OF assms(1), of "thread_keys ws rs t"] assms(2)
  unfolding thread_unlock_accounts_keys by auto

lemma try_lock_locked:
  assumes wf: "thread_locks_wf s" and room: "locks_room s ws rs"
    and sel: "\<And>T. \<exists>t. bit T t \<Longrightarrow> bit T (sel T)"
    and r: "thread_try_lock_accounts s ws rs allowed sel = Some (s', Inr t)"
  shows "thread_locks_wf s' \<and> num_threads s' = num_threads s \<and>
    (\<forall>k. thread_held s' k = thread_held s k + count_list (thread_keys ws rs t) k)"
  by (rule try_lock_cases [OF wf room sel, of allowed]) (simp_all add: r)

lemma try_lock_refused:
  assumes wf: "thread_locks_wf s" and room: "locks_room s ws rs"
    and sel: "\<And>T. \<exists>t. bit T t \<Longrightarrow> bit T (sel T)"
    and r: "thread_try_lock_accounts s ws rs allowed sel = Some (s', Inl err)"
  shows "s' = s"
  by (rule try_lock_cases [OF wf room sel, of allowed]) (simp_all add: r)

lemma thread_run_inv:
  assumes "thread_run n s out"
  shows "thread_locks_wf s \<and> num_threads s = n \<and> (\<forall>k. thread_held s k = held_by out k)"
  using assms
proof induction
  case (run_new s)
  then show ?case
    by (auto simp: thread_aware_new_def MAX_THREADS_def thread_locks_wf_def thread_held_def held_by_def
      split: if_splits)
next
  case (run_locked s out ws rs sel allowed s' t)
  then have "thread_locks_wf s" by simp
  from try_lock_locked [OF this run_locked.hyps(2) run_locked.hyps(3) run_locked.hyps(4)] run_locked.IH
  show ?case by simp
next
  case (run_refused s out ws rs sel allowed s' err)
  then have "thread_locks_wf s" by simp
  from try_lock_refused [OF this run_refused.hyps(2) run_refused.hyps(3) run_refused.hyps(4)] run_refused.IH
  show ?case by simp
next
  case (run_unlocked s out1 ws rs t out2 s')
  then have "thread_locks_wf s" "\<And>k. thread_held s k = held_by (out1 @ (ws, rs, t) # out2) k" by blast+
  from unlock_held [OF this] run_unlocked.IH run_unlocked.hyps(2) show ?case by auto
qed

lemma held_by_pos:
  assumes "(ws, rs, t) \<in> set out" "a \<in> set (if w then ws else rs)"
  shows "0 < held_by out (a, w, t)"
proof -
  obtain o1 o2 where out: "out = o1 @ (ws, rs, t) # o2" using assms(1) by (auto dest: split_list)
  have "(a, w, t) \<in> set (thread_keys ws rs t)" using assms(2) by (auto simp: thread_keys_def split: if_splits)
  then have "count_list (thread_keys ws rs t) (a, w, t) \<noteq> 0" by (simp add: count_list_0_iff)
  then show ?thesis by (simp add: out)
qed

lemma trailing_zeros_member: "\<exists>t. bit T t \<Longrightarrow> bit T (trailing_zeros T)"
  using set_set_bits_of [of T] by (cases "set_bits_of T") (auto simp: trailing_zeros_def)

lemma run_lock_on:
  assumes run: "thread_run n s out" and room: "locks_room s ws rs" and can: "can_take_all s ws rs t"
  shows "\<exists>s'. thread_try_lock_accounts s ws rs (threads_only t) trailing_zeros = Some (s', Inr t) \<and>
    thread_run n s' ((ws, rs, t) # out)"
proof -
  have wf: "thread_locks_wf s" using thread_run_inv [OF run] by simp
  have "t < 64" using can wf by (simp add: can_take_all_def thread_locks_wf_def)
  then have bits: "bit (threads_only t) i \<longleftrightarrow> i = t" for i by (simp add: threads_only_def bit_as_flag)
  obtain s' where "thread_try_lock_accounts s ws rs (threads_only t) trailing_zeros = Some (s', Inr t)"
    by (rule try_lock_cases [OF wf room trailing_zeros_member, of "threads_only t"]) (use can in \<open>auto simp: bits\<close>)
  then show ?thesis using run_locked [OF run room trailing_zeros_member] by blast
qed

text \<open>Two transactions on two threads, with a read account in common.\<close>

lemma run_example_start:
  "thread_run 2 \<lparr>num_threads = 2, locks = Map.empty\<rparr> []" "locks_room \<lparr>num_threads = 2, locks = Map.empty\<rparr> [1] [2]"
  "can_take_all \<lparr>num_threads = 2, locks = Map.empty\<rparr> [1] [2] 0"
  by (rule run_new)
    (simp_all add: thread_aware_new_def MAX_THREADS_def locks_room_def thread_held_def can_take_all_def thread_can_def)

lemma run_example:
  "\<exists>s. thread_run 2 s [([3], [2], 1), ([1], [2], 0)]"
proof -
  obtain s1 where s1: "thread_run 2 s1 [([1], [2], 0)]"
    using run_lock_on [OF run_example_start] by blast
  have held: "thread_held s1 k = held_by [([1], [2], 0)] k" "num_threads s1 = 2" for k
    using thread_run_inv [OF s1] by blast+
  have "locks_room s1 [3] [2]" "can_take_all s1 [3] [2] 1"
    by (auto simp: locks_room_def held held_by_def thread_keys_def can_take_all_def thread_can_def)
  then show ?thesis using run_lock_on [OF s1] by blast
qed

section \<open>Properties\<close>

text \<open> C10.  Threads never conflict: whatever sequence of \<open>try_lock_accounts\<close> and \<open>unlock_accounts\<close>
  a scheduler runs, two transactions that are locked on different threads at the same time do not
  share an account that one of them writes.\<close>

theorem thread_locks_conflict_free:
  assumes "thread_run n s out" "(ws1, rs1, t1) \<in> set out" "(ws2, rs2, t2) \<in> set out" "t1 \<noteq> t2"
  shows "set ws1 \<inter> (set ws2 \<union> set rs2) = {}"
proof -
  have wf: "thread_locks_wf s" and held: "\<And>k. thread_held s k = held_by out k"
    using thread_run_inv [OF assms(1)] by auto
  have False if "a \<in> set ws1" "a \<in> set (if w then ws2 else rs2)" for a w
    using write_held_exclusive [OF wf, of a t1 t2 w] held_by_pos [OF assms(2), of a True]
      held_by_pos [OF assms(3) that(2)] assms(4) that(1) held by simp
  from this [of _ True] this [of _ False] show ?thesis by auto
qed

lemma thread_locks_conflict_free_witness:
  "\<exists>s. thread_run 2 s [([3], [2], 1), ([1], [2], 0)] \<and> set [3 :: pubkey] \<inter> (set [1] \<union> set [2]) = {}"
  using run_example thread_locks_conflict_free [of 2 _ "[([3], [2], 1), ([1], [2], 0)]" "[3]" "[2]" 1 "[1]" "[2]" 0]
  by auto

text \<open> C28.  \<open>try_lock_accounts\<close> decides exactly and never panics: in every reachable table it takes
  all the locks on an allowed thread that can take them, each count growing by the number of
  times the account is listed; it reports \<open>MultipleConflicts\<close> exactly when no thread can take
  them all and \<open>ThreadNotAllowed\<close> exactly when some thread can but none that is allowed, and
  then the table is as before.\<close>

theorem try_lock_accounts_decides:
  assumes "thread_run n s out" "locks_room s ws rs" "\<And>T. \<exists>t. bit T t \<Longrightarrow> bit T (sel T)"
  shows "\<exists>s' r. thread_try_lock_accounts s ws rs allowed sel = Some (s', r) \<and>
    (case r of
       Inr t \<Rightarrow> bit allowed t \<and> can_take_all s ws rs t \<and>
         (\<forall>k. thread_held s' k = thread_held s k + count_list (thread_keys ws rs t) k)
     | Inl MultipleConflicts \<Rightarrow> s' = s \<and> (\<forall>t. \<not> can_take_all s ws rs t)
     | Inl ThreadNotAllowed \<Rightarrow> s' = s \<and> (\<exists>t. can_take_all s ws rs t) \<and>
         (\<forall>t. bit allowed t \<longrightarrow> \<not> can_take_all s ws rs t))"
proof -
  have wf: "thread_locks_wf s" using thread_run_inv [OF assms(1)] by simp
  show ?thesis
    by (rule try_lock_cases [OF wf assms(2) assms(3), of allowed]) simp_all
qed

lemma try_lock_accounts_decides_witness:
  "\<exists>s' r. thread_try_lock_accounts \<lparr>num_threads = 2, locks = Map.empty\<rparr> [1] [2] (threads_only 0) trailing_zeros
    = Some (s', r)"
  using try_lock_accounts_decides [OF run_example_start(1,2) trailing_zeros_member] by blast

text \<open> C29.  Unlocking undoes locking: the accounts of a transaction that was locked can be
  unlocked on its thread without a panic, and right after the lock this gives back the table
  there was before it.\<close>

theorem try_lock_unlock_roundtrip:
  assumes "thread_run n s out" "locks_room s ws rs" "\<And>T. \<exists>t. bit T t \<Longrightarrow> bit T (sel T)"
    and "thread_try_lock_accounts s ws rs allowed sel = Some (s', Inr t)"
  shows "thread_unlock_accounts s' ws rs t = Some s"
proof -
  have wf: "thread_locks_wf s" using thread_run_inv [OF assms(1)] by simp
  note s' = try_lock_locked [OF wf assms(2-4)]
  show ?thesis unfolding thread_unlock_accounts_keys by (rule tal.lock_unlock_all [OF wf]) (use s' in auto)
qed

lemma try_lock_unlock_roundtrip_witness:
  "\<exists>s'. thread_try_lock_accounts \<lparr>num_threads = 2, locks = Map.empty\<rparr> [1] [2] (threads_only 0) trailing_zeros
      = Some (s', Inr 0) \<and>
    thread_unlock_accounts s' [1] [2] 0 = Some \<lparr>num_threads = 2, locks = Map.empty\<rparr>"
  using run_lock_on [OF run_example_start]
    try_lock_unlock_roundtrip [OF run_example_start(1,2) trailing_zeros_member] by blast

text \<open> C30.  Nothing leaks: in every reachable table each locked transaction can be unlocked
  without a panic, in any order, and when all are unlocked the table has no entry left.\<close>

theorem unlock_accounts_no_leak:
  assumes "thread_run n s out"
  shows "(\<forall>(ws, rs, t) \<in> set out. thread_unlock_accounts s ws rs t \<noteq> None) \<and>
    (out = [] \<longrightarrow> locks s = Map.empty)"
proof (intro conjI impI ballI)
  note inv = thread_run_inv [OF assms]
  then have wf: "thread_locks_wf s" and held: "\<And>k. thread_held s k = held_by out k" by auto
  fix x assume "x \<in> set out"
  moreover obtain ws rs t where "x = (ws, rs, t)" by (cases x)
  ultimately obtain o1 o2 where "out = o1 @ (ws, rs, t) # o2" "x = (ws, rs, t)" by (auto dest: split_list)
  then show "case x of (ws, rs, t) \<Rightarrow> thread_unlock_accounts s ws rs t \<noteq> None"
    using unlock_held [OF wf, of o1 ws rs t o2] held by auto
next
  note inv = thread_run_inv [OF assms]
  assume "out = []"
  then have "s = \<lparr>num_threads = num_threads s, locks = Map.empty\<rparr>"
    using inv by (intro thread_held_ext) (auto simp: thread_locks_wf_def thread_held_def held_by_def)
  then show "locks s = Map.empty" by (cases s) simp
qed

lemma unlock_accounts_no_leak_witness:
  "\<exists>s. thread_run 2 s [([3], [2], 1), ([1], [2], 0)] \<and> thread_unlock_accounts s [1] [2] 0 \<noteq> None"
  using run_example unlock_accounts_no_leak [of 2 _ "[([3], [2], 1), ([1], [2], 0)]"] by auto

text \<open> The thread set iterator, which takes the lowest set bit and clears it with
  \<open>w & (w - 1)\<close> until the word is zero, ends and yields the members of the set, each once and in
  ascending order.\<close>

lemma contained_threads_ascending:
  "sorted (contained_threads w) \<and> distinct (contained_threads w) \<and>
   set (contained_threads w) = {t. bit w t} \<and> length (contained_threads w) = count_ones w"
  unfolding contained_threads_eq set_set_bits_of count_ones_def using sorted_set_bits_of [of w] by simp

end
