(* ===== verification/Tower_Vote_State.thy ===== *)
theory Tower_Vote_State
  imports Prelude "HOL-Library.Monad_Syntax"
begin

text \<open>
  The stack of lockouts of a validator (core/src/consensus/tower_vote_state.rs).

  A \<open>Lockout\<close> comes from the vote program's interface crate: its operations are the parameter
  \<open>lockout_api\<close>, and the locale \<open>lockout_laws\<close> names what the tower relies on.  \<open>None\<close> is a panic.
\<close>

section \<open>The interface of a lockout\<close>

record 'l lockout_api =
  lk_max_lockout_history :: nat
  lk_new :: "slot \<Rightarrow> 'l"
  lk_slot :: "'l \<Rightarrow> slot"
  lk_confirmation_count :: "'l \<Rightarrow> u32"
  lk_increase_confirmation_count :: "u32 \<Rightarrow> 'l \<Rightarrow> 'l"
  lk_last_locked_out_slot :: "'l \<Rightarrow> slot"
  lk_is_locked_out_at_slot :: "'l \<Rightarrow> slot \<Rightarrow> bool"

locale lockout_laws =
  fixes api :: "'l lockout_api"
  assumes history_pos: "0 < lk_max_lockout_history api"
    and history_small: "lk_max_lockout_history api < 2 ^ 31"
    and slot_new: "lk_slot api (lk_new api s) = s"
    and count_new: "lk_confirmation_count api (lk_new api s) = 1"
    and slot_increase: "lk_slot api (lk_increase_confirmation_count api n l) = lk_slot api l"
    and count_increase: "unat (lk_confirmation_count api l) + 1 < 2 ^ 32 \<Longrightarrow>
          lk_confirmation_count api (lk_increase_confirmation_count api 1 l) = lk_confirmation_count api l + 1"
    and locked_out_iff: "lk_is_locked_out_at_slot api l s \<longleftrightarrow> s \<le> lk_last_locked_out_slot api l"

section \<open>The vote state\<close>

record 'l tower_vote_state =
  tvs_votes :: "'l list"
  tvs_root_slot :: "slot option"

definition default_tower_vote_state :: "'l tower_vote_state" where
  "default_tower_vote_state = \<lparr>tvs_votes = [], tvs_root_slot = None\<rparr>"

definition tvs_tower :: "'l lockout_api \<Rightarrow> 'l tower_vote_state \<Rightarrow> slot list" where
  "tvs_tower api self = map (lk_slot api) (tvs_votes self)"

definition last_lockout :: "'l tower_vote_state \<Rightarrow> 'l option" where
  "last_lockout self = (if tvs_votes self = [] then None else Some (last (tvs_votes self)))"

definition tvs_last_voted_slot :: "'l lockout_api \<Rightarrow> 'l tower_vote_state \<Rightarrow> slot option" where
  "tvs_last_voted_slot api self = map_option (lk_slot api) (last_lockout self)"

definition nth_recent_lockout :: "'l tower_vote_state \<Rightarrow> nat \<Rightarrow> 'l option" where
  "nth_recent_lockout self position =
     (if position + 1 \<le> length (tvs_votes self)
      then Some (tvs_votes self ! (length (tvs_votes self) - (position + 1))) else None)"

text \<open>The loop of \<open>pop_expired_votes\<close> on the votes from the newest to the oldest.\<close>

primrec pop_expired_loop :: "'l lockout_api \<Rightarrow> slot \<Rightarrow> 'l list \<Rightarrow> 'l list" where
  "pop_expired_loop api next_vote_slot [] = []"
| "pop_expired_loop api next_vote_slot (vote # older) =
     (if \<not> lk_is_locked_out_at_slot api vote next_vote_slot
      then pop_expired_loop api next_vote_slot older else vote # older)"

definition pop_expired_votes :: "'l lockout_api \<Rightarrow> slot \<Rightarrow> 'l tower_vote_state \<Rightarrow> 'l tower_vote_state" where
  "pop_expired_votes api next_vote_slot self =
     self\<lparr>tvs_votes := rev (pop_expired_loop api next_vote_slot (rev (tvs_votes self)))\<rparr>"

fun double_lockouts_loop :: "'l lockout_api \<Rightarrow> nat \<Rightarrow> nat \<Rightarrow> 'l list \<Rightarrow> 'l list option" where
  "double_lockouts_loop api stack_depth i [] = Some []"
| "double_lockouts_loop api stack_depth i (v # vs) =
     (if i + unat (lk_confirmation_count api v) < 2 ^ 64
      then do {
        rest \<leftarrow> double_lockouts_loop api stack_depth (i + 1) vs;
        Some ((if stack_depth > i + unat (lk_confirmation_count api v)
               then lk_increase_confirmation_count api 1 v else v) # rest)
      }
      else None)"

definition double_lockouts :: "'l lockout_api \<Rightarrow> 'l tower_vote_state \<Rightarrow> 'l tower_vote_state option" where
  "double_lockouts api self =
     do {
       votes \<leftarrow> double_lockouts_loop api (length (tvs_votes self)) 0 (tvs_votes self);
       Some (self\<lparr>tvs_votes := votes\<rparr>)
     }"

text \<open>The oldest vote of a full stack becomes the root.\<close>

definition root_oldest :: "'l lockout_api \<Rightarrow> 'l tower_vote_state \<Rightarrow> 'l tower_vote_state option" where
  "root_oldest api self =
     (if length (tvs_votes self) = lk_max_lockout_history api
      then
        (case tvs_votes self of
           [] \<Rightarrow> None
         | rooted_vote # votes \<Rightarrow> Some \<lparr>tvs_votes = votes, tvs_root_slot = Some (lk_slot api rooted_vote)\<rparr>)
      else Some self)"

definition process_next_vote_slot :: "'l lockout_api \<Rightarrow> slot \<Rightarrow> 'l tower_vote_state \<Rightarrow> 'l tower_vote_state option" where
  "process_next_vote_slot api next_vote_slot self =
     (if (case tvs_last_voted_slot api self of Some last_voted_slot \<Rightarrow> next_vote_slot \<le> last_voted_slot | None \<Rightarrow> False)
      then Some self
      else do {
        self \<leftarrow> root_oldest api (pop_expired_votes api next_vote_slot self);
        double_lockouts api (self\<lparr>tvs_votes := tvs_votes self @ [lk_new api next_vote_slot]\<rparr>)
      })"

section \<open>Well-formed stacks\<close>

text \<open>
  A well-formed stack is not longer than the history.  Its slots grow from the root to the newest vote,
  and the confirmation counts fall.  A vote has been confirmed at least once by itself and by every
  vote above it, and its count leaves room for the votes below.
\<close>

definition counts_ok :: "'l lockout_api \<Rightarrow> 'l list \<Rightarrow> bool" where
  "counts_ok api votes \<longleftrightarrow>
     (\<forall>i < length votes. length votes \<le> i + unat (lk_confirmation_count api (votes ! i))
        \<and> i + unat (lk_confirmation_count api (votes ! i)) \<le> lk_max_lockout_history api)"

definition wf_tower :: "'l lockout_api \<Rightarrow> 'l tower_vote_state \<Rightarrow> bool" where
  "wf_tower api self \<longleftrightarrow>
     length (tvs_votes self) \<le> lk_max_lockout_history api
   \<and> sorted_wrt (\<lambda>u v. lk_slot api u < lk_slot api v) (tvs_votes self)
   \<and> (\<forall>r v. tvs_root_slot self = Some r \<longrightarrow> v \<in> set (tvs_votes self) \<longrightarrow> r < lk_slot api v)
   \<and> sorted_wrt (\<lambda>u v. lk_confirmation_count api u > lk_confirmation_count api v) (tvs_votes self)
   \<and> counts_ok api (tvs_votes self)"

text \<open>The same without the relation to the root, which a vote older than the root breaks.\<close>

definition wf_stack :: "'l lockout_api \<Rightarrow> 'l tower_vote_state \<Rightarrow> bool" where
  "wf_stack api self \<longleftrightarrow> wf_tower api (self\<lparr>tvs_root_slot := None\<rparr>)"

text \<open>The next vote is newer than every vote of the stack, and than the root.\<close>

definition newer :: "'l lockout_api \<Rightarrow> slot \<Rightarrow> 'l tower_vote_state \<Rightarrow> bool" where
  "newer api s self \<longleftrightarrow>
     (\<forall>v \<in> set (tvs_votes self). lk_slot api v < s) \<and> (\<forall>r. tvs_root_slot self = Some r \<longrightarrow> r < s)"

lemma pop_expired_loop_dropWhile:
  "pop_expired_loop api s votes = dropWhile (\<lambda>v. \<not> lk_is_locked_out_at_slot api v s) votes"
  by (induction votes) auto

text \<open>Popping keeps a lower part of the stack, and every vote that is still locked out is in it.\<close>

lemma pop_expired_prefix:
  "\<exists>expired. votes = rev (pop_expired_loop api s (rev votes)) @ expired
     \<and> (\<forall>v \<in> set expired. \<not> lk_is_locked_out_at_slot api v s)"
proof -
  let ?P = "\<lambda>v. \<not> lk_is_locked_out_at_slot api v s"
  have "rev votes = takeWhile ?P (rev votes) @ dropWhile ?P (rev votes)" by simp
  then have "votes = rev (dropWhile ?P (rev votes)) @ rev (takeWhile ?P (rev votes))"
    by (metis rev_append rev_rev_ident)
  moreover have "\<forall>v \<in> set (rev (takeWhile ?P (rev votes))). ?P v" by (auto dest: set_takeWhileD)
  ultimately show ?thesis unfolding pop_expired_loop_dropWhile by blast
qed

lemma counts_ok_prefix: "counts_ok api (xs @ ys) \<Longrightarrow> counts_ok api xs"
  unfolding counts_ok_def
proof (intro allI impI)
  fix i
  assume all: "\<forall>i < length (xs @ ys). length (xs @ ys) \<le> i + unat (lk_confirmation_count api ((xs @ ys) ! i))
      \<and> i + unat (lk_confirmation_count api ((xs @ ys) ! i)) \<le> lk_max_lockout_history api"
    and i: "i < length xs"
  have "i < length (xs @ ys)" using i by simp
  then show "length xs \<le> i + unat (lk_confirmation_count api (xs ! i))
      \<and> i + unat (lk_confirmation_count api (xs ! i)) \<le> lk_max_lockout_history api"
    using all [rule_format, of i] i by (simp add: nth_append)
qed

lemma counts_ok_tl:
  assumes "counts_ok api votes" "length votes = n"
    and "i < length (tl votes)"
  shows "n \<le> i + 1 + unat (lk_confirmation_count api (tl votes ! i))"
    and "i + 1 + unat (lk_confirmation_count api (tl votes ! i)) \<le> lk_max_lockout_history api"
proof -
  have "i + 1 < length votes" using assms(3) by simp
  then show "n \<le> i + 1 + unat (lk_confirmation_count api (tl votes ! i))"
    "i + 1 + unat (lk_confirmation_count api (tl votes ! i)) \<le> lk_max_lockout_history api"
    using assms(1,2) by (auto simp: counts_ok_def nth_tl)
qed

lemma wf_tower_prefix:
  assumes "wf_tower api self" "tvs_votes self = xs @ ys"
  shows "wf_tower api (self\<lparr>tvs_votes := xs\<rparr>)"
  using assms by (auto simp: wf_tower_def sorted_wrt_append intro: counts_ok_prefix)

lemma double_lockouts_loop_ok:
  assumes "\<And>j. j < length vs \<Longrightarrow> i + j + unat (lk_confirmation_count api (vs ! j)) < 2 ^ 64"
  shows "\<exists>vs'. double_lockouts_loop api n i vs = Some vs' \<and> length vs' = length vs
    \<and> (\<forall>j < length vs. vs' ! j = (if n > i + j + unat (lk_confirmation_count api (vs ! j))
         then lk_increase_confirmation_count api 1 (vs ! j) else vs ! j))"
  using assms
proof (induction vs arbitrary: i)
  case Nil
  then show ?case by simp
next
  case (Cons v vs)
  have "i + 1 + j + unat (lk_confirmation_count api (vs ! j)) < 2 ^ 64" if "j < length vs" for j
    using Cons.prems [of "Suc j"] that by simp
  then obtain vs' where vs': "double_lockouts_loop api n (i + 1) vs = Some vs'" "length vs' = length vs"
    "\<forall>j < length vs. vs' ! j = (if n > i + 1 + j + unat (lk_confirmation_count api (vs ! j))
         then lk_increase_confirmation_count api 1 (vs ! j) else vs ! j)"
    using Cons.IH [of "i + 1"] by blast
  have "i + unat (lk_confirmation_count api v) < 2 ^ 64" using Cons.prems [of 0] by simp
  then show ?case using vs' by (auto simp: nth_Cons split: nat.splits)
qed

context lockout_laws
begin

text \<open>A vote pushed on the stack confirms the others: the count of each rises to the number of votes from it up.\<close>

lemma push_counts:
  assumes ok: "counts_ok api votes" and room: "length votes < lk_max_lockout_history api"
  shows "\<exists>vs'. double_lockouts_loop api (length votes + 1) 0 (votes @ [lk_new api s]) = Some vs'
    \<and> length vs' = length votes + 1 \<and> map (lk_slot api) vs' = map (lk_slot api) votes @ [s]
    \<and> (\<forall>j \<le> length votes. unat (lk_confirmation_count api (vs' ! j)) =
         (if j < length votes then max (unat (lk_confirmation_count api (votes ! j))) (length votes + 1 - j) else 1))"
proof -
  let ?vs = "votes @ [lk_new api s]" and ?n = "length votes + 1"
  let ?c = "\<lambda>j. unat (lk_confirmation_count api (?vs ! j))"
  have c: "length votes \<le> j + ?c j" "j + ?c j \<le> lk_max_lockout_history api" if "j < length votes" for j
    using ok that by (auto simp: counts_ok_def nth_append)
  have new: "?c (length votes) = 1" by (simp add: count_new)
  have bound: "j + ?c j \<le> lk_max_lockout_history api" if "j < ?n" for j
    using c(2) [of j] new room that by (cases "j < length votes") (auto simp: less_Suc_eq)
  have "0 + j + ?c j < 2 ^ 64" if "j < length ?vs" for j
  proof -
    have "j + ?c j < 2 ^ 31" using bound [of j] that history_small by simp
    also have "(2 :: nat) ^ 31 \<le> 2 ^ 64" by simp
    finally show ?thesis by simp
  qed
  from double_lockouts_loop_ok [OF this, of ?n] obtain vs' where
    vs': "double_lockouts_loop api ?n 0 ?vs = Some vs'" "length vs' = ?n" and
    at: "\<And>j. j < ?n \<Longrightarrow> vs' ! j = (if ?n > j + ?c j then lk_increase_confirmation_count api 1 (?vs ! j) else ?vs ! j)"
    by auto
  have slots: "map (lk_slot api) vs' = map (lk_slot api) ?vs"
    using vs'(2) by (intro nth_equalityI) (auto simp: at slot_increase simp del: map_append)
  have count: "unat (lk_confirmation_count api (vs' ! j)) = max (?c j) (?n - j)" if "j < ?n" for j
  proof (cases "?n > j + ?c j")
    case True
    have "?c j + 1 < 2 ^ 32" using bound [OF that] history_small by simp
    then have "unat (lk_confirmation_count api (?vs ! j) + 1) = ?c j + 1"
      by (subst unat_add_no_wrap) simp_all
    moreover have "?n = j + ?c j + 1" using True c(1) [of j] new that by (cases "j < length votes") auto
    ultimately show ?thesis using True at [OF that] \<open>?c j + 1 < 2 ^ 32\<close> by (simp add: count_increase)
  qed (use at [OF that] in simp)
  have "unat (lk_confirmation_count api (vs' ! j)) =
      (if j < length votes then max (unat (lk_confirmation_count api (votes ! j))) (?n - j) else 1)" if "j \<le> length votes" for j
    using count [of j] new that by (auto simp: nth_append)
  then show ?thesis using vs' slots slot_new by simp
qed

lemma push_wf:
  assumes wf: "wf_tower api self" and newer: "newer api s self"
    and room: "length (tvs_votes self) < lk_max_lockout_history api"
  shows "\<exists>self'. double_lockouts api (self\<lparr>tvs_votes := tvs_votes self @ [lk_new api s]\<rparr>) = Some self'
    \<and> wf_tower api self' \<and> tvs_tower api self' = tvs_tower api self @ [s]
    \<and> tvs_root_slot self' = tvs_root_slot self"
proof -
  let ?votes = "tvs_votes self" and ?max = "lk_max_lockout_history api"
  have ok: "counts_ok api ?votes"
    and dec: "sorted_wrt (\<lambda>u v. lk_confirmation_count api u > lk_confirmation_count api v) ?votes"
    and inc: "sorted_wrt (\<lambda>u v. lk_slot api u < lk_slot api v) ?votes"
    using wf by (simp_all add: wf_tower_def)
  obtain vs' where vs': "double_lockouts_loop api (length ?votes + 1) 0 (?votes @ [lk_new api s]) = Some vs'"
    "length vs' = length ?votes + 1" "map (lk_slot api) vs' = map (lk_slot api) ?votes @ [s]" and
    count: "\<And>j. j \<le> length ?votes \<Longrightarrow> unat (lk_confirmation_count api (vs' ! j)) =
         (if j < length ?votes then max (unat (lk_confirmation_count api (?votes ! j))) (length ?votes + 1 - j) else 1)"
    using push_counts [OF ok room, of s] by blast
  have "counts_ok api vs'"
    unfolding counts_ok_def vs'(2) using ok room by (auto simp: count counts_ok_def less_Suc_eq_le split: if_splits)
  moreover have "sorted_wrt (\<lambda>u v. lk_confirmation_count api u > lk_confirmation_count api v) vs'"
    unfolding sorted_wrt_iff_nth_less
  proof (intro allI impI)
    fix i j assume ij: "i < j" "j < length vs'"
    have "unat (lk_confirmation_count api (?votes ! j)) < unat (lk_confirmation_count api (?votes ! i))" if "j < length ?votes"
      using dec ij that by (simp add: sorted_wrt_iff_nth_less word_less_nat_alt)
    then show "lk_confirmation_count api (vs' ! i) > lk_confirmation_count api (vs' ! j)"
      using ij vs'(2) count [of i] count [of j] by (auto simp: word_less_nat_alt split: if_splits)
  qed
  moreover have "sorted_wrt (<) (map (lk_slot api) vs')"
    unfolding vs'(3) using inc newer by (auto simp: sorted_wrt_append sorted_wrt_map newer_def)
  moreover have "set (map (lk_slot api) vs') = insert s (lk_slot api ` set ?votes)" unfolding vs'(3) by simp
  then have "\<forall>v \<in> set vs'. lk_slot api v = s \<or> lk_slot api v \<in> lk_slot api ` set ?votes" by auto
  then have "\<forall>r v. tvs_root_slot self = Some r \<longrightarrow> v \<in> set vs' \<longrightarrow> r < lk_slot api v"
    using wf newer by (fastforce simp: wf_tower_def newer_def)
  ultimately have "wf_tower api (self\<lparr>tvs_votes := vs'\<rparr>)"
    using room vs'(2) by (simp add: wf_tower_def sorted_wrt_map)
  then show ?thesis using vs'(1,3) by (simp add: double_lockouts_def tvs_tower_def)
qed

text \<open>Rooting the oldest vote of a full stack leaves a well-formed stack with room for one vote.\<close>

lemma root_oldest_wf:
  assumes wf: "wf_tower api self"
  shows "\<exists>self'. root_oldest api self = Some self' \<and> wf_tower api self' \<and> length (tvs_votes self') < lk_max_lockout_history api
    \<and> (tvs_votes self' = tvs_votes self \<and> tvs_root_slot self' = tvs_root_slot self
       \<or> (\<exists>v. tvs_votes self = v # tvs_votes self' \<and> tvs_root_slot self' = Some (lk_slot api v)))"
proof (cases "length (tvs_votes self) = lk_max_lockout_history api")
  case False
  then have "length (tvs_votes self) < lk_max_lockout_history api" using wf by (simp add: wf_tower_def)
  then show ?thesis using False wf by (simp add: root_oldest_def)
next
  case True
  then obtain v votes where v: "tvs_votes self = v # votes" using history_pos by (cases "tvs_votes self") auto
  have "counts_ok api votes"
    using counts_ok_tl [of api "v # votes" "length votes + 1"] wf v unfolding counts_ok_def [of api votes]
    by (fastforce simp: wf_tower_def)
  then have "wf_tower api \<lparr>tvs_votes = votes, tvs_root_slot = Some (lk_slot api v)\<rparr>"
    using wf v by (simp add: wf_tower_def)
  then show ?thesis using True v by (simp add: root_oldest_def)
qed

lemma process_newer:
  assumes wf: "wf_tower api self" and newer: "newer api s self"
  shows "\<exists>self' kept expired. process_next_vote_slot api s self = Some self' \<and> wf_tower api self'
    \<and> tvs_votes self = kept @ expired \<and> (\<forall>v \<in> set expired. \<not> lk_is_locked_out_at_slot api v s)
    \<and> (tvs_tower api self' = map (lk_slot api) kept @ [s] \<and> tvs_root_slot self' = tvs_root_slot self
       \<or> (\<exists>v rest. kept = v # rest \<and> tvs_tower api self' = map (lk_slot api) rest @ [s] \<and> tvs_root_slot self' = Some (lk_slot api v)))"
proof -
  let ?kept = "rev (pop_expired_loop api s (rev (tvs_votes self)))"
  obtain expired where votes: "tvs_votes self = ?kept @ expired"
    and expired: "\<forall>v \<in> set expired. \<not> lk_is_locked_out_at_slot api v s"
    using pop_expired_prefix [of "tvs_votes self" api s] by blast
  have popped: "pop_expired_votes api s self = self\<lparr>tvs_votes := ?kept\<rparr>" by (simp add: pop_expired_votes_def)
  have wf1: "wf_tower api (self\<lparr>tvs_votes := ?kept\<rparr>)" using wf votes by (rule wf_tower_prefix)
  obtain self1 where self1: "root_oldest api (self\<lparr>tvs_votes := ?kept\<rparr>) = Some self1" "wf_tower api self1"
    "length (tvs_votes self1) < lk_max_lockout_history api" and
    rooted: "tvs_votes self1 = ?kept \<and> tvs_root_slot self1 = tvs_root_slot self
       \<or> (\<exists>v. ?kept = v # tvs_votes self1 \<and> tvs_root_slot self1 = Some (lk_slot api v))"
    using root_oldest_wf [OF wf1] by auto
  have sub: "set ?kept \<subseteq> set (tvs_votes self)" using arg_cong [OF votes, of set] by auto
  have "set (tvs_votes self1) \<subseteq> set ?kept" using rooted by (metis order_refl set_subset_Cons)
  then have "newer api s self1"
    using newer rooted sub unfolding newer_def by (metis list.set_intros(1) option.inject subsetD)
  then obtain self' where self': "double_lockouts api (self1\<lparr>tvs_votes := tvs_votes self1 @ [lk_new api s]\<rparr>) = Some self'"
    "wf_tower api self'" "tvs_tower api self' = tvs_tower api self1 @ [s]" "tvs_root_slot self' = tvs_root_slot self1"
    using push_wf [OF self1(2) _ self1(3)] by blast
  have "tvs_last_voted_slot api self = Some l \<Longrightarrow> l < s" for l
    using newer by (auto simp: tvs_last_voted_slot_def last_lockout_def newer_def split: if_splits)
  then have "process_next_vote_slot api s self = Some self'"
    using self1(1) self'(1) by (auto simp: process_next_vote_slot_def popped not_le split: option.splits)
  then show ?thesis using self' rooted votes expired unfolding tvs_tower_def by metis
qed

lemma process_older:
  assumes "tvs_last_voted_slot api self = Some l" "s \<le> l"
  shows "process_next_vote_slot api s self = Some self"
  using assms by (simp add: process_next_vote_slot_def)

lemma newer_than_last:
  assumes wf: "wf_tower api self" and last: "\<And>l. tvs_last_voted_slot api self = Some l \<Longrightarrow> l < s"
    and root: "\<And>r. tvs_votes self = [] \<Longrightarrow> tvs_root_slot self = Some r \<Longrightarrow> r < s"
  shows "newer api s self"
proof (cases "tvs_votes self = []")
  case True
  then show ?thesis using root by (simp add: newer_def)
next
  case False
  then have l: "lk_slot api (last (tvs_votes self)) < s" using last by (simp add: tvs_last_voted_slot_def last_lockout_def)
  have "lk_slot api v \<le> lk_slot api (last (tvs_votes self))" if "v \<in> set (tvs_votes self)" for v
    using wf that by (cases "tvs_votes self" rule: rev_cases) (auto simp: wf_tower_def sorted_wrt_append)
  then have "\<forall>v \<in> set (tvs_votes self). lk_slot api v < s" using l by (meson le_less_trans)
  moreover have "r < s" if "tvs_root_slot self = Some r" for r
  proof -
    have "r < lk_slot api (last (tvs_votes self))" using wf that last_in_set [OF False] by (auto simp: wf_tower_def)
    then show ?thesis using l by (rule less_trans)
  qed
  ultimately show ?thesis by (simp add: newer_def)
qed

end

section \<open>The type of the tower is kept\<close>

text \<open>Voting for a sequence of slots.\<close>

primrec process_vote_slots :: "'l lockout_api \<Rightarrow> slot list \<Rightarrow> 'l tower_vote_state \<Rightarrow> 'l tower_vote_state option" where
  "process_vote_slots api [] self = Some self"
| "process_vote_slots api (s # slots) self =
     Option.bind (process_next_vote_slot api s self) (process_vote_slots api slots)"

lemma process_step_wf:
  assumes api: "lockout_laws api" and wf: "wf_tower api self"
    and root: "\<And>r. tvs_votes self = [] \<Longrightarrow> tvs_root_slot self = Some r \<Longrightarrow> r < s"
  shows "\<exists>self'. process_next_vote_slot api s self = Some self' \<and> wf_tower api self' \<and> tvs_votes self' \<noteq> []"
proof (cases "\<exists>l. tvs_last_voted_slot api self = Some l \<and> s \<le> l")
  case True
  then have "tvs_votes self \<noteq> []" by (auto simp: tvs_last_voted_slot_def last_lockout_def)
  then show ?thesis using True wf lockout_laws.process_older [OF api] by blast
next
  case False
  have "newer api s self"
    by (rule lockout_laws.newer_than_last [OF api wf]) (use False root in \<open>auto simp: not_le\<close>)
  then obtain self' where "process_next_vote_slot api s self = Some self'" "wf_tower api self'" "tvs_tower api self' \<noteq> []"
    using lockout_laws.process_newer [OF api wf] by fastforce
  then show ?thesis by (auto simp: tvs_tower_def)
qed

text \<open>The votes of the new stack do not depend on the root.\<close>

lemma wf_stack_votes: "tvs_votes self' = tvs_votes self \<Longrightarrow> wf_stack api self' = wf_stack api self"
  by (simp add: wf_stack_def wf_tower_def)

lemma wf_tower_stack: "wf_tower api self \<Longrightarrow> wf_stack api self"
  by (simp add: wf_stack_def wf_tower_def)

lemma process_votes_of_root:
  "map_option tvs_votes (process_next_vote_slot api s (self\<lparr>tvs_root_slot := r\<rparr>)) =
   map_option tvs_votes (process_next_vote_slot api s self)"
proof -
  have "map_option tvs_votes (double_lockouts api x) = double_lockouts_loop api (length (tvs_votes x)) 0 (tvs_votes x)" for x
    by (cases "double_lockouts_loop api (length (tvs_votes x)) 0 (tvs_votes x)") (simp_all add: double_lockouts_def)
  then show ?thesis
    by (simp add: process_next_vote_slot_def tvs_last_voted_slot_def last_lockout_def pop_expired_votes_def root_oldest_def
      split: option.splits list.splits)
qed

lemma process_step_stack:
  assumes api: "lockout_laws api" and stack: "wf_stack api self"
  shows "\<exists>self'. process_next_vote_slot api s self = Some self' \<and> wf_stack api self'"
proof -
  obtain x where x: "process_next_vote_slot api s (self\<lparr>tvs_root_slot := None\<rparr>) = Some x" "wf_tower api x"
    using process_step_wf [OF api stack [unfolded wf_stack_def], of s] by auto
  then obtain self' where "process_next_vote_slot api s self = Some self'" "tvs_votes self' = tvs_votes x"
    using process_votes_of_root [where api = api and s = s and self = self and r = None]
    by (cases "process_next_vote_slot api s self") auto
  then show ?thesis using wf_stack_votes wf_tower_stack [OF x(2)] by blast
qed

lemma process_slots_wf:
  assumes api: "lockout_laws api"
  shows "wf_tower api self \<Longrightarrow>
    tvs_votes self \<noteq> [] \<or> (\<forall>s \<in> set slots. \<forall>r. tvs_root_slot self = Some r \<longrightarrow> r < s) \<Longrightarrow>
    \<exists>self'. process_vote_slots api slots self = Some self' \<and> wf_tower api self'"
proof (induction slots arbitrary: self)
  case (Cons s slots)
  obtain self' where "process_next_vote_slot api s self = Some self'" "wf_tower api self'" "tvs_votes self' \<noteq> []"
    using process_step_wf [OF api Cons.prems(1), of s] Cons.prems(2) by auto
  then show ?case using Cons.IH [of self'] by simp
qed simp

lemma process_slots_stack:
  assumes api: "lockout_laws api"
  shows "wf_stack api self \<Longrightarrow> \<exists>self'. process_vote_slots api slots self = Some self' \<and> wf_stack api self'"
proof (induction slots arbitrary: self)
  case (Cons s slots)
  obtain self' where "process_next_vote_slot api s self = Some self'" "wf_stack api self'"
    using process_step_stack [OF api Cons.prems, of s] by blast
  then show ?case using Cons.IH [of self'] by simp
qed simp

text \<open>
  C17.  Whatever slots a validator votes for, the arithmetic of its tower does not panic and its stack of votes
  stays well formed: it never holds more votes than the lockout history, their slots grow strictly,
  and their confirmation counts fall strictly and never exceed what the history leaves.  If moreover the
  tower starts well formed, which adds that its votes are above its root, and is not asked to vote below
  that root, then the votes stay above the root, also when the root moves.
\<close>

theorem tower_stays_well_formed:
  assumes "lockout_laws api" and "wf_stack api self"
  shows "\<exists>self'. process_vote_slots api slots self = Some self' \<and> wf_stack api self'
    \<and> (wf_tower api self \<and> (\<forall>s \<in> set slots. \<forall>r. tvs_root_slot self = Some r \<longrightarrow> r < s) \<longrightarrow> wf_tower api self')"
proof -
  obtain self' where self': "process_vote_slots api slots self = Some self'" "wf_stack api self'"
    using process_slots_stack [OF assms, of slots] by blast
  moreover have "wf_tower api self'"
    if "wf_tower api self" "\<forall>s \<in> set slots. \<forall>r. tvs_root_slot self = Some r \<longrightarrow> r < s"
    using process_slots_wf [OF assms(1) that(1), of slots] that(2) self'(1) by auto
  ultimately show ?thesis by blast
qed

section \<open>The lockouts of the vote program\<close>

text \<open>
  The documented lockout: it doubles with every confirmation up to the length of the history, and the
  vote is locked out up to its slot plus the lockout.
\<close>

record vote_lockout =
  vl_slot :: slot
  vl_confirmation_count :: u32

definition vote_lockout_api :: "vote_lockout lockout_api" where
  "vote_lockout_api =
     (let end_of = (\<lambda>l. sat_add (vl_slot l) (2 ^ min (unat (vl_confirmation_count l)) 31)) in
      \<lparr>lk_max_lockout_history = 31, lk_new = (\<lambda>s. \<lparr>vl_slot = s, vl_confirmation_count = 1\<rparr>), lk_slot = vl_slot,
       lk_confirmation_count = vl_confirmation_count,
       lk_increase_confirmation_count = (\<lambda>n l. l\<lparr>vl_confirmation_count := sat_add (vl_confirmation_count l) n\<rparr>),
       lk_last_locked_out_slot = end_of, lk_is_locked_out_at_slot = (\<lambda>l s. s \<le> end_of l)\<rparr>)"

interpretation vote_lockouts: lockout_laws vote_lockout_api
  by unfold_locales (simp_all add: vote_lockout_api_def Let_def sat_add_def)

lemma tower_stays_well_formed_witness:
  "\<exists>self'. process_vote_slots vote_lockout_api [1, 2, 2, 3, 7, 40] default_tower_vote_state = Some self'
     \<and> wf_tower vote_lockout_api self'"
  using tower_stays_well_formed [OF vote_lockouts.lockout_laws_axioms, of default_tower_vote_state "[1, 2, 2, 3, 7, 40]"]
  by (auto simp: default_tower_vote_state_def wf_stack_def wf_tower_def counts_ok_def)

end
