(* ===== verification/Tower.thy ===== *)
theory Tower
  imports Latest_Votes Tower_Vote_State
begin

text \<open>
  The tower of a validator (core/src/consensus.rs): recording votes, the lockout check, the threshold
  checks, the decision to switch forks, the adjustment after a restart, and the stakes a bank's vote
  accounts put on the slots.

  The votes are those of \<open>Tower_Vote_State\<close>, the fork choice that of \<open>Fork_Choice\<close>, and the latest votes
  those of \<open>Latest_Votes\<close>.  Outside the model are the comparison of a quotient of floating point
  numbers with a threshold, the slot history and the clock; they are parameters.  A hash set of slots
  is a list, a hash map that is iterated comes with the order of its keys, and \<open>None\<close> is a panic.
\<close>

section \<open>Data\<close>

record ('l, 'f) tower_env =
  te_api :: "'l lockout_api"
  te_ratio_exceeds :: "u64 \<Rightarrow> u64 \<Rightarrow> 'f \<Rightarrow> bool"
  te_vote_threshold_size :: 'f
  te_switch_fork_threshold :: 'f
  te_duplicate_threshold :: 'f

datatype threshold_decision = PassedThreshold | FailedThreshold u64 u64

definition threshold_passed :: "threshold_decision \<Rightarrow> bool" where
  "threshold_passed d = (case d of PassedThreshold \<Rightarrow> True | FailedThreshold _ _ \<Rightarrow> False)"

datatype switch_fork_decision = SwitchProof hash | SameFork | FailedSwitchThreshold u64 u64
  | FailedSwitchDuplicateRollback slot

definition can_vote :: "switch_fork_decision \<Rightarrow> bool" where
  "can_vote d =
     (case d of
        FailedSwitchThreshold _ _ \<Rightarrow> False
      | FailedSwitchDuplicateRollback _ \<Rightarrow> False
      | SameFork \<Rightarrow> True
      | SwitchProof _ \<Rightarrow> True)"

definition VOTE_THRESHOLD_DEPTH_SHALLOW :: nat where "VOTE_THRESHOLD_DEPTH_SHALLOW = 4"
definition VOTE_THRESHOLD_DEPTH :: nat where "VOTE_THRESHOLD_DEPTH = 8"

datatype blockhash_status = Uninitialized | NonVoting | HotSpare | Blockhash hash

text \<open>A vote as it is sent: its slots or lockouts, the root, the bank hash, the block id, the timestamp.\<close>

datatype 'l vote_transaction =
  Vote "slot list" hash "int option"
| VoteStateUpdate "'l list" "slot option" hash "int option"
| CompactVoteStateUpdate "'l list" "slot option" hash "int option"
| TowerSync "'l list" "slot option" hash hash "int option"

fun vt_slots :: "'l lockout_api \<Rightarrow> 'l vote_transaction \<Rightarrow> slot list" where
  "vt_slots api (Vote slots _ _) = slots"
| "vt_slots api (VoteStateUpdate lockouts _ _ _) = map (lk_slot api) lockouts"
| "vt_slots api (CompactVoteStateUpdate lockouts _ _ _) = map (lk_slot api) lockouts"
| "vt_slots api (TowerSync lockouts _ _ _ _) = map (lk_slot api) lockouts"

definition vt_slot :: "'l lockout_api \<Rightarrow> 'l vote_transaction \<Rightarrow> nat \<Rightarrow> slot option" where
  "vt_slot api v i = (if i < length (vt_slots api v) then Some (vt_slots api v ! i) else None)"

fun vt_len :: "'l vote_transaction \<Rightarrow> nat" where
  "vt_len (Vote slots _ _) = length slots"
| "vt_len (VoteStateUpdate lockouts _ _ _) = length lockouts"
| "vt_len (CompactVoteStateUpdate lockouts _ _ _) = length lockouts"
| "vt_len (TowerSync lockouts _ _ _ _) = length lockouts"

definition vt_is_empty :: "'l vote_transaction \<Rightarrow> bool" where
  "vt_is_empty v \<longleftrightarrow> vt_len v = 0"

fun vt_hash :: "'l vote_transaction \<Rightarrow> hash" where
  "vt_hash (Vote _ h _) = h"
| "vt_hash (VoteStateUpdate _ _ h _) = h"
| "vt_hash (CompactVoteStateUpdate _ _ h _) = h"
| "vt_hash (TowerSync _ _ h _ _) = h"

fun vt_timestamp :: "'l vote_transaction \<Rightarrow> int option" where
  "vt_timestamp (Vote _ _ ts) = ts"
| "vt_timestamp (VoteStateUpdate _ _ _ ts) = ts"
| "vt_timestamp (CompactVoteStateUpdate _ _ _ ts) = ts"
| "vt_timestamp (TowerSync _ _ _ _ ts) = ts"

fun vt_set_timestamp :: "int option \<Rightarrow> 'l vote_transaction \<Rightarrow> 'l vote_transaction" where
  "vt_set_timestamp ts (Vote slots h _) = Vote slots h ts"
| "vt_set_timestamp ts (VoteStateUpdate lockouts r h _) = VoteStateUpdate lockouts r h ts"
| "vt_set_timestamp ts (CompactVoteStateUpdate lockouts r h _) = CompactVoteStateUpdate lockouts r h ts"
| "vt_set_timestamp ts (TowerSync lockouts r h b _) = TowerSync lockouts r h b ts"

definition vt_last_voted_slot :: "'l lockout_api \<Rightarrow> 'l vote_transaction \<Rightarrow> slot option" where
  "vt_last_voted_slot api v = (if vt_slots api v = [] then None else Some (last (vt_slots api v)))"

record ('l, 'f) tower =
  tw_node_pubkey :: pubkey
  tw_threshold_depth :: nat
  tw_threshold_size :: 'f
  tw_vote_state :: "'l tower_vote_state"
  tw_last_vote :: "'l vote_transaction"
  tw_last_vote_tx_blockhash :: blockhash_status
  tw_last_timestamp :: "slot \<times> int"
  tw_stray_restored_slot :: "slot option"
  tw_last_switch_threshold_check :: "(slot \<times> switch_fork_decision) option"

definition default_tower :: "('l, 'f) tower_env \<Rightarrow> ('l, 'f) tower" where
  "default_tower env =
     \<lparr>tw_node_pubkey = 0, tw_threshold_depth = VOTE_THRESHOLD_DEPTH, tw_threshold_size = te_vote_threshold_size env,
      tw_vote_state = default_tower_vote_state\<lparr>tvs_root_slot := Some 0\<rparr>,
      tw_last_vote = TowerSync [] None 0 0 None, tw_last_vote_tx_blockhash = Uninitialized, tw_last_timestamp = (0, 0),
      tw_stray_restored_slot = None, tw_last_switch_threshold_check = None\<rparr>"

section \<open>Recording a vote\<close>

definition tw_root :: "('l, 'f) tower \<Rightarrow> slot option" where
  "tw_root self = tvs_root_slot (tw_vote_state self)"

definition tw_last_voted_slot :: "'l lockout_api \<Rightarrow> ('l, 'f) tower \<Rightarrow> slot option" where
  "tw_last_voted_slot api self =
     (if vt_is_empty (tw_last_vote self) then None else vt_slot api (tw_last_vote self) (vt_len (tw_last_vote self) - 1))"

definition tw_last_voted_slot_hash :: "'l lockout_api \<Rightarrow> ('l, 'f) tower \<Rightarrow> (slot \<times> hash) option" where
  "tw_last_voted_slot_hash api self =
     map_option (\<lambda>s. (s, vt_hash (tw_last_vote self))) (tw_last_voted_slot api self)"

definition maybe_timestamp :: "int \<Rightarrow> slot \<Rightarrow> ('l, 'f) tower \<Rightarrow> ('l, 'f) tower \<times> int option" where
  "maybe_timestamp now current_slot self =
     (case tw_last_timestamp self of (last_slot, last_ts) \<Rightarrow>
        if (current_slot > last_slot \<or> last_slot = 0 \<and> current_slot = last_slot) \<and> now \<ge> last_ts
        then (self\<lparr>tw_last_timestamp := (current_slot, now)\<rparr>, Some now)
        else (self, None))"

definition update_last_vote_from_vote_state ::
  "'l lockout_api \<Rightarrow> int \<Rightarrow> hash \<Rightarrow> bool \<Rightarrow> hash \<Rightarrow> ('l, 'f) tower \<Rightarrow> ('l, 'f) tower" where
  "update_last_vote_from_vote_state api now vote_hash enable_tower_sync_ix block_id self =
     (let votes = tvs_votes (tw_vote_state self); root_slot = tvs_root_slot (tw_vote_state self);
          new_vote = (if enable_tower_sync_ix then TowerSync votes root_slot vote_hash block_id None
                      else VoteStateUpdate votes root_slot vote_hash None);
          (self, ts) = maybe_timestamp now (case tw_last_voted_slot api self of Some s \<Rightarrow> s | None \<Rightarrow> 0) self
      in self\<lparr>tw_last_vote := vt_set_timestamp ts new_vote\<rparr>)"

definition record_bank_vote_and_update_lockouts ::
  "'l lockout_api \<Rightarrow> int \<Rightarrow> slot \<Rightarrow> hash \<Rightarrow> bool \<Rightarrow> hash \<Rightarrow> ('l, 'f) tower \<Rightarrow> (('l, 'f) tower \<times> slot option) option" where
  "record_bank_vote_and_update_lockouts api now vote_slot vote_hash enable_tower_sync_ix block_id self =
     (if (case tvs_last_voted_slot api (tw_vote_state self) of Some l \<Rightarrow> vote_slot \<le> l | None \<Rightarrow> False) then None
      else do {
        old_root \<leftarrow> tw_root self;
        vote_state \<leftarrow> process_next_vote_slot api vote_slot (tw_vote_state self);
        let self = update_last_vote_from_vote_state api now vote_hash enable_tower_sync_ix block_id
                     (self\<lparr>tw_vote_state := vote_state\<rparr>);
        new_root \<leftarrow> tw_root self;
        Some (self, if old_root \<noteq> new_root then Some new_root else None)
      })"

text \<open>A bank is read through its slot, hash and block id, and whether the tower sync instruction is active.\<close>

definition record_bank_vote ::
  "'l lockout_api \<Rightarrow> int \<Rightarrow> slot \<Rightarrow> hash \<Rightarrow> hash option \<Rightarrow> bool \<Rightarrow> ('l, 'f) tower \<Rightarrow> (('l, 'f) tower \<times> slot option) option" where
  "record_bank_vote api now b_slot b_hash b_block_id enable_tower_sync_ix self =
     record_bank_vote_and_update_lockouts api now b_slot b_hash enable_tower_sync_ix
       (case b_block_id of Some b \<Rightarrow> b | None \<Rightarrow> 0) self"

text \<open>A vote that is sent again gets a timestamp that is one later, on 64-bit signed integers.\<close>

definition refresh_last_vote_timestamp :: "'l lockout_api \<Rightarrow> slot \<Rightarrow> ('l, 'f) tower \<Rightarrow> ('l, 'f) tower" where
  "refresh_last_vote_timestamp api heaviest_slot_on_same_fork self =
     (let timestamp = min (2 ^ 63 - 1) (1 + (case vt_timestamp (tw_last_vote self) of
                        Some last_ts \<Rightarrow> last_ts | None \<Rightarrow> snd (tw_last_timestamp self)))
      in case vt_last_voted_slot api (tw_last_vote self) of
           Some last_voted_slot \<Rightarrow>
             if heaviest_slot_on_same_fork \<le> last_voted_slot then self
             else self\<lparr>tw_last_timestamp := (last_voted_slot, timestamp),
                       tw_last_vote := vt_set_timestamp (Some timestamp) (tw_last_vote self)\<rparr>
         | None \<Rightarrow> self)"

definition refresh_last_vote_tx_blockhash :: "hash \<Rightarrow> ('l, 'f) tower \<Rightarrow> ('l, 'f) tower" where
  "refresh_last_vote_tx_blockhash h self = self\<lparr>tw_last_vote_tx_blockhash := Blockhash h\<rparr>"

definition mark_last_vote_tx_blockhash_non_voting :: "('l, 'f) tower \<Rightarrow> ('l, 'f) tower" where
  "mark_last_vote_tx_blockhash_non_voting self = self\<lparr>tw_last_vote_tx_blockhash := NonVoting\<rparr>"

definition mark_last_vote_tx_blockhash_hot_spare :: "('l, 'f) tower \<Rightarrow> ('l, 'f) tower" where
  "mark_last_vote_tx_blockhash_hot_spare self = self\<lparr>tw_last_vote_tx_blockhash := HotSpare\<rparr>"

section \<open>The lockout check\<close>

definition is_recent :: "'l lockout_api \<Rightarrow> slot \<Rightarrow> ('l, 'f) tower \<Rightarrow> bool" where
  "is_recent api s self =
     (case tvs_last_voted_slot api (tw_vote_state self) of
        Some last_voted_slot \<Rightarrow> \<not> s \<le> last_voted_slot
      | None \<Rightarrow> (case tvs_root_slot (tw_vote_state self) of Some root \<Rightarrow> \<not> s \<le> root | None \<Rightarrow> True))"

definition has_voted :: "'l lockout_api \<Rightarrow> slot \<Rightarrow> ('l, 'f) tower \<Rightarrow> bool" where
  "has_voted api s self \<longleftrightarrow> s \<in> set (tvs_tower api (tw_vote_state self))"

definition is_locked_out :: "'l lockout_api \<Rightarrow> slot \<Rightarrow> slot list \<Rightarrow> ('l, 'f) tower \<Rightarrow> bool option" where
  "is_locked_out api s ancs self =
     (if \<not> is_recent api s self then Some True
      else do {
        vote_state \<leftarrow> process_next_vote_slot api s (tw_vote_state self);
        if \<exists>vote \<in> set (tvs_votes vote_state). s \<noteq> lk_slot api vote \<and> lk_slot api vote \<notin> set ancs then Some True
        else
          (case tvs_root_slot vote_state of
             Some root_slot \<Rightarrow> if s \<noteq> root_slot \<and> root_slot \<notin> set ancs then None else Some False
           | None \<Rightarrow> Some False)
      })"

section \<open>The decision to switch forks\<close>

record lockout_interval =
  li_voter :: pubkey
  li_start :: slot
  li_end :: slot

record fork_stats =
  fs_computed :: bool
  fs_lockout_intervals :: "lockout_interval list"
  fs_bank_hash :: "hash option"

type_synonym progress_map = "slot \<rightharpoonup> fork_stats"

definition get_hash :: "progress_map \<Rightarrow> slot \<Rightarrow> hash option" where
  "get_hash progress s = Option.bind (progress s) fs_bank_hash"

text \<open>What the decision reads: bank forks, progress, stakes, gossip votes and the fork choice.\<close>

record switch_view =
  sv_ancestors :: "slot \<rightharpoonup> slot list"
  sv_descendants :: "(slot \<times> slot list) list"
  sv_progress :: progress_map
  sv_total_stake :: u64
  sv_epoch_vote_accounts :: "pubkey \<rightharpoonup> u64"
  sv_latest_votes :: latest_votes_for_frozen_banks
  sv_gossip_order :: "pubkey list"
  sv_fork_choice :: fork_choice

definition is_descendant_slot :: "slot \<Rightarrow> slot \<Rightarrow> (slot \<rightharpoonup> slot list) \<Rightarrow> bool option" where
  "is_descendant_slot maybe_descendant s ancs = map_option (\<lambda>as. s \<in> set as) (ancs maybe_descendant)"

definition greatest_common_ancestor :: "(slot \<rightharpoonup> slot list) \<Rightarrow> slot \<Rightarrow> slot \<Rightarrow> slot option" where
  "greatest_common_ancestor ancs slot_a slot_b =
     do {
       as \<leftarrow> ancs slot_a;
       bs \<leftarrow> ancs slot_b;
       let common = filter (\<lambda>s. s \<in> set bs) as;
       if common = [] then None else Some (fold max common (hd common))
     }"

definition is_stray_last_vote :: "'l lockout_api \<Rightarrow> ('l, 'f) tower \<Rightarrow> bool" where
  "is_stray_last_vote api self \<longleftrightarrow>
     tw_stray_restored_slot self \<noteq> None \<and> tw_stray_restored_slot self = tw_last_voted_slot api self"

text \<open>The outer option is the panic of the assertion, the inner one the code's.\<close>

definition is_valid_switching_proof_vote ::
  "'l lockout_api \<Rightarrow> ('l, 'f) tower \<Rightarrow> slot \<Rightarrow> slot \<Rightarrow> slot \<Rightarrow> (slot \<rightharpoonup> slot list) \<Rightarrow> slot list \<Rightarrow> bool option option" where
  "is_valid_switching_proof_vote api self candidate_slot last_voted_slot switch_slot ancs last_vote_ancestors =
     (case is_descendant_slot candidate_slot last_voted_slot ancs of
        None \<Rightarrow> Some None
      | Some True \<Rightarrow> Some (Some False)
      | Some False \<Rightarrow>
          if last_vote_ancestors = [] then (if is_stray_last_vote api self then Some (Some True) else None)
          else Some (Option.bind (greatest_common_ancestor ancs candidate_slot last_voted_slot)
                       (\<lambda>ancestor. is_descendant_slot switch_slot ancestor ancs)))"

definition stats_computed :: "progress_map \<Rightarrow> slot \<Rightarrow> bool" where
  "stats_computed progress s = (case progress s of Some stats \<Rightarrow> fs_computed stats | None \<Rightarrow> False)"

definition skip_candidate ::
  "'l lockout_api \<Rightarrow> ('l, 'f) tower \<Rightarrow> switch_view \<Rightarrow> slot \<Rightarrow> slot \<Rightarrow> slot \<Rightarrow> slot list \<Rightarrow> slot \<times> slot list \<Rightarrow> bool option" where
  "skip_candidate api self view switch_slot last_voted_slot root last_vote_ancestors candidate =
     (case candidate of (candidate_slot, descs) \<Rightarrow>
        if \<not> stats_computed (sv_progress view) candidate_slot
           \<or> (\<exists>d \<in> set descs. stats_computed (sv_progress view) d)
           \<or> candidate_slot = last_voted_slot
           \<or> candidate_slot \<le> root
        then Some True
        else do {
          valid \<leftarrow> is_valid_switching_proof_vote api self candidate_slot last_voted_slot switch_slot
                    (sv_ancestors view) last_vote_ancestors;
          map_option Not valid
        })"

text \<open>
  The running sum of the locked out stake and the accounts counted in it.  A loop either goes on with
  them (\<open>Inr\<close>) or returns the decision (\<open>Inl\<close>).
\<close>

type_synonym locked_out = "u64 \<times> pubkey list"

definition count_stake ::
  "('l, 'f) tower_env \<Rightarrow> switch_view \<Rightarrow> pubkey \<Rightarrow> locked_out \<Rightarrow> switch_fork_decision + locked_out" where
  "count_stake env view pk st =
     (let locked_out_stake = fst st + entry_or_default (sv_epoch_vote_accounts view) 0 pk
      in if te_ratio_exceeds env locked_out_stake (sv_total_stake view) (te_switch_fork_threshold env)
         then Inl (SwitchProof 0) else Inr (locked_out_stake, pk # snd st))"

fun intervals_loop ::
  "('l, 'f) tower_env \<Rightarrow> switch_view \<Rightarrow> slot \<Rightarrow> slot \<Rightarrow> slot list \<Rightarrow> lockout_interval list \<Rightarrow> locked_out \<Rightarrow>
   switch_fork_decision + locked_out" where
  "intervals_loop env view last_voted_slot root last_vote_ancestors [] st = Inr st"
| "intervals_loop env view last_voted_slot root last_vote_ancestors (interval # rest) st =
     (if li_end interval \<ge> last_voted_slot \<and> li_voter interval \<notin> set (snd st)
         \<and> li_start interval \<notin> set last_vote_ancestors \<and> li_start interval > root
      then
        (case count_stake env view (li_voter interval) st of
           Inl d \<Rightarrow> Inl d
         | Inr st \<Rightarrow> intervals_loop env view last_voted_slot root last_vote_ancestors rest st)
      else intervals_loop env view last_voted_slot root last_vote_ancestors rest st)"

fun candidates_loop ::
  "('l, 'f) tower_env \<Rightarrow> ('l, 'f) tower \<Rightarrow> switch_view \<Rightarrow> slot \<Rightarrow> slot \<Rightarrow> slot \<Rightarrow> slot list \<Rightarrow> (slot \<times> slot list) list \<Rightarrow>
   locked_out \<Rightarrow> (switch_fork_decision + locked_out) option" where
  "candidates_loop env self view switch_slot last_voted_slot root last_vote_ancestors [] st = Some (Inr st)"
| "candidates_loop env self view switch_slot last_voted_slot root last_vote_ancestors (candidate # rest) st =
     do {
       skip \<leftarrow> skip_candidate (te_api env) self view switch_slot last_voted_slot root last_vote_ancestors candidate;
       if skip then candidates_loop env self view switch_slot last_voted_slot root last_vote_ancestors rest st
       else if fst candidate \<in> set last_vote_ancestors then None
       else do {
         stats \<leftarrow> sv_progress view (fst candidate);
         case intervals_loop env view last_voted_slot root last_vote_ancestors (fs_lockout_intervals stats) st of
           Inl d \<Rightarrow> Some (Inl d)
         | Inr st \<Rightarrow> candidates_loop env self view switch_slot last_voted_slot root last_vote_ancestors rest st
       }
     }"

fun gossip_loop ::
  "('l, 'f) tower_env \<Rightarrow> ('l, 'f) tower \<Rightarrow> switch_view \<Rightarrow> slot \<Rightarrow> slot \<Rightarrow> slot list \<Rightarrow> (pubkey \<times> slot) list \<Rightarrow>
   locked_out \<Rightarrow> (switch_fork_decision + locked_out) option" where
  "gossip_loop env self view switch_slot last_voted_slot last_vote_ancestors [] st = Some (Inr st)"
| "gossip_loop env self view switch_slot last_voted_slot last_vote_ancestors ((pk, candidate_vote) # rest) st =
     (if pk \<in> set (snd st) \<or> \<not> candidate_vote > last_voted_slot
      then gossip_loop env self view switch_slot last_voted_slot last_vote_ancestors rest st
      else do {
        valid \<leftarrow> is_valid_switching_proof_vote (te_api env) self candidate_vote last_voted_slot switch_slot
                  (sv_ancestors view) last_vote_ancestors;
        if valid = Some True
        then
          (case count_stake env view pk st of
             Inl d \<Rightarrow> Some (Inl d)
           | Inr st \<Rightarrow> gossip_loop env self view switch_slot last_voted_slot last_vote_ancestors rest st)
        else gossip_loop env self view switch_slot last_voted_slot last_vote_ancestors rest st
      })"

definition gossip_votes :: "switch_view \<Rightarrow> (pubkey \<times> slot) list" where
  "gossip_votes view =
     List.map_filter (\<lambda>pk. map_option (\<lambda>(s, _). (pk, s)) (max_gossip_frozen_votes (sv_latest_votes view) pk))
       (sv_gossip_order view)"

text \<open>The return for a last vote that was rolled back because an ancestor of it was a duplicate.\<close>

definition duplicate_rollback :: "switch_view \<Rightarrow> slot \<Rightarrow> hash \<Rightarrow> slot \<Rightarrow> hash \<Rightarrow> switch_fork_decision option option" where
  "duplicate_rollback view switch_slot switch_hash last_voted_slot last_voted_hash =
     (case latest_invalid_ancestor (sv_fork_choice view) (Key last_voted_slot last_voted_hash) of
        None \<Rightarrow> Some None
      | Some latest_duplicate_ancestor \<Rightarrow>
          do {
            strict \<leftarrow> is_strict_ancestor (sv_fork_choice view) (Key switch_slot switch_hash)
                       (Key last_voted_slot last_voted_hash);
            if strict then Some (Some (FailedSwitchDuplicateRollback latest_duplicate_ancestor))
            else if get_hash (sv_progress view) last_voted_slot \<noteq> Some last_voted_hash
            then Some (Some (SwitchProof 0))
            else Some None
          })"

definition switch_proof_loops ::
  "('l, 'f) tower_env \<Rightarrow> ('l, 'f) tower \<Rightarrow> switch_view \<Rightarrow> slot \<Rightarrow> slot \<Rightarrow> slot \<Rightarrow> slot list \<Rightarrow> switch_fork_decision option" where
  "switch_proof_loops env self view switch_slot last_voted_slot root last_vote_ancestors =
     do {
       r \<leftarrow> candidates_loop env self view switch_slot last_voted_slot root last_vote_ancestors (sv_descendants view) (0, []);
       case r of
         Inl d \<Rightarrow> Some d
       | Inr st \<Rightarrow>
           do {
             r \<leftarrow> gossip_loop env self view switch_slot last_voted_slot last_vote_ancestors (gossip_votes view) st;
             Some (case r of Inl d \<Rightarrow> d | Inr st \<Rightarrow> FailedSwitchThreshold (fst st) (sv_total_stake view))
           }
     }"

definition make_check_switch_threshold_decision ::
  "('l, 'f) tower_env \<Rightarrow> ('l, 'f) tower \<Rightarrow> slot \<Rightarrow> switch_view \<Rightarrow> switch_fork_decision option" where
  "make_check_switch_threshold_decision env self switch_slot view =
     (case tw_last_voted_slot_hash (te_api env) self of
        None \<Rightarrow> Some SameFork
      | Some (last_voted_slot, last_voted_hash) \<Rightarrow>
          do {
            root \<leftarrow> tw_root self;
            switch_hash \<leftarrow> get_hash (sv_progress view) switch_slot;
            rollback \<leftarrow> duplicate_rollback view switch_slot switch_hash last_voted_slot last_voted_hash;
            case rollback of
              Some decision \<Rightarrow> Some decision
            | None \<Rightarrow>
                do {
                  last_vote_ancestors \<leftarrow> (case sv_ancestors view last_voted_slot of
                      Some as \<Rightarrow> Some as
                    | None \<Rightarrow> if is_stray_last_vote (te_api env) self then Some [] else None);
                  switch_slot_ancestors \<leftarrow> sv_ancestors view switch_slot;
                  if switch_slot = last_voted_slot \<or> last_voted_slot \<in> set switch_slot_ancestors then Some SameFork
                  else if switch_slot \<in> set last_vote_ancestors
                  then (if is_stray_last_vote (te_api env) self
                        then Some (FailedSwitchThreshold 0 (sv_total_stake view)) else None)
                  else switch_proof_loops env self view switch_slot last_voted_slot root last_vote_ancestors
                }
          })"

definition check_switch_threshold ::
  "('l, 'f) tower_env \<Rightarrow> slot \<Rightarrow> switch_view \<Rightarrow> ('l, 'f) tower \<Rightarrow> (('l, 'f) tower \<times> switch_fork_decision) option" where
  "check_switch_threshold env switch_slot view self =
     do {
       decision \<leftarrow> make_check_switch_threshold_decision env self switch_slot view;
       let new_check = Some (switch_slot, decision);
       Some (if new_check \<noteq> tw_last_switch_threshold_check self
             then self\<lparr>tw_last_switch_threshold_check := new_check\<rparr> else self, decision)
     }"

section \<open>The threshold checks\<close>

type_synonym voted_stakes = "slot \<rightharpoonup> u64"

definition optimistically_bypass_vote_stake_threshold_check :: "'l lockout_api \<Rightarrow> 'l list \<Rightarrow> 'l \<Rightarrow> bool" where
  "optimistically_bypass_vote_stake_threshold_check api tower_before_applying_vote threshold_vote \<longleftrightarrow>
     (\<exists>old_vote \<in> set tower_before_applying_vote.
        lk_slot api old_vote = lk_slot api threshold_vote
      \<and> lk_confirmation_count api old_vote = lk_confirmation_count api threshold_vote)"

definition check_vote_stake_threshold ::
  "('l, 'f) tower_env \<Rightarrow> 'l option \<Rightarrow> 'l list \<Rightarrow> nat \<Rightarrow> 'f \<Rightarrow> voted_stakes \<Rightarrow> u64 \<Rightarrow> threshold_decision" where
  "check_vote_stake_threshold env threshold_vote tower_before_applying_vote threshold_depth threshold_size stakes total_stake =
     (case threshold_vote of
        None \<Rightarrow> PassedThreshold
      | Some vote \<Rightarrow>
          (case stakes (lk_slot (te_api env) vote) of
             None \<Rightarrow> FailedThreshold (of_nat threshold_depth) 0
           | Some fork_stake \<Rightarrow>
               if optimistically_bypass_vote_stake_threshold_check (te_api env) tower_before_applying_vote vote
                  \<or> te_ratio_exceeds env fork_stake total_stake threshold_size
               then PassedThreshold
               else FailedThreshold (of_nat threshold_depth) fork_stake))"

definition check_vote_stake_thresholds ::
  "('l, 'f) tower_env \<Rightarrow> slot \<Rightarrow> voted_stakes \<Rightarrow> u64 \<Rightarrow> ('l, 'f) tower \<Rightarrow> threshold_decision list option" where
  "check_vote_stake_thresholds env s stakes total_stake self =
     do {
       vote_state \<leftarrow> process_next_vote_slot (te_api env) s (tw_vote_state self);
       let thresholds = [(VOTE_THRESHOLD_DEPTH_SHALLOW, te_switch_fork_threshold env),
                         (VOTE_THRESHOLD_DEPTH_SHALLOW + 1, te_switch_fork_threshold env),
                         (tw_threshold_depth self, tw_threshold_size self)];
       Some (filter (\<lambda>d. \<not> threshold_passed d)
         (map (\<lambda>(depth, size). check_vote_stake_threshold env (nth_recent_lockout vote_state depth)
            (tvs_votes (tw_vote_state self)) depth size stakes total_stake) thresholds))
     }"

definition is_slot_duplicate_confirmed :: "('l, 'f) tower_env \<Rightarrow> slot \<Rightarrow> voted_stakes \<Rightarrow> u64 \<Rightarrow> bool" where
  "is_slot_duplicate_confirmed env s stakes total_stake =
     (case stakes s of
        Some stake \<Rightarrow> te_ratio_exceeds env stake total_stake (te_duplicate_threshold env)
      | None \<Rightarrow> False)"

section \<open>The stakes on the slots of a fork\<close>

definition add_voted_stake :: "u64 \<Rightarrow> slot \<Rightarrow> voted_stakes \<Rightarrow> voted_stakes" where
  "add_voted_stake stake s stakes = stakes(s \<mapsto> entry_or_default stakes 0 s + stake)"

definition update_ancestor_voted_stakes ::
  "slot \<Rightarrow> u64 \<Rightarrow> (slot \<rightharpoonup> slot list) \<Rightarrow> voted_stakes \<Rightarrow> voted_stakes" where
  "update_ancestor_voted_stakes voted_slot account_stake ancs stakes =
     (case ancs voted_slot of
        Some vote_slot_ancestors \<Rightarrow> fold (add_voted_stake account_stake) (voted_slot # vote_slot_ancestors) stakes
      | None \<Rightarrow> stakes)"

definition populate_ancestor_voted_stakes ::
  "slot list \<Rightarrow> (slot \<rightharpoonup> slot list) \<Rightarrow> voted_stakes \<Rightarrow> voted_stakes" where
  "populate_ancestor_voted_stakes vote_slots ancs stakes =
     fold (\<lambda>vote_slot stakes. case ancs vote_slot of
             Some slot_ancestors \<Rightarrow>
               fold (\<lambda>s stakes. stakes(s \<mapsto> entry_or_default stakes 0 s)) (vote_slot # slot_ancestors) stakes
           | None \<Rightarrow> stakes) vote_slots stakes"

record computed_bank_state =
  cb_voted_stakes :: voted_stakes
  cb_total_stake :: u64
  cb_fork_stake :: u64
  cb_lockout_intervals :: "lockout_interval list"
  cb_my_latest_landed_vote :: "slot option"

text \<open>The variables of the loop over the vote accounts, and one round of it.\<close>

record collect_state =
  cs_voted_stakes :: voted_stakes
  cs_total_stake :: u64
  cs_lockout_intervals :: "lockout_interval list"
  cs_my_latest_landed_vote :: "slot option"
  cs_latest_votes :: latest_votes_for_frozen_banks
  cs_vote_slots :: "slot list"

definition note_latest_vote ::
  "'l lockout_api \<Rightarrow> (slot \<Rightarrow> hash option) \<Rightarrow> pubkey \<Rightarrow> 'l tower_vote_state \<Rightarrow> latest_votes_for_frozen_banks \<Rightarrow>
   latest_votes_for_frozen_banks option" where
  "note_latest_vote api get_frozen_hash key vote_state votes =
     (case tvs_last_voted_slot api vote_state of
        Some last_landed \<Rightarrow> map_option fst (check_add_vote votes key last_landed (get_frozen_hash last_landed) True)
      | None \<Rightarrow> Some votes)"

definition recorded_slots :: "'l lockout_api \<Rightarrow> slot \<Rightarrow> slot option \<Rightarrow> 'l tower_vote_state \<Rightarrow> slot list" where
  "recorded_slots api root_slot start_root vote_state =
     filter (\<lambda>s. s > root_slot)
       (tvs_tower api vote_state
        @ (if start_root \<noteq> tvs_root_slot vote_state then (case start_root of Some r \<Rightarrow> [r] | None \<Rightarrow> []) else [])
        @ (case tvs_root_slot vote_state of Some r \<Rightarrow> [r] | None \<Rightarrow> []))"

definition collect_account ::
  "'l lockout_api \<Rightarrow> pubkey \<Rightarrow> slot \<Rightarrow> slot \<Rightarrow> (slot \<rightharpoonup> slot list) \<Rightarrow> (slot \<Rightarrow> hash option) \<Rightarrow>
   pubkey \<times> u64 \<times> 'l tower_vote_state \<Rightarrow> collect_state \<Rightarrow> collect_state option" where
  "collect_account api vote_account_pubkey at_slot root_slot ancs get_frozen_hash account st =
     (case account of (key, account_stake, vote_state) \<Rightarrow>
        if account_stake = 0 then Some st
        else do {
          votes \<leftarrow> note_latest_vote api get_frozen_hash key vote_state (cs_latest_votes st);
          simulated \<leftarrow> process_next_vote_slot api at_slot vote_state;
          if map_option (lk_slot api) (nth_recent_lockout simulated 0) \<noteq> Some at_slot then None
          else Some \<lparr>
            cs_voted_stakes =
              (case nth_recent_lockout simulated 1 of
                 Some vote \<Rightarrow> update_ancestor_voted_stakes (lk_slot api vote) account_stake ancs (cs_voted_stakes st)
               | None \<Rightarrow> cs_voted_stakes st),
            cs_total_stake = cs_total_stake st + account_stake,
            cs_lockout_intervals = cs_lockout_intervals st
              @ map (\<lambda>v. \<lparr>li_voter = key, li_start = lk_slot api v, li_end = lk_last_locked_out_slot api v\<rparr>) (tvs_votes vote_state),
            cs_my_latest_landed_vote =
              (if key = vote_account_pubkey then map_option (lk_slot api) (nth_recent_lockout vote_state 0)
               else cs_my_latest_landed_vote st),
            cs_latest_votes = votes,
            cs_vote_slots = cs_vote_slots st @ recorded_slots api root_slot (tvs_root_slot vote_state) simulated\<rparr>
        })"

fun collect_loop ::
  "'l lockout_api \<Rightarrow> pubkey \<Rightarrow> slot \<Rightarrow> slot \<Rightarrow> (slot \<rightharpoonup> slot list) \<Rightarrow> (slot \<Rightarrow> hash option) \<Rightarrow>
   (pubkey \<times> u64 \<times> 'l tower_vote_state) list \<Rightarrow> collect_state \<Rightarrow> collect_state option" where
  "collect_loop api me at_slot root_slot ancs get_frozen_hash [] st = Some st"
| "collect_loop api me at_slot root_slot ancs get_frozen_hash (account # rest) st =
     do {
       st \<leftarrow> collect_account api me at_slot root_slot ancs get_frozen_hash account st;
       collect_loop api me at_slot root_slot ancs get_frozen_hash rest st
     }"

definition collect_vote_lockouts ::
  "'l lockout_api \<Rightarrow> pubkey \<Rightarrow> slot \<Rightarrow> slot \<Rightarrow> (pubkey \<times> u64 \<times> 'l tower_vote_state) list \<Rightarrow> (slot \<rightharpoonup> slot list) \<Rightarrow>
   (slot \<Rightarrow> hash option) \<Rightarrow> latest_votes_for_frozen_banks \<Rightarrow> (computed_bank_state \<times> latest_votes_for_frozen_banks) option" where
  "collect_vote_lockouts api vote_account_pubkey at_slot root_slot vote_accounts ancs get_frozen_hash votes =
     do {
       st \<leftarrow> collect_loop api vote_account_pubkey at_slot root_slot ancs get_frozen_hash vote_accounts
              \<lparr>cs_voted_stakes = Map.empty, cs_total_stake = 0, cs_lockout_intervals = [],
               cs_my_latest_landed_vote = None, cs_latest_votes = votes, cs_vote_slots = []\<rparr>;
       let stakes = populate_ancestor_voted_stakes (cs_vote_slots st) ancs (cs_voted_stakes st);
       let fork_stake = (case ancs at_slot of
             None \<Rightarrow> 0
           | Some as \<Rightarrow> if as = [] then 0 else entry_or_default stakes 0 (fold max as (hd as)));
       Some (\<lparr>cb_voted_stakes = stakes, cb_total_stake = cs_total_stake st, cb_fork_stake = fork_stake,
              cb_lockout_intervals = cs_lockout_intervals st, cb_my_latest_landed_vote = cs_my_latest_landed_vote st\<rparr>,
             cs_latest_votes st)
     }"

section \<open>After a restart\<close>

datatype check = Future | TooOld | Found | NotFound

record 'h slot_history =
  sh_check :: "'h \<Rightarrow> slot \<Rightarrow> check"
  sh_oldest :: "'h \<Rightarrow> slot"
  sh_add :: "'h \<Rightarrow> slot \<Rightarrow> 'h"

datatype tower_error = TooOldTower slot slot | FatallyInconsistent string

text \<open>
  The loop over the slots of the tower, from the newest to the root: whether all so far lie in the
  future of the history, whether one was too old for it, the slot before, the anchor, and the flags of
  the votes to keep.
\<close>

fun anchor_loop ::
  "(slot \<Rightarrow> check) \<Rightarrow> slot \<Rightarrow> slot list \<Rightarrow> bool \<Rightarrow> bool \<Rightarrow> slot option \<Rightarrow> slot option \<Rightarrow> bool list \<Rightarrow>
   (tower_error, slot option \<times> bool list) result option" where
  "anchor_loop chk tower_root [] still_in_future past_outside_history checked anchored flags = Some (Inr (anchored, flags))"
| "anchor_loop chk tower_root (s # rest) still_in_future past_outside_history checked anchored flags =
     (let c = chk s in
      if anchored \<noteq> None \<and> c = NotFound then Some (Inl (FatallyInconsistent ''diverged ancestor?''))
      else if \<not> still_in_future \<and> c = Future then Some (Inl (FatallyInconsistent ''time warped?''))
      else if past_outside_history \<and> c \<noteq> TooOld
      then Some (Inl (FatallyInconsistent ''not too old once after got too old?''))
      else if (case checked of Some l \<Rightarrow> \<not> (s = l \<and> s = tower_root) \<and> \<not> s < l | None \<Rightarrow> False) then None
      else
        (let anchored = (if anchored = None \<and> c = Found then Some s else anchored) in
         anchor_loop chk tower_root rest (still_in_future \<and> c = Future) (past_outside_history \<or> c = TooOld) (Some s)
           anchored (flags @ [anchored = None])))"

fun retain_votes :: "bool list \<Rightarrow> 'l list \<Rightarrow> 'l list option" where
  "retain_votes flags [] = Some []"
| "retain_votes [] (v # votes) = None"
| "retain_votes (flag # flags) (v # votes) =
     map_option (\<lambda>rest. if flag then v # rest else rest) (retain_votes flags votes)"

definition initialize_root :: "slot \<Rightarrow> ('l, 'f) tower \<Rightarrow> ('l, 'f) tower" where
  "initialize_root root self = self\<lparr>tw_vote_state := (tw_vote_state self)\<lparr>tvs_root_slot := Some root\<rparr>\<rparr>"

definition put_tower_votes :: "'l list \<Rightarrow> ('l, 'f) tower \<Rightarrow> ('l, 'f) tower" where
  "put_tower_votes votes self = self\<lparr>tw_vote_state := (tw_vote_state self)\<lparr>tvs_votes := votes\<rparr>\<rparr>"

definition initialize_lockouts :: "('l \<Rightarrow> bool) \<Rightarrow> ('l, 'f) tower \<Rightarrow> ('l, 'f) tower" where
  "initialize_lockouts should_retain self = put_tower_votes (filter should_retain (tvs_votes (tw_vote_state self))) self"

definition initialize_lockouts_from_bank ::
  "'l lockout_api \<Rightarrow> 'l tower_vote_state option \<Rightarrow> slot \<Rightarrow> ('l, 'f) tower \<Rightarrow> ('l, 'f) tower" where
  "initialize_lockouts_from_bank api vote_account root self =
     (case vote_account of
        Some vote_state \<Rightarrow>
          initialize_lockouts (\<lambda>v. lk_slot api v > root) (initialize_root root (self\<lparr>tw_vote_state := vote_state\<rparr>))
      | None \<Rightarrow> initialize_root root self)"

definition tower_new ::
  "('l, 'f) tower_env \<Rightarrow> pubkey \<Rightarrow> 'l tower_vote_state option \<Rightarrow> slot \<Rightarrow> ('l, 'f) tower" where
  "tower_new env node_pubkey vote_account root =
     initialize_lockouts_from_bank (te_api env) vote_account root ((default_tower env)\<lparr>tw_node_pubkey := node_pubkey\<rparr>)"

definition voted_slots :: "'l lockout_api \<Rightarrow> ('l, 'f) tower \<Rightarrow> slot list" where
  "voted_slots api self = map (lk_slot api) (tvs_votes (tw_vote_state self))"

definition adjust_lockouts_with_slot_history ::
  "'l lockout_api \<Rightarrow> (slot \<Rightarrow> check) \<Rightarrow> ('l, 'f) tower \<Rightarrow> (tower_error, ('l, 'f) tower) result option" where
  "adjust_lockouts_with_slot_history api chk self =
     do {
       tower_root \<leftarrow> tw_root self;
       let slots_in_tower = tower_root # voted_slots api self;
       r \<leftarrow> anchor_loop chk tower_root (rev slots_in_tower) True False None None [];
       case r of
         Inl e \<Rightarrow> Some (Inl e)
       | Inr (None, _) \<Rightarrow> Some (Inl (FatallyInconsistent ''no common slot for rooted tower''))
       | Inr (Some _, flags) \<Rightarrow>
           if length slots_in_tower \<noteq> length flags then None
           else do {
             votes \<leftarrow> retain_votes (rev (butlast flags)) (tvs_votes (tw_vote_state self));
             let self = put_tower_votes votes self;
             if votes = [] then Some (Inr (self\<lparr>tw_last_vote := Vote [] 0 None\<rparr>))
             else if tw_last_voted_slot api self \<noteq> Some (last (voted_slots api self)) then None
             else Some (Inr (self\<lparr>tw_stray_restored_slot := vt_last_voted_slot api (tw_last_vote self)\<rparr>))
           }
     }"

definition adjust_lockouts_after_replay ::
  "'l lockout_api \<Rightarrow> 'h slot_history \<Rightarrow> 'h \<Rightarrow> slot \<Rightarrow> ('l, 'f) tower \<Rightarrow> (tower_error, ('l, 'f) tower) result option" where
  "adjust_lockouts_after_replay api history_api history replayed_root self =
     do {
       tower_root \<leftarrow> tw_root self;
       if sh_check history_api history replayed_root \<noteq> Found then None
       else if tvs_votes (tw_vote_state self) = [] \<and> tw_last_vote self \<noteq> VoteStateUpdate [] None 0 None
          \<and> tw_last_vote self \<noteq> TowerSync [] None 0 0 None then None
       else
         (case tw_last_voted_slot api self of
            Some last_voted_slot \<Rightarrow>
              if tower_root \<le> replayed_root
              then
                (if sh_check history_api history last_voted_slot = TooOld
                 then Some (Inl (TooOldTower last_voted_slot (sh_oldest history_api history)))
                 else do {
                   r \<leftarrow> adjust_lockouts_with_slot_history api (sh_check history_api history) self;
                   Some (map_sum id (initialize_root replayed_root) r)
                 })
              else adjust_lockouts_with_slot_history api (sh_check history_api (sh_add history_api history tower_root)) self
          | None \<Rightarrow> if tower_root = replayed_root then Some (Inr self) else None)
     }"

end
