(* ===== verification/Tower_Properties.thy ===== *)
theory Tower_Properties
  imports Tower
begin

text \<open>
  What the tower guarantees: a recorded vote respects the lockouts, a switch of forks is backed by locked
  out stake, the adjustment after a restart keeps exactly the votes that the replayed history does
  not contain, and the stakes a bank reports are those of the votes on each slot's fork.
\<close>

section \<open>Lockouts\<close>

lemma is_recent_newer:
  assumes api: "lockout_laws api" and wf: "wf_tower api (tw_vote_state self)" and recent: "is_recent api s self"
  shows "newer api s (tw_vote_state self)"
  using recent
  by (intro lockout_laws.newer_than_last [OF api wf])
    (auto simp: is_recent_def tvs_last_voted_slot_def last_lockout_def split: option.splits if_splits)

lemma maybe_timestamp_keeps [simp]:
  "tw_vote_state (fst (maybe_timestamp now s self)) = tw_vote_state self"
  by (simp add: maybe_timestamp_def split: prod.splits)

lemma vt_set_timestamp_keeps [simp]:
  "vt_len (vt_set_timestamp ts v) = vt_len v" "vt_slots api (vt_set_timestamp ts v) = vt_slots api v"
  "vt_hash (vt_set_timestamp ts v) = vt_hash v"
  by (cases v; simp)+

lemma update_last_vote_keeps [simp]:
  "tw_vote_state (update_last_vote_from_vote_state api now h sync b self) = tw_vote_state self"
  by (simp add: update_last_vote_from_vote_state_def Let_def case_prod_beta)

lemma update_last_vote_slot:
  "tw_last_voted_slot api (update_last_vote_from_vote_state api now h sync b self) =
     tvs_last_voted_slot api (tw_vote_state self)"
  by (simp add: update_last_vote_from_vote_state_def Let_def case_prod_beta tw_last_voted_slot_def vt_is_empty_def
    vt_slot_def tvs_last_voted_slot_def last_lockout_def last_conv_nth)

text \<open>What the check says when it lets a vote pass.\<close>

lemma not_locked_outD:
  assumes "is_locked_out api s ancs self = Some False"
    and "process_next_vote_slot api s (tw_vote_state self) = Some vs"
  shows "is_recent api s self" "u \<in> set (tvs_tower api vs) \<Longrightarrow> u = s \<or> u \<in> set ancs"
    "tvs_root_slot vs = Some r \<Longrightarrow> r = s \<or> r \<in> set ancs"
  using assms by (auto simp: is_locked_out_def tvs_tower_def split: if_splits option.splits)

lemma last_voted_map: "tvs_last_voted_slot api self = (if tvs_tower api self = [] then None else Some (last (tvs_tower api self)))"
  by (simp add: tvs_last_voted_slot_def last_lockout_def tvs_tower_def last_map)

text \<open>
  C2.  A validator never votes against its lockouts.  When the lockout check lets a slot pass, recording the vote
  does not panic and keeps the tower well formed.  Every vote that was still locked out at the new slot
  is an ancestor of it and stays in the tower or becomes the root, and all votes of the new
  tower and its root lie on the fork of the new slot.
\<close>

theorem recorded_vote_respects_lockouts:
  assumes api: "lockout_laws api" and wf: "wf_tower api (tw_vote_state self)" and root: "tw_root self = Some r"
    and pass: "is_locked_out api s ancs self = Some False"
  shows "\<exists>self' new_root. record_bank_vote_and_update_lockouts api now s h sync block_id self = Some (self', new_root)
    \<and> wf_tower api (tw_vote_state self') \<and> tw_last_voted_slot api self' = Some s
    \<and> (\<forall>v \<in> set (tvs_votes (tw_vote_state self)). s \<le> lk_last_locked_out_slot api v \<longrightarrow>
         lk_slot api v \<in> set ancs \<and> (has_voted api (lk_slot api v) self' \<or> tw_root self' = Some (lk_slot api v)))
    \<and> (\<forall>u. has_voted api u self' \<or> tw_root self' = Some u \<longrightarrow> u = s \<or> u \<in> set ancs)"
proof -
  let ?vs = "tw_vote_state self"
  have "is_recent api s self" using pass by (auto simp: is_locked_out_def split: if_splits)
  then have newer: "newer api s ?vs" by (rule is_recent_newer [OF api wf])
  obtain vs' kept expired where vs': "process_next_vote_slot api s ?vs = Some vs'" "wf_tower api vs'"
    and votes: "tvs_votes ?vs = kept @ expired" and expired: "\<forall>v \<in> set expired. \<not> lk_is_locked_out_at_slot api v s"
    and tower: "tvs_tower api vs' = map (lk_slot api) kept @ [s] \<and> tvs_root_slot vs' = tvs_root_slot ?vs
       \<or> (\<exists>v rest. kept = v # rest \<and> tvs_tower api vs' = map (lk_slot api) rest @ [s] \<and> tvs_root_slot vs' = Some (lk_slot api v))"
    using lockout_laws.process_newer [OF api wf newer] by blast
  define self' where "self' = update_last_vote_from_vote_state api now h sync block_id (self\<lparr>tw_vote_state := vs'\<rparr>)"
  have state: "tw_vote_state self' = vs'" by (simp add: self'_def)
  have last: "tw_last_voted_slot api self' = Some s"
    using tower unfolding self'_def update_last_vote_slot last_voted_map by auto
  obtain r' where r': "tvs_root_slot vs' = Some r'" using tower root by (auto simp: tw_root_def)
  have "\<not> (case tvs_last_voted_slot api ?vs of Some l \<Rightarrow> s \<le> l | None \<Rightarrow> False)"
    using newer by (auto simp: newer_def tvs_last_voted_slot_def last_lockout_def not_le split: option.splits if_splits)
  then have rec: "record_bank_vote_and_update_lockouts api now s h sync block_id self =
      Some (self', if r \<noteq> r' then Some r' else None)"
    using root vs'(1) r' by (simp add: record_bank_vote_and_update_lockouts_def self'_def [symmetric] tw_root_def state)
  note passD = not_locked_outD [OF pass vs'(1)]
  have on_fork: "u = s \<or> u \<in> set ancs" if "has_voted api u self' \<or> tw_root self' = Some u" for u
    using that passD(2,3) by (auto simp: has_voted_def tw_root_def state)
  have locked: "lk_slot api v \<in> set ancs \<and> (has_voted api (lk_slot api v) self' \<or> tw_root self' = Some (lk_slot api v))"
    if v: "v \<in> set (tvs_votes ?vs)" and end_of: "s \<le> lk_last_locked_out_slot api v" for v
  proof -
    have "v \<in> set kept" using v end_of votes expired lockout_laws.locked_out_iff [OF api] by auto
    then have kept: "has_voted api (lk_slot api v) self' \<or> tw_root self' = Some (lk_slot api v)"
      using tower by (auto simp: has_voted_def tw_root_def state)
    moreover have "lk_slot api v < s" using newer v by (simp add: newer_def)
    ultimately show ?thesis using on_fork [OF kept] by auto
  qed
  show ?thesis using rec vs'(2) state last locked on_fork by blast
qed

definition demo_tower_votes :: "vote_lockout tower_vote_state" where
  "demo_tower_votes = \<lparr>tvs_votes = [\<lparr>vl_slot = 3, vl_confirmation_count = 2\<rparr>, \<lparr>vl_slot = 5, vl_confirmation_count = 1\<rparr>],
     tvs_root_slot = Some 0\<rparr>"

definition demo_tower_env :: "(vote_lockout, nat) tower_env" where
  "demo_tower_env = \<lparr>te_api = vote_lockout_api,
     te_ratio_exceeds = (\<lambda>stake total percent. unat stake * 100 > percent * unat total),
     te_vote_threshold_size = 66, te_switch_fork_threshold = 38, te_duplicate_threshold = 52\<rparr>"

definition demo_tower :: "(vote_lockout, nat) tower" where
  "demo_tower = (default_tower demo_tower_env)\<lparr>tw_vote_state := demo_tower_votes,
     tw_last_vote := TowerSync (tvs_votes demo_tower_votes) (Some 0) 77 0 None\<rparr>"

lemmas demo_tower_defs = demo_tower_def demo_tower_env_def demo_tower_votes_def default_tower_def vote_lockout_api_def sat_add_def

lemma demo_tower_wf: "wf_tower vote_lockout_api (tw_vote_state demo_tower)"
  by (simp add: demo_tower_defs wf_tower_def counts_ok_def less_Suc_eq all_conj_distrib)

lemma demo_tower_pass: "is_locked_out vote_lockout_api 6 [0, 3, 5] demo_tower = Some False"
  by (simp add: demo_tower_defs is_locked_out_def is_recent_def tvs_last_voted_slot_def last_lockout_def
    process_next_vote_slot_def pop_expired_votes_def root_oldest_def double_lockouts_def)

lemma recorded_vote_respects_lockouts_witness:
  "\<exists>self' new_root. record_bank_vote_and_update_lockouts vote_lockout_api 1000 6 88 True 0 demo_tower = Some (self', new_root)
    \<and> tw_last_voted_slot vote_lockout_api self' = Some 6
    \<and> (has_voted vote_lockout_api 5 self' \<or> tw_root self' = Some 5)"
proof -
  have root: "tw_root demo_tower = Some 0" by (simp add: demo_tower_defs tw_root_def)
  have five: "\<lparr>vl_slot = 5, vl_confirmation_count = 1\<rparr> \<in> set (tvs_votes (tw_vote_state demo_tower))"
    "6 \<le> lk_last_locked_out_slot vote_lockout_api \<lparr>vl_slot = 5, vl_confirmation_count = 1\<rparr>"
    "lk_slot vote_lockout_api \<lparr>vl_slot = 5, vl_confirmation_count = 1\<rparr> = 5"
    by (simp_all add: demo_tower_defs)
  show ?thesis
    using recorded_vote_respects_lockouts [OF vote_lockouts.lockout_laws_axioms demo_tower_wf root demo_tower_pass,
        of 1000 88 True 0] five by metis
qed

section \<open>Switching forks\<close>

text \<open>
  A slot on another fork than the last vote, seen from the slot to switch to: it does not descend from
  the last vote, and the slot to switch to descends from the slot where its fork and that of the last
  vote split, the greatest ancestor they share.  A last vote without known ancestors (a stray one,
  restored from a tower that is ahead of the ledger) splits before everything known.
\<close>

definition on_other_fork :: "bool \<Rightarrow> (slot \<rightharpoonup> slot list) \<Rightarrow> slot \<Rightarrow> slot list \<Rightarrow> slot \<Rightarrow> slot \<Rightarrow> bool" where
  "on_other_fork stray ancs last_slot last_ancs switch_slot s \<longleftrightarrow>
     (\<exists>s_ancs. ancs s = Some s_ancs \<and> last_slot \<notin> set s_ancs \<and>
        (if last_ancs = [] then stray
         else (\<exists>split switch_ancs. split \<in> set s_ancs \<inter> set last_ancs \<and> (\<forall>a \<in> set s_ancs \<inter> set last_ancs. a \<le> split)
                 \<and> ancs switch_slot = Some switch_ancs \<and> split \<in> set switch_ancs)))"

text \<open>
  The evidence that an account is locked out on another fork.  Either its lockout is in a computed bank on
  another fork above the root that has no computed descendant, reaches the last vote, and starts above the
  root at a slot that is not an ancestor of the last vote; or it has a vote in gossip that is newer than the last
  vote and on another fork.
\<close>

definition locked_out_elsewhere ::
  "('l, 'f) tower_env \<Rightarrow> ('l, 'f) tower \<Rightarrow> switch_view \<Rightarrow> slot \<Rightarrow> slot \<Rightarrow> slot \<Rightarrow> slot list \<Rightarrow> pubkey \<Rightarrow> bool" where
  "locked_out_elsewhere env self view switch_slot last_slot root last_ancs pk \<longleftrightarrow>
     (\<exists>candidate descs stats interval.
        (candidate, descs) \<in> set (sv_descendants view)
      \<and> sv_progress view candidate = Some stats \<and> fs_computed stats
      \<and> (\<forall>d \<in> set descs. \<forall>st. sv_progress view d = Some st \<longrightarrow> \<not> fs_computed st)
      \<and> candidate \<noteq> last_slot \<and> root < candidate
      \<and> on_other_fork (is_stray_last_vote (te_api env) self) (sv_ancestors view) last_slot last_ancs switch_slot candidate
      \<and> interval \<in> set (fs_lockout_intervals stats) \<and> li_voter interval = pk
      \<and> last_slot \<le> li_end interval \<and> li_start interval \<notin> set last_ancs \<and> root < li_start interval)
   \<or> (\<exists>s. (pk, s) \<in> set (gossip_votes view) \<and> last_slot < s
        \<and> on_other_fork (is_stray_last_vote (te_api env) self) (sv_ancestors view) last_slot last_ancs switch_slot s)"

text \<open>The tests of the code decide it.\<close>

lemma fold_max_greatest:
  fixes xs :: "'a::linorder list"
  assumes "xs \<noteq> []"
  shows "fold max xs (hd xs) \<in> set xs" "\<forall>x \<in> set xs. x \<le> fold max xs (hd xs)"
proof -
  have "fold max xs (hd xs) = Max (set xs)" using assms by (cases xs) (simp_all add: Max.set_eq_fold [symmetric] del: Max_insert)
  then show "fold max xs (hd xs) \<in> set xs" "\<forall>x \<in> set xs. x \<le> fold max xs (hd xs)"
    using Max_in [of "set xs"] assms by simp_all
qed

lemma greatest_common_ancestor_iff:
  "greatest_common_ancestor ancs a b = Some g \<longleftrightarrow>
     (\<exists>as bs. ancs a = Some as \<and> ancs b = Some bs \<and> g \<in> set as \<inter> set bs \<and> (\<forall>s \<in> set as \<inter> set bs. s \<le> g))"
proof (cases "\<exists>as bs. ancs a = Some as \<and> ancs b = Some bs")
  case True
  then obtain as bs where ab: "ancs a = Some as" "ancs b = Some bs" by blast
  let ?common = "filter (\<lambda>s. s \<in> set bs) as"
  show ?thesis
  proof (cases "?common = []")
    case True
    then have "set as \<inter> set bs = {}" by (auto simp: filter_empty_conv)
    then show ?thesis using True ab by (auto simp: greatest_common_ancestor_def)
  next
    case False
    have "fold max ?common (hd ?common) \<in> set as \<inter> set bs" "\<forall>s \<in> set as \<inter> set bs. s \<le> fold max ?common (hd ?common)"
      using fold_max_greatest [OF False] by auto
    then show ?thesis using False ab by (auto simp: greatest_common_ancestor_def Let_def intro: antisym)
  qed
qed (auto simp: greatest_common_ancestor_def split: bind_splits)

lemma valid_vote_iff:
  assumes "last_ancs = (case ancs last_slot of Some as \<Rightarrow> as | None \<Rightarrow> [])"
  shows "is_valid_switching_proof_vote api self s last_slot switch_slot ancs last_ancs = Some (Some True) \<longleftrightarrow>
    on_other_fork (is_stray_last_vote api self) ancs last_slot last_ancs switch_slot s"
proof -
  have split: "Option.bind (greatest_common_ancestor ancs s last_slot)
        (\<lambda>ancestor. is_descendant_slot switch_slot ancestor ancs) = Some True \<longleftrightarrow>
      (\<exists>g. greatest_common_ancestor ancs s last_slot = Some g \<and> (\<exists>as. ancs switch_slot = Some as \<and> g \<in> set as))"
    by (auto simp: is_descendant_slot_def bind_eq_Some_conv)
  show ?thesis
  proof (cases "ancs s")
    case None
    then show ?thesis by (simp add: is_valid_switching_proof_vote_def is_descendant_slot_def on_other_fork_def)
  next
    case (Some s_ancs)
    show ?thesis
    proof (cases "last_ancs = []")
      case True
      then show ?thesis
        using Some by (auto simp: is_valid_switching_proof_vote_def is_descendant_slot_def on_other_fork_def split: bool.splits)
    next
      case False
      then have "ancs last_slot = Some last_ancs" using assms by (auto split: option.splits)
      then show ?thesis
        using False Some split
        by (auto simp: is_valid_switching_proof_vote_def is_descendant_slot_def [of s] on_other_fork_def
          greatest_common_ancestor_iff split: bool.splits)
    qed
  qed
qed

lemma skip_candidate_iff:
  "skip_candidate api self view switch_slot last_slot root last_ancs (candidate, descs) = Some False \<longleftrightarrow>
     (\<exists>stats. sv_progress view candidate = Some stats \<and> fs_computed stats)
   \<and> (\<forall>d \<in> set descs. \<forall>st. sv_progress view d = Some st \<longrightarrow> \<not> fs_computed st)
   \<and> candidate \<noteq> last_slot \<and> root < candidate
   \<and> is_valid_switching_proof_vote api self candidate last_slot switch_slot (sv_ancestors view) last_ancs = Some (Some True)"
  by (auto simp: skip_candidate_def stats_computed_def bind_eq_Some_conv not_le split: option.splits)

text \<open>The accounts counted so far are distinct, and the sum is their stake.\<close>

definition stake_of_accounts :: "switch_view \<Rightarrow> pubkey list \<Rightarrow> u64" where
  "stake_of_accounts view accounts = sum_list (map (entry_or_default (sv_epoch_vote_accounts view) 0) accounts)"

definition counted :: "switch_view \<Rightarrow> (pubkey \<Rightarrow> bool) \<Rightarrow> locked_out \<Rightarrow> bool" where
  "counted view Q st \<longleftrightarrow> distinct (snd st) \<and> (\<forall>pk \<in> set (snd st). Q pk) \<and> fst st = stake_of_accounts view (snd st)"

text \<open>A switch proof: enough stake of distinct accounts with evidence.\<close>

definition proof_ok :: "('l, 'f) tower_env \<Rightarrow> switch_view \<Rightarrow> (pubkey \<Rightarrow> bool) \<Rightarrow> switch_fork_decision \<Rightarrow> bool" where
  "proof_ok env view Q d \<longleftrightarrow> d = SwitchProof 0 \<and>
     (\<exists>accounts. distinct accounts \<and> (\<forall>pk \<in> set accounts. Q pk)
        \<and> te_ratio_exceeds env (stake_of_accounts view accounts) (sv_total_stake view) (te_switch_fork_threshold env))"

lemma count_stake_ok:
  assumes "counted view Q st" "pk \<notin> set (snd st)" "Q pk"
  shows "count_stake env view pk st = Inl d \<Longrightarrow> proof_ok env view Q d"
    and "count_stake env view pk st = Inr st' \<Longrightarrow> counted view Q st' \<and> snd st' = pk # snd st"
proof -
  have sum: "fst st + entry_or_default (sv_epoch_vote_accounts view) 0 pk = stake_of_accounts view (pk # snd st)"
    using assms(1) by (simp add: counted_def stake_of_accounts_def)
  show "proof_ok env view Q d" if "count_stake env view pk st = Inl d"
    using that assms unfolding count_stake_def Let_def sum proof_ok_def counted_def
    by (intro conjI exI [of _ "pk # snd st"]) (auto split: if_splits)
  show "counted view Q st' \<and> snd st' = pk # snd st" if "count_stake env view pk st = Inr st'"
    using that assms unfolding count_stake_def Let_def sum by (auto simp: counted_def split: if_splits)
qed

definition interval_counts :: "slot \<Rightarrow> slot \<Rightarrow> slot list \<Rightarrow> lockout_interval \<Rightarrow> bool" where
  "interval_counts last_slot root last_ancs interval \<longleftrightarrow>
     last_slot \<le> li_end interval \<and> li_start interval \<notin> set last_ancs \<and> root < li_start interval"

text \<open>
  What a loop establishes: it ends with a switch proof, or it has counted every account of \<open>N\<close> and keeps
  those counted before.
\<close>

definition loop_ok ::
  "('l, 'f) tower_env \<Rightarrow> switch_view \<Rightarrow> (pubkey \<Rightarrow> bool) \<Rightarrow> pubkey set \<Rightarrow> locked_out \<Rightarrow> switch_fork_decision + locked_out \<Rightarrow> bool" where
  "loop_ok env view Q N st r \<longleftrightarrow>
     (case r of
        Inl d \<Rightarrow> proof_ok env view Q d
      | Inr st' \<Rightarrow> counted view Q st' \<and> set (snd st) \<subseteq> set (snd st') \<and> N \<subseteq> set (snd st'))"

lemma loop_ok_then:
  assumes "counted view Q st'" "set (snd st) \<subseteq> set (snd st')" "M \<subseteq> set (snd st')" "loop_ok env view Q N st' r"
  shows "loop_ok env view Q (M \<union> N) st r"
  using assms by (auto simp: loop_ok_def split: sum.splits)

lemma loop_ok_counted:
  assumes "counted view Q st" "pk \<notin> set (snd st)" "Q pk"
    and "\<And>st'. counted view Q st' \<Longrightarrow> loop_ok env view Q N st' (f st')"
  shows "loop_ok env view Q (insert pk N) st (case count_stake env view pk st of Inl d \<Rightarrow> Inl d | Inr st \<Rightarrow> f st)"
proof (cases "count_stake env view pk st")
  case (Inl d)
  then show ?thesis using count_stake_ok(1) [OF assms(1-3) Inl] by (simp add: loop_ok_def)
next
  case (Inr st')
  have st': "counted view Q st'" "snd st' = pk # snd st" using count_stake_ok(2) [OF assms(1-3) Inr] by auto
  have "loop_ok env view Q ({pk} \<union> N) st (f st')"
    by (rule loop_ok_then [OF st'(1) _ _ assms(4) [OF st'(1)]]) (auto simp: st'(2))
  then show ?thesis using Inr by simp
qed

lemma intervals_loop_ok:
  assumes "counted view Q st"
    and "\<And>i. i \<in> set intervals \<Longrightarrow> interval_counts last_slot root last_ancs i \<Longrightarrow> Q (li_voter i)"
  shows "loop_ok env view Q {li_voter i |i. i \<in> set intervals \<and> interval_counts last_slot root last_ancs i} st
           (intervals_loop env view last_slot root last_ancs intervals st)"
  using assms
proof (induction intervals arbitrary: st)
  case Nil
  then show ?case by (simp add: loop_ok_def)
next
  case (Cons i rest)
  let ?N = "\<lambda>is. {li_voter i |i. i \<in> set is \<and> interval_counts last_slot root last_ancs i}"
  let ?loop = "intervals_loop env view last_slot root last_ancs"
  have IH: "loop_ok env view Q (?N rest) st (?loop rest st)" if "counted view Q st" for st
    using Cons.IH [OF that] Cons.prems(2) by simp
  show ?case
  proof (cases "interval_counts last_slot root last_ancs i")
    case False
    then have "?N (i # rest) = ?N rest" "?loop (i # rest) st = ?loop rest st" by (auto simp: interval_counts_def)
    then show ?thesis using IH [OF Cons.prems(1)] by simp
  next
    case True
    then have N: "?N (i # rest) = insert (li_voter i) (?N rest)" by auto
    have Q: "Q (li_voter i)" using Cons.prems(2) True by simp
    show ?thesis
    proof (cases "li_voter i \<in> set (snd st)")
      case True
      have "loop_ok env view Q ({li_voter i} \<union> ?N rest) st (?loop rest st)"
        by (rule loop_ok_then [OF Cons.prems(1) _ _ IH [OF Cons.prems(1)]]) (use True in auto)
      then show ?thesis unfolding N using True by simp
    next
      case False
      have "?loop (i # rest) st = (case count_stake env view (li_voter i) st of Inl d \<Rightarrow> Inl d | Inr st \<Rightarrow> ?loop rest st)"
        using False True by (simp add: interval_counts_def)
      then show ?thesis unfolding N using loop_ok_counted [OF Cons.prems(1) False Q, of env "?N rest" "?loop rest"] IH by simp
    qed
  qed
qed

text \<open>The accounts that the bank of a candidate shows to be locked out.\<close>

definition candidate_accounts ::
  "'l lockout_api \<Rightarrow> ('l, 'f) tower \<Rightarrow> switch_view \<Rightarrow> slot \<Rightarrow> slot \<Rightarrow> slot \<Rightarrow> slot list \<Rightarrow> slot \<times> slot list \<Rightarrow> pubkey set" where
  "candidate_accounts api self view switch_slot last_slot root last_ancs candidate =
     {li_voter i |i stats. skip_candidate api self view switch_slot last_slot root last_ancs candidate = Some False
        \<and> sv_progress view (fst candidate) = Some stats \<and> i \<in> set (fs_lockout_intervals stats)
        \<and> interval_counts last_slot root last_ancs i}"

lemma candidates_loop_ok:
  assumes "counted view Q st"
    and "\<And>c pk. c \<in> set candidates \<Longrightarrow>
           pk \<in> candidate_accounts (te_api env) self view switch_slot last_slot root last_ancs c \<Longrightarrow> Q pk"
    and "candidates_loop env self view switch_slot last_slot root last_ancs candidates st = Some r"
  shows "loop_ok env view Q (\<Union>c \<in> set candidates. candidate_accounts (te_api env) self view switch_slot last_slot root last_ancs c) st r"
  using assms
proof (induction candidates arbitrary: st)
  case Nil
  then show ?case by (auto simp: loop_ok_def)
next
  case (Cons c rest)
  let ?A = "candidate_accounts (te_api env) self view switch_slot last_slot root last_ancs"
  let ?loop = "candidates_loop env self view switch_slot last_slot root last_ancs"
  have IH: "loop_ok env view Q (\<Union>c \<in> set rest. ?A c) st r" if "counted view Q st" "?loop rest st = Some r" for st
    by (rule Cons.IH [OF that(1) _ that(2)]) (rule Cons.prems(2), auto)
  obtain skip where skip: "skip_candidate (te_api env) self view switch_slot last_slot root last_ancs c = Some skip"
    using Cons.prems(3) by (cases "skip_candidate (te_api env) self view switch_slot last_slot root last_ancs c") auto
  show ?case
  proof (cases skip)
    case True
    then have "?A c = {}" "?loop rest st = Some r" using skip Cons.prems(3) by (auto simp: candidate_accounts_def)
    then show ?thesis using IH [OF Cons.prems(1)] by simp
  next
    case False
    then obtain stats where stats: "sv_progress view (fst c) = Some stats" and
      r: "(case intervals_loop env view last_slot root last_ancs (fs_lockout_intervals stats) st of
             Inl d \<Rightarrow> Some (Inl d) | Inr st \<Rightarrow> ?loop rest st) = Some r"
      using skip Cons.prems(3) by (auto split: if_splits bind_splits)
    have A: "?A c = {li_voter i |i. i \<in> set (fs_lockout_intervals stats) \<and> interval_counts last_slot root last_ancs i}"
      using skip False stats by (simp add: candidate_accounts_def)
    have ok: "loop_ok env view Q (?A c) st (intervals_loop env view last_slot root last_ancs (fs_lockout_intervals stats) st)"
      unfolding A using Cons.prems(1) by (rule intervals_loop_ok) (use Cons.prems(2) [of c] A in auto)
    show ?thesis
    proof (cases "intervals_loop env view last_slot root last_ancs (fs_lockout_intervals stats) st")
      case (Inl d)
      then have "r = Inl d" using r by simp
      then show ?thesis using ok Inl by (simp add: loop_ok_def)
    next
      case (Inr st')
      then have st': "counted view Q st'" "set (snd st) \<subseteq> set (snd st')" "?A c \<subseteq> set (snd st')"
        using ok by (auto simp: loop_ok_def)
      have "?loop rest st' = Some r" using r Inr by simp
      then show ?thesis using loop_ok_then [OF st' IH [OF st'(1)]] by simp
    qed
  qed
qed

definition gossip_accounts ::
  "'l lockout_api \<Rightarrow> ('l, 'f) tower \<Rightarrow> switch_view \<Rightarrow> slot \<Rightarrow> slot \<Rightarrow> slot list \<Rightarrow> (pubkey \<times> slot) list \<Rightarrow> pubkey set" where
  "gossip_accounts api self view switch_slot last_slot last_ancs votes =
     {pk. \<exists>s. (pk, s) \<in> set votes \<and> last_slot < s
        \<and> is_valid_switching_proof_vote api self s last_slot switch_slot (sv_ancestors view) last_ancs = Some (Some True)}"

lemma gossip_loop_ok:
  assumes "counted view Q st"
    and "\<And>pk. pk \<in> gossip_accounts (te_api env) self view switch_slot last_slot last_ancs votes \<Longrightarrow> Q pk"
    and "gossip_loop env self view switch_slot last_slot last_ancs votes st = Some r"
  shows "loop_ok env view Q (gossip_accounts (te_api env) self view switch_slot last_slot last_ancs votes) st r"
  using assms
proof (induction votes arbitrary: st)
  case Nil
  then show ?case by (auto simp: loop_ok_def gossip_accounts_def)
next
  case (Cons v rest)
  let ?G = "gossip_accounts (te_api env) self view switch_slot last_slot last_ancs"
  let ?loop = "gossip_loop env self view switch_slot last_slot last_ancs"
  obtain pk s where v: "v = (pk, s)" by (cases v)
  let ?valid = "is_valid_switching_proof_vote (te_api env) self s last_slot switch_slot (sv_ancestors view) last_ancs"
  have sub: "?G rest \<subseteq> ?G (v # rest)" by (auto simp: gossip_accounts_def)
  have IH: "loop_ok env view Q (?G rest) st r" if "counted view Q st" "?loop rest st = Some r" for st
    using Cons.IH [OF that(1) _ that(2)] Cons.prems(2) sub by blast
  have new: "?G (v # rest) = ?G rest \<or> ?G (v # rest) = insert pk (?G rest) \<and> last_slot < s \<and> ?valid = Some (Some True)"
    by (cases "last_slot < s \<and> ?valid = Some (Some True)") (auto simp: gossip_accounts_def v)
  consider (seen) "pk \<in> set (snd st)" "?loop rest st = Some r"
    | (skip) "?loop rest st = Some r" "?G (v # rest) = ?G rest"
    | (count) "pk \<notin> set (snd st)" "last_slot < s" "?valid = Some (Some True)"
        "(case count_stake env view pk st of Inl d \<Rightarrow> Some (Inl d) | Inr st \<Rightarrow> ?loop rest st) = Some r"
    using Cons.prems(3) new by (auto simp: v split: if_splits bind_splits)
  then show ?case
  proof cases
    case seen
    have "loop_ok env view Q ({pk} \<union> ?G rest) st r"
      by (rule loop_ok_then [OF Cons.prems(1) _ _ IH [OF Cons.prems(1) seen(2)]]) (use seen in auto)
    then show ?thesis using new by (auto simp: loop_ok_def split: sum.splits)
  next
    case skip
    then show ?thesis using IH [OF Cons.prems(1)] by simp
  next
    case count
    have G: "?G (v # rest) = {pk} \<union> ?G rest" using count(2,3) by (auto simp: gossip_accounts_def v)
    have Q: "Q pk" using Cons.prems(2) G by simp
    show ?thesis
    proof (cases "count_stake env view pk st")
      case (Inl d)
      then have "r = Inl d" using count(4) by simp
      then show ?thesis using count_stake_ok(1) [OF Cons.prems(1) count(1) Q Inl] by (simp add: loop_ok_def)
    next
      case (Inr st')
      then have st': "counted view Q st'" "snd st' = pk # snd st"
        using count_stake_ok(2) [OF Cons.prems(1) count(1) Q Inr] by auto
      have "?loop rest st' = Some r" using count(4) Inr by simp
      then show ?thesis unfolding G
        by (intro loop_ok_then [OF st'(1) _ _ IH [OF st'(1)]]) (auto simp: st'(2))
    qed
  qed
qed

lemma locked_out_elsewhere_iff:
  assumes "last_ancs = (case sv_ancestors view last_slot of Some as \<Rightarrow> as | None \<Rightarrow> [])"
  shows "locked_out_elsewhere env self view switch_slot last_slot root last_ancs pk \<longleftrightarrow>
     (\<exists>c \<in> set (sv_descendants view). pk \<in> candidate_accounts (te_api env) self view switch_slot last_slot root last_ancs c)
   \<or> pk \<in> gossip_accounts (te_api env) self view switch_slot last_slot last_ancs (gossip_votes view)"
proof -
  note valid = valid_vote_iff [of last_ancs "sv_ancestors view" last_slot, OF assms]
  have "(\<exists>c \<in> set (sv_descendants view). pk \<in> candidate_accounts (te_api env) self view switch_slot last_slot root last_ancs c) \<longleftrightarrow>
     (\<exists>candidate descs stats interval. (candidate, descs) \<in> set (sv_descendants view)
      \<and> sv_progress view candidate = Some stats \<and> fs_computed stats
      \<and> (\<forall>d \<in> set descs. \<forall>st. sv_progress view d = Some st \<longrightarrow> \<not> fs_computed st)
      \<and> candidate \<noteq> last_slot \<and> root < candidate
      \<and> on_other_fork (is_stray_last_vote (te_api env) self) (sv_ancestors view) last_slot last_ancs switch_slot candidate
      \<and> interval \<in> set (fs_lockout_intervals stats) \<and> li_voter interval = pk
      \<and> last_slot \<le> li_end interval \<and> li_start interval \<notin> set last_ancs \<and> root < li_start interval)"
    unfolding candidate_accounts_def interval_counts_def Bex_def split_paired_Ex skip_candidate_iff valid by fastforce
  then show ?thesis
    unfolding locked_out_elsewhere_def gossip_accounts_def valid by blast
qed

lemma switch_proof_loops_ok:
  assumes "switch_proof_loops env self view switch_slot last_slot root last_ancs = Some d"
    and ancs: "last_ancs = (case sv_ancestors view last_slot of Some as \<Rightarrow> as | None \<Rightarrow> [])"
  defines "Q \<equiv> locked_out_elsewhere env self view switch_slot last_slot root last_ancs"
  shows "proof_ok env view Q d
       \<or> (\<exists>accounts. distinct accounts \<and> set accounts = Collect Q
            \<and> d = FailedSwitchThreshold (stake_of_accounts view accounts) (sv_total_stake view))"
proof -
  obtain r where r: "candidates_loop env self view switch_slot last_slot root last_ancs (sv_descendants view) (0, []) = Some r"
    using assms(1) by (auto simp: switch_proof_loops_def split: bind_splits)
  have start: "counted view Q (0, [])" by (simp add: counted_def stake_of_accounts_def)
  let ?C = "\<Union>c \<in> set (sv_descendants view). candidate_accounts (te_api env) self view switch_slot last_slot root last_ancs c"
  have ok: "loop_ok env view Q ?C (0, []) r"
    using start _ r by (rule candidates_loop_ok) (auto simp: Q_def locked_out_elsewhere_iff [OF ancs])
  show ?thesis
  proof (cases r)
    case (Inl e)
    then show ?thesis using ok assms(1) r by (auto simp: loop_ok_def switch_proof_loops_def)
  next
    case (Inr st)
    then have st: "counted view Q st" "?C \<subseteq> set (snd st)" using ok by (auto simp: loop_ok_def)
    obtain r' where r': "gossip_loop env self view switch_slot last_slot last_ancs (gossip_votes view) st = Some r'"
      and d: "d = (case r' of Inl d \<Rightarrow> d | Inr st \<Rightarrow> FailedSwitchThreshold (fst st) (sv_total_stake view))"
      using assms(1) r Inr by (auto simp: switch_proof_loops_def split: bind_splits)
    have ok': "loop_ok env view Q (gossip_accounts (te_api env) self view switch_slot last_slot last_ancs (gossip_votes view)) st r'"
      using st(1) _ r' by (rule gossip_loop_ok) (auto simp: Q_def locked_out_elsewhere_iff [OF ancs])
    show ?thesis
    proof (cases r')
      case (Inl e)
      then show ?thesis using ok' d by (simp add: loop_ok_def)
    next
      case (Inr st')
      then have st': "counted view Q st'" "set (snd st) \<subseteq> set (snd st')"
        "gossip_accounts (te_api env) self view switch_slot last_slot last_ancs (gossip_votes view) \<subseteq> set (snd st')"
        using ok' by (simp_all add: loop_ok_def)
      have "Collect Q \<subseteq> ?C \<union> gossip_accounts (te_api env) self view switch_slot last_slot last_ancs (gossip_votes view)"
        unfolding Q_def locked_out_elsewhere_iff [OF ancs] by blast
      then have "Collect Q \<subseteq> set (snd st')" using st(2) st'(2,3) by blast
      then have "distinct (snd st')" "set (snd st') = Collect Q" "fst st' = stake_of_accounts view (snd st')"
        using st'(1) by (auto simp: counted_def)
      then show ?thesis using d Inr by (intro disjI2 exI [of _ "snd st'"]) simp
    qed
  qed
qed


text \<open>Two forks from slot 0: the last vote is for slot 5, and a validator with half of the stake is locked out at slot 6.\<close>

definition demo_view :: switch_view where
  "demo_view = \<lparr>sv_ancestors = [0 \<mapsto> [], 3 \<mapsto> [0], 5 \<mapsto> [0, 3], 6 \<mapsto> [0], 7 \<mapsto> [0, 6]],
     sv_descendants = [(0, [3, 5, 6, 7]), (3, [5]), (5, []), (6, [7]), (7, [])],
     sv_progress = (\<lambda>s. Some \<lparr>fs_computed = True,
        fs_lockout_intervals = (if s = 7 then [\<lparr>li_voter = 42, li_start = 6, li_end = 8\<rparr>] else []), fs_bank_hash = Some 1\<rparr>),
     sv_total_stake = 100, sv_epoch_vote_accounts = [42 \<mapsto> 50], sv_latest_votes = empty_votes, sv_gossip_order = [],
     sv_fork_choice = \<lparr>fork_infos = Map.empty, latest_votes = Map.empty, tree_root = Key 0 0\<rparr>\<rparr>"

lemma demo_switch:
  "tw_last_voted_slot_hash (te_api demo_tower_env) demo_tower = Some (5, 77)" "tw_root demo_tower = Some 0"
  "latest_invalid_ancestor (sv_fork_choice demo_view) (Key 5 77) = None"
  "sv_ancestors demo_view 5 = Some [0, 3]" "sv_ancestors demo_view 7 = Some [0, 6]"
  by (simp_all add: demo_tower_defs demo_view_def tw_last_voted_slot_hash_def tw_last_voted_slot_def vt_is_empty_def
    vt_slot_def tw_root_def latest_invalid_ancestor_def)

lemma demo_switch_decision:
  "make_check_switch_threshold_decision demo_tower_env demo_tower 7 demo_view = Some (SwitchProof 0)"
  unfolding make_check_switch_threshold_decision_def demo_switch duplicate_rollback_def switch_proof_loops_def
  by (simp add: latest_invalid_ancestor_def demo_view_def get_hash_def skip_candidate_def stats_computed_def is_valid_switching_proof_vote_def
    is_descendant_slot_def greatest_common_ancestor_def count_stake_def entry_or_default_def demo_tower_env_def)

lemma demo_switch_ancs: "[0, 3] = (case sv_ancestors demo_view 5 of Some as \<Rightarrow> as | None \<Rightarrow> [])"
  by (simp add: demo_switch)


section \<open>After a restart\<close>

text \<open>
  Slots that fall strictly, but for a repeated root at the end, never trip the assertion.
\<close>

fun falling :: "slot \<Rightarrow> slot option \<Rightarrow> slot list \<Rightarrow> bool" where
  "falling root checked [] = True"
| "falling root checked (s # rest) =
     ((case checked of Some l \<Rightarrow> s < l \<or> s = l \<and> s = root | None \<Rightarrow> True) \<and> falling root (Some s) rest)"

lemma anchor_loop_total:
  assumes "falling root checked ss"
  shows "\<exists>r. anchor_loop chk root ss future past checked anchored flags = Some r"
  using assms
  by (induction chk root ss future past checked anchored flags rule: anchor_loop.induct)
    (auto simp: Let_def split: option.splits)

text \<open>Once a slot was too old without an anchor there is none, and with an anchor all flags are false.\<close>

lemma anchor_loop_past:
  assumes "anchor_loop chk root ss future True checked None flags = Some (Inr (anchor, flags'))"
  shows "anchor = None"
  using assms
proof (induction ss arbitrary: future checked flags)
  case (Cons s ss)
  then show ?case by (auto simp: Let_def split: if_splits)
qed simp

lemma anchor_loop_anchored:
  assumes "anchor_loop chk root ss False past checked (Some a) flags = Some (Inr (anchor, flags'))"
  shows "anchor = Some a \<and> flags' = flags @ replicate (length ss) False \<and> (\<forall>s \<in> set ss. chk s \<in> {Found, TooOld})"
  using assms
proof (induction ss arbitrary: past checked flags)
  case (Cons s ss)
  have c: "chk s \<noteq> NotFound" "chk s \<noteq> Future" using Cons.prems by (auto simp: Let_def split: if_splits)
  then have "anchor_loop chk root ss False (past \<or> chk s = TooOld) (Some s) (Some a) (flags @ [False]) = Some (Inr (anchor, flags'))"
    using Cons.prems by (auto simp: Let_def split: if_splits)
  from Cons.IH [OF this] show ?case using c by (cases "chk s") auto
qed simp

lemma anchor_loop_found:
  assumes "anchor_loop chk root ss future past checked None flags = Some (Inr (Some a, flags'))" "\<not> past"
  shows "\<exists>xs ys. ss = xs @ a # ys \<and> chk a = Found \<and> (\<forall>s \<in> set xs. chk s \<in> {NotFound, Future})
     \<and> (\<forall>s \<in> set ys. chk s \<in> {Found, TooOld}) \<and> flags' = flags @ replicate (length xs) True @ replicate (Suc (length ys)) False"
  using assms
proof (induction ss arbitrary: future past checked flags)
  case (Cons s ss)
  have not_old: "chk s \<noteq> TooOld"
  proof
    assume "chk s = TooOld"
    then have "anchor_loop chk root ss False True (Some s) None (flags @ [True]) = Some (Inr (Some a, flags'))"
      using Cons.prems by (auto simp: Let_def split: if_splits)
    then show False using anchor_loop_past by blast
  qed
  show ?case
  proof (cases "chk s = Found")
    case True
    then have "anchor_loop chk root ss False False (Some s) (Some s) (flags @ [False]) = Some (Inr (Some a, flags'))"
      using Cons.prems by (auto simp: Let_def split: if_splits)
    from anchor_loop_anchored [OF this] show ?thesis using True by (intro exI [of _ "[]"] exI [of _ ss]) simp
  next
    case False
    then have "anchor_loop chk root ss (future \<and> chk s = Future) False (Some s) None (flags @ [True]) = Some (Inr (Some a, flags'))"
      using Cons.prems not_old by (auto simp: Let_def split: if_splits)
    then obtain xs ys where "ss = xs @ a # ys" "chk a = Found" "\<forall>s \<in> set xs. chk s \<in> {NotFound, Future}"
      "\<forall>s \<in> set ys. chk s \<in> {Found, TooOld}" "flags' = (flags @ [True]) @ replicate (length xs) True @ replicate (Suc (length ys)) False"
      using Cons.IH [of "future \<and> chk s = Future" False "Some s" "flags @ [True]"] by blast
    then show ?thesis using False not_old by (intro exI [of _ "s # xs"] exI [of _ ys]) (cases "chk s"; simp)
  qed
qed simp

lemma retain_suffix:
  "retain_votes (replicate (length xs) False @ replicate (length ys) True) (xs @ ys) = Some ys"
proof -
  have ys: "retain_votes (replicate (length ys) True) ys = Some ys" by (induction ys) auto
  show ?thesis by (induction xs) (auto simp: ys)
qed

text \<open>Dropping the oldest votes leaves a well-formed tower.\<close>

lemma counts_ok_suffix:
  assumes "counts_ok api (xs @ ys)"
  shows "counts_ok api ys"
  unfolding counts_ok_def
proof (intro allI impI)
  fix i assume i: "i < length ys"
  then have "length (xs @ ys) \<le> length xs + i + unat (lk_confirmation_count api (ys ! i))"
    "length xs + i + unat (lk_confirmation_count api (ys ! i)) \<le> lk_max_lockout_history api"
    using assms [unfolded counts_ok_def, rule_format, of "length xs + i"] by (simp_all add: nth_append)
  then show "length ys \<le> i + unat (lk_confirmation_count api (ys ! i))
      \<and> i + unat (lk_confirmation_count api (ys ! i)) \<le> lk_max_lockout_history api" by simp
qed

lemma wf_tower_suffix:
  assumes "wf_tower api self" "tvs_votes self = xs @ ys"
  shows "wf_tower api (self\<lparr>tvs_votes := ys\<rparr>)"
  using assms by (auto simp: wf_tower_def sorted_wrt_append intro: counts_ok_suffix)

text \<open>
  A history agrees with the tower when, from the newest slot down, slots in its future are followed by
  slots it does not contain, then by at least one slot it contains, then by slots too old for it.
\<close>

definition history_agrees :: "(slot \<Rightarrow> check) \<Rightarrow> slot list \<Rightarrow> bool" where
  "history_agrees chk ss \<longleftrightarrow>
     (\<exists>fs ns found ts. ss = fs @ ns @ found @ ts \<and> found \<noteq> [] \<and> (\<forall>s \<in> set fs. chk s = Future)
        \<and> (\<forall>s \<in> set ns. chk s = NotFound) \<and> (\<forall>s \<in> set found. chk s = Found) \<and> (\<forall>s \<in> set ts. chk s = TooOld))"

lemma anchor_loop_old:
  assumes "\<forall>s \<in> set ts. chk s = TooOld" "falling root checked ts"
  shows "\<exists>flags'. anchor_loop chk root ts False past checked (Some a) flags = Some (Inr (Some a, flags'))"
  using assms
proof (induction ts arbitrary: past checked flags)
  case (Cons s ts)
  then show ?case by (auto simp: Let_def split: option.splits)
qed simp

lemma anchor_loop_rooted:
  assumes "\<forall>s \<in> set found. chk s = Found" "\<forall>s \<in> set ts. chk s = TooOld" "falling root checked (found @ ts)"
  shows "\<exists>flags'. anchor_loop chk root (found @ ts) False False checked (Some a) flags = Some (Inr (Some a, flags'))"
  using assms
proof (induction found arbitrary: checked flags)
  case Nil
  then show ?case using anchor_loop_old [of ts chk root checked False a flags] by simp
next
  case (Cons s found)
  then show ?case by (auto simp: Let_def split: option.splits)
qed

lemma anchor_loop_missing:
  assumes "\<forall>s \<in> set ns. chk s = NotFound" "\<forall>s \<in> set found. chk s = Found" "found \<noteq> []" "\<forall>s \<in> set ts. chk s = TooOld"
    "falling root checked (ns @ found @ ts)"
  shows "\<exists>a flags'. anchor_loop chk root (ns @ found @ ts) future False checked None flags = Some (Inr (Some a, flags'))"
  using assms
proof (induction ns arbitrary: future checked flags)
  case Nil
  then obtain s rest where found: "found = s # rest" by (cases found) auto
  have "\<exists>flags'. anchor_loop chk root (rest @ ts) False False (Some s) (Some s) (flags @ [False]) = Some (Inr (Some s, flags'))"
    using Nil by (intro anchor_loop_rooted) (auto simp: found)
  then show ?case using Nil by (auto simp: Let_def found split: option.splits)
next
  case (Cons s ns)
  then show ?case by (auto simp: Let_def split: option.splits)
qed

lemma anchor_loop_agrees:
  assumes "history_agrees chk ss" "falling root None ss"
  shows "\<exists>a flags. anchor_loop chk root ss True False None None [] = Some (Inr (Some a, flags))"
proof -
  obtain fs ns found ts where ss: "ss = fs @ ns @ found @ ts" and parts: "found \<noteq> []" "\<forall>s \<in> set fs. chk s = Future"
    "\<forall>s \<in> set ns. chk s = NotFound" "\<forall>s \<in> set found. chk s = Found" "\<forall>s \<in> set ts. chk s = TooOld"
    using assms(1) by (auto simp: history_agrees_def)
  have "\<exists>a flags'. anchor_loop chk root (fs @ ns @ found @ ts) True False checked None flags = Some (Inr (Some a, flags'))"
    if "falling root checked (fs @ ns @ found @ ts)" for checked flags
    using that parts(2)
  proof (induction fs arbitrary: checked flags)
    case Nil
    then show ?case using anchor_loop_missing [OF parts(3,4,1,5)] by simp
  next
    case (Cons s fs)
    then show ?case by (auto simp: Let_def split: option.splits)
  qed
  then show ?thesis using assms(2) ss by simp
qed

lemma falling_sorted:
  assumes "sorted_wrt (<) (root # slots)"
  shows "falling root None (rev (root # slots))"
proof -
  have "falling root checked ss" if "sorted_wrt (>) ss" "case checked of Some l \<Rightarrow> \<forall>s \<in> set ss. s < l | None \<Rightarrow> True" for checked ss
    using that by (induction ss arbitrary: checked) (auto split: option.splits)
  moreover have "sorted_wrt (>) (rev (root # slots))" using assms by (simp only: sorted_wrt_rev)
  ultimately show ?thesis by simp
qed

lemma retain_anchored:
  assumes split: "rev (root # map (lk_slot api) votes) = xs @ a # ys"
    and flags: "flags = replicate (length xs) True @ replicate (Suc (length ys)) False"
    and kept: "\<forall>s \<in> set xs. chk s \<in> {NotFound, Future}" and dropped: "chk a = Found" "\<forall>s \<in> set ys. chk s \<in> {Found, TooOld}"
  shows "retain_votes (rev (butlast flags)) votes = Some (drop (length ys) votes)"
    and "filter (\<lambda>v. chk (lk_slot api v) \<in> {NotFound, Future}) votes = drop (length ys) votes"
    and "length flags = Suc (length votes)"
proof -
  have len: "length votes = length xs + length ys" using arg_cong [OF split, of length] by simp
  then show "length flags = Suc (length votes)" by (simp add: flags)
  have "flags = (replicate (length xs) True @ replicate (length ys) False) @ [False]"
    by (simp add: flags replicate_append_same)
  then have "butlast flags = replicate (length xs) True @ replicate (length ys) False" by (simp only: butlast_snoc)
  then have "rev (butlast flags) = replicate (length (take (length ys) votes)) False @ replicate (length (drop (length ys) votes)) True"
    using len by simp
  then show "retain_votes (rev (butlast flags)) votes = Some (drop (length ys) votes)"
    using retain_suffix [of "take (length ys) votes" "drop (length ys) votes"] by simp
  have all: "root # map (lk_slot api) votes = rev ys @ a # rev xs" using arg_cong [OF split, of rev] by simp
  have new: "set (map (lk_slot api) (drop (length ys) votes)) \<subseteq> set xs"
    using arg_cong [OF all, of "drop (Suc (length ys))"] by (simp add: drop_map)
  have old: "set (map (lk_slot api) (take (length ys) votes)) \<subseteq> insert a (set ys)"
  proof -
    have "take (Suc (length ys)) (root # map (lk_slot api) votes) = rev ys @ [a]" unfolding all by simp
    then have "set (take (length ys) (map (lk_slot api) votes)) \<subseteq> set (rev ys @ [a])" by (metis set_subset_Cons take_Suc_Cons)
    then show ?thesis by (simp add: take_map)
  qed
  have "filter P votes = filter P (take (length ys) votes) @ filter P (drop (length ys) votes)" for P
    by (metis append_take_drop_id filter_append)
  moreover have "filter (\<lambda>v. chk (lk_slot api v) \<in> {NotFound, Future}) (take (length ys) votes) = []"
    using old dropped by (fastforce simp: filter_empty_conv)
  moreover have "filter (\<lambda>v. chk (lk_slot api v) \<in> {NotFound, Future}) (drop (length ys) votes) = drop (length ys) votes"
    using new kept by (fastforce simp: filter_id_conv)
  ultimately show "filter (\<lambda>v. chk (lk_slot api v) \<in> {NotFound, Future}) votes = drop (length ys) votes" by simp
qed

lemma adjust_anchored:
  assumes wf: "wf_tower api (tw_vote_state self)" and root: "tw_root self = Some root"
    and last: "tw_last_voted_slot api self = tvs_last_voted_slot api (tw_vote_state self)"
    and loop: "anchor_loop chk root (rev (root # voted_slots api self)) True False None None [] = Some (Inr (Some a, flags))"
  shows "\<exists>self'. adjust_lockouts_with_slot_history api chk self = Some (Inr self')
    \<and> tvs_votes (tw_vote_state self') =
        filter (\<lambda>v. chk (lk_slot api v) \<in> {NotFound, Future}) (tvs_votes (tw_vote_state self))
    \<and> wf_tower api (tw_vote_state self')"
proof -
  let ?votes = "tvs_votes (tw_vote_state self)"
  obtain xs ys where split: "rev (root # map (lk_slot api) ?votes) = xs @ a # ys"
    and parts: "\<forall>s \<in> set xs. chk s \<in> {NotFound, Future}" "chk a = Found" "\<forall>s \<in> set ys. chk s \<in> {Found, TooOld}"
    and flags: "flags = replicate (length xs) True @ replicate (Suc (length ys)) False"
    using anchor_loop_found [OF loop] by (auto simp: voted_slots_def)
  note retain = retain_anchored [OF split flags parts]
  define self1 where "self1 = put_tower_votes (drop (length ys) ?votes) self"
  have votes1: "tvs_votes (tw_vote_state self1) = drop (length ys) ?votes" by (simp add: self1_def put_tower_votes_def)
  have wf1: "wf_tower api (tw_vote_state self1)"
    unfolding self1_def put_tower_votes_def using wf_tower_suffix [OF wf append_take_drop_id [symmetric], of "length ys"] by simp
  have last1: "tw_last_voted_slot api self1 = Some (last (voted_slots api self1))" if "drop (length ys) ?votes \<noteq> []"
  proof -
    have "tw_last_voted_slot api self1 = tw_last_voted_slot api self" by (simp add: self1_def put_tower_votes_def tw_last_voted_slot_def)
    then show ?thesis using that last
      by (auto simp: tvs_last_voted_slot_def last_lockout_def voted_slots_def votes1 last_map last_drop split: if_splits)
  qed
  have adjust: "adjust_lockouts_with_slot_history api chk self =
      (if drop (length ys) ?votes = [] then Some (Inr (self1\<lparr>tw_last_vote := Vote [] 0 None\<rparr>))
       else Some (Inr (self1\<lparr>tw_stray_restored_slot := vt_last_voted_slot api (tw_last_vote self1)\<rparr>)))"
    using last1 retain(1,3) unfolding adjust_lockouts_with_slot_history_def root Let_def
    by (simp add: loop [simplified] self1_def [symmetric]) (simp add: voted_slots_def self1_def)
  show ?thesis unfolding adjust retain(2) using wf1 votes1 by (simp split: if_splits)
qed

text \<open>
  C18.  After a restart the tower is adjusted to the replayed history.  The adjustment of a well-formed tower does not
  panic, and it succeeds when the history agrees with the tower.  The adjusted tower is well
  formed and keeps exactly the votes that the history does not contain or that lie in its future.
\<close>

theorem adjusted_tower_keeps_unrooted_votes:
  assumes wf: "wf_tower api (tw_vote_state self)" and root: "tw_root self = Some root"
    and last: "tw_last_voted_slot api self = tvs_last_voted_slot api (tw_vote_state self)"
  shows "\<exists>res. adjust_lockouts_with_slot_history api chk self = Some res
    \<and> (history_agrees chk (rev (root # voted_slots api self)) \<longrightarrow> (\<exists>self'. res = Inr self'))
    \<and> (\<forall>self'. res = Inr self' \<longrightarrow> wf_tower api (tw_vote_state self')
         \<and> tvs_votes (tw_vote_state self') =
             filter (\<lambda>v. chk (lk_slot api v) \<in> {NotFound, Future}) (tvs_votes (tw_vote_state self)))"
proof -
  let ?slots = "rev (root # voted_slots api self)"
  have "sorted_wrt (<) (root # voted_slots api self)"
    using wf root by (auto simp: wf_tower_def tw_root_def voted_slots_def sorted_wrt_map)
  then have fall: "falling root None ?slots" by (rule falling_sorted)
  obtain r where r: "anchor_loop chk root ?slots True False None None [] = Some r"
    using anchor_loop_total [OF fall, of chk True False None "[]"] by blast
  consider (error) e where "r = Inl e" | (none) flags where "r = Inr (None, flags)" | (some) a flags where "r = Inr (Some a, flags)"
    by (cases r) (auto split: prod.splits, metis option.exhaust surj_pair)
  then show ?thesis
  proof cases
    case some
    then show ?thesis using adjust_anchored [OF wf root last r [unfolded some]] by fastforce
  next
    case error
    then have "\<not> history_agrees chk ?slots" using anchor_loop_agrees [OF _ fall, of chk] r by auto
    then show ?thesis using r error root by (simp add: adjust_lockouts_with_slot_history_def)
  next
    case none
    then have "\<not> history_agrees chk ?slots" using anchor_loop_agrees [OF _ fall, of chk] r by auto
    then show ?thesis using r none root by (simp add: adjust_lockouts_with_slot_history_def)
  qed
qed

lemma adjusted_tower_keeps_unrooted_votes_witness:
  "\<exists>res. adjust_lockouts_with_slot_history vote_lockout_api (\<lambda>s. if s \<le> 3 then Found else NotFound) demo_tower = Some res
     \<and> (\<forall>self'. res = Inr self' \<longrightarrow> tvs_votes (tw_vote_state self') = [\<lparr>vl_slot = 5, vl_confirmation_count = 1\<rparr>])"
proof -
  have root: "tw_root demo_tower = Some 0" by (simp add: demo_tower_defs tw_root_def)
  have last: "tw_last_voted_slot vote_lockout_api demo_tower = tvs_last_voted_slot vote_lockout_api (tw_vote_state demo_tower)"
    by (simp add: demo_tower_defs tw_last_voted_slot_def vt_is_empty_def vt_slot_def tvs_last_voted_slot_def last_lockout_def)
  show ?thesis
    using adjusted_tower_keeps_unrooted_votes [OF demo_tower_wf root last, of "\<lambda>s. if s \<le> 3 then Found else NotFound"]
    by (auto simp: demo_tower_defs)
qed

section \<open>The stakes on the slots of a fork\<close>

text \<open>The slots an account's stake counts for: the newest vote below the simulated one, and its ancestors.\<close>

definition counted_slots :: "'l lockout_api \<Rightarrow> (slot \<rightharpoonup> slot list) \<Rightarrow> slot \<Rightarrow> 'l tower_vote_state \<Rightarrow> slot list" where
  "counted_slots api ancs at_slot vote_state =
     (case process_next_vote_slot api at_slot vote_state of
        None \<Rightarrow> []
      | Some simulated \<Rightarrow>
          (case nth_recent_lockout simulated 1 of
             None \<Rightarrow> []
           | Some vote \<Rightarrow> (case ancs (lk_slot api vote) of None \<Rightarrow> [] | Some as \<Rightarrow> lk_slot api vote # as)))"

definition stake_on_slot :: "'l lockout_api \<Rightarrow> (slot \<rightharpoonup> slot list) \<Rightarrow> slot \<Rightarrow> slot \<Rightarrow> (pubkey \<times> u64 \<times> 'l tower_vote_state) list \<Rightarrow> u64" where
  "stake_on_slot api ancs at_slot s accounts =
     (\<Sum>(key, stake, vote_state) \<leftarrow> accounts. if s \<in> set (counted_slots api ancs at_slot vote_state) then stake else 0)"

declare entry_or_default_upd [simp]

lemma add_voted_stakes_entry:
  "distinct ss \<Longrightarrow> entry_or_default (fold (add_voted_stake stake) ss stakes) 0 s =
     entry_or_default stakes 0 s + (if s \<in> set ss then stake else 0)"
  by (induction ss arbitrary: stakes) (auto simp: add_voted_stake_def)

lemma populate_entry: "entry_or_default (populate_ancestor_voted_stakes vote_slots ancs stakes) 0 s = entry_or_default stakes 0 s"
proof -
  have zero: "entry_or_default (fold (\<lambda>s stakes. stakes(s \<mapsto> entry_or_default stakes 0 s)) ss m) 0 s = entry_or_default m 0 s"
    for ss and m :: voted_stakes
    by (induction ss arbitrary: m) auto
  show ?thesis
    unfolding populate_ancestor_voted_stakes_def
    by (induction vote_slots arbitrary: stakes) (auto simp: zero simp del: fold_simps(2) split: option.splits)
qed

lemma update_ancestor_entry:
  assumes "\<And>as. ancs v = Some as \<Longrightarrow> distinct (v # as)"
  shows "entry_or_default (update_ancestor_voted_stakes v stake ancs stakes) 0 s =
     entry_or_default stakes 0 s + (if s \<in> set (case ancs v of None \<Rightarrow> [] | Some as \<Rightarrow> v # as) then stake else 0)"
proof (cases "ancs v")
  case (Some as)
  then show ?thesis unfolding update_ancestor_voted_stakes_def using add_voted_stakes_entry [OF assms [OF Some]] by simp
qed (simp add: update_ancestor_voted_stakes_def)

lemma collect_account_stakes:
  assumes "collect_account api me at_slot root_slot ancs frozen (key, stake, vs) st = Some st'"
    and "\<And>s as. ancs s = Some as \<Longrightarrow> distinct (s # as)"
  shows "entry_or_default (cs_voted_stakes st') 0 s =
      entry_or_default (cs_voted_stakes st) 0 s + (if s \<in> set (counted_slots api ancs at_slot vs) then stake else 0)
    \<and> cs_total_stake st' = cs_total_stake st + stake"
proof (cases "stake = 0")
  case True
  then show ?thesis using assms(1) by (simp add: collect_account_def)
next
  case False
  obtain simulated where sim: "process_next_vote_slot api at_slot vs = Some simulated"
    using assms(1) False by (auto simp: collect_account_def split: bind_splits)
  have st': "cs_voted_stakes st' = (case nth_recent_lockout simulated 1 of
        Some vote \<Rightarrow> update_ancestor_voted_stakes (lk_slot api vote) stake ancs (cs_voted_stakes st) | None \<Rightarrow> cs_voted_stakes st)"
    "cs_total_stake st' = cs_total_stake st + stake"
    using assms(1) False sim by (auto simp: collect_account_def split: bind_splits if_splits)
  have "entry_or_default (update_ancestor_voted_stakes (lk_slot api vote) stake ancs (cs_voted_stakes st)) 0 s =
      entry_or_default (cs_voted_stakes st) 0 s
      + (if s \<in> set (case ancs (lk_slot api vote) of None \<Rightarrow> [] | Some as \<Rightarrow> lk_slot api vote # as) then stake else 0)" for vote
    by (rule update_ancestor_entry) (rule assms(2))
  then show ?thesis unfolding st' counted_slots_def sim by (cases "nth_recent_lockout simulated 1") simp_all
qed

lemma collect_loop_stakes:
  assumes "collect_loop api me at_slot root_slot ancs frozen accounts st = Some st'"
    and "\<And>s as. ancs s = Some as \<Longrightarrow> distinct (s # as)"
  shows "entry_or_default (cs_voted_stakes st') 0 s = entry_or_default (cs_voted_stakes st) 0 s + stake_on_slot api ancs at_slot s accounts
    \<and> cs_total_stake st' = cs_total_stake st + (\<Sum>(key, stake, vs) \<leftarrow> accounts. stake)"
  using assms(1)
proof (induction accounts arbitrary: st)
  case Nil
  then show ?case by (simp add: stake_on_slot_def)
next
  case (Cons account accounts)
  obtain key stake vs where account: "account = (key, stake, vs)" by (cases account)
  obtain st1 where st1: "collect_account api me at_slot root_slot ancs frozen (key, stake, vs) st = Some st1"
    "collect_loop api me at_slot root_slot ancs frozen accounts st1 = Some st'"
    using Cons.prems by (auto simp: account split: bind_splits)
  show ?case
    using Cons.IH [OF st1(2)] collect_account_stakes [OF st1(1) assms(2), of s]
    by (simp add: account stake_on_slot_def add.assoc)
qed

text \<open>
  The stake a bank reports for a slot is that of the accounts whose newest vote below the bank lies on
  the slot or one of its descendants, and the total is that of all accounts.
\<close>

lemma collect_vote_lockouts_stakes:
  assumes "collect_vote_lockouts api me at_slot root_slot accounts ancs frozen votes = Some (state, votes')"
    and "\<And>s as. ancs s = Some as \<Longrightarrow> distinct (s # as)"
  shows "entry_or_default (cb_voted_stakes state) 0 s = stake_on_slot api ancs at_slot s accounts"
    and "cb_total_stake state = (\<Sum>(key, stake, vs) \<leftarrow> accounts. stake)"
proof -
  let ?start = "\<lparr>cs_voted_stakes = Map.empty, cs_total_stake = 0, cs_lockout_intervals = [],
      cs_my_latest_landed_vote = None, cs_latest_votes = votes, cs_vote_slots = []\<rparr>"
  obtain st where st: "collect_loop api me at_slot root_slot ancs frozen accounts ?start = Some st"
    and state: "cb_voted_stakes state = populate_ancestor_voted_stakes (cs_vote_slots st) ancs (cs_voted_stakes st)"
      "cb_total_stake state = cs_total_stake st"
    using assms(1) by (auto simp: collect_vote_lockouts_def Let_def split: bind_splits)
  note sums = collect_loop_stakes [OF st assms(2)]
  show "entry_or_default (cb_voted_stakes state) 0 s = stake_on_slot api ancs at_slot s accounts"
    unfolding state(1) populate_entry using sums [of s] by (simp add: entry_or_default_def)
  show "cb_total_stake state = (\<Sum>(key, stake, vs) \<leftarrow> accounts. stake)"
    unfolding state(2) using sums by simp
qed

end
