(* ===== verification/Spec2Isabelle.thy ===== *)
theory Spec2Isabelle
  imports
    Account_Locks
    Bundle_Stage
    Cost_Tracker
    Devin_Scheduler
    Fork_Properties
    Latest_Votes
    Qos_Service
    Scheduler_Synchronization
    Slot_State
    Thread_Aware_Account_Locks
    Tower_Properties
begin

text \<open>
  A verification library for the core of a Jito-Solana validator: the code under src/ that
  decides which transactions run, in which order and by whom, what a block may cost, which fork the
  validator follows, and which votes it may cast.

  \<^bold>\<open>The parts and how they interact.\<close>  While the node is leader three schedulers compete for a slot:
  the block stage, which executes a whole block it received, the vanilla schedulers of the banking
  stage, and the vote worker; the bundle stage adds bundles, which run all or nothing.  Who has the
  slot is settled by scheduler_synchronization.rs.  Transactions that run at the same time are kept
  apart by three tables of account locks, and the cost tracker of the bank decides what still
  fits.  While the node replays blocks of others, the votes it sees go through the latest votes of
  frozen banks into the fork choice, the cluster slot state marks duplicate blocks there, and the
  tower decides whether the heaviest fork may be voted for.

  \<^bold>\<open>Conventions.\<close>  They are in \<open>Prelude\<close>: machine integers are words of their width, so that wrapping is
  the code's; keys and hashes are 256-bit words; hash maps are maps, and come with the order of
  their keys where the code iterates over them; a \<open>Result\<close> is a sum with the error on the left;
  \<open>None\<close> is a panic.  A struct is a record and an enum a datatype with the names of the source.
  Threads are step relations, and every sequence of calls a component allows is an inductive
  predicate of its runs (or reachable states).  \<open>Prelude\<close> also has saturating and checked arithmetic
  and the locale \<open>lock_table\<close>, the contract of a table of counted locks: releasing what was
  locked gives back the same table, in any order of the keys.

  \<^bold>\<open>Account locks.\<close>
  \<^item> \<open>Account_Locks\<close>: \<open>AccountLocks\<close> of accounts-db/src/account_locks.rs with every operation, and
    \<open>lock_accounts\<close>, \<open>unlock_accounts\<close> of accounts-db/src/accounts.rs (here \<open>accounts_lock_accounts\<close>,
    \<open>accounts_unlock_accounts\<close>).  Interprets \<open>lock_table\<close>.  Shown: mutual exclusion between batches in
    both modes, and inside a batch in the strict mode; lock and unlock are inverse; the exact result of
    the relaxed mode.  The counts are 64 bits wide, so fewer than \<open>2 ^ 64\<close> keys are in flight.
  \<^item> \<open>Bundle_Account_Locker\<close>: core/src/bundle_stage/bundle_account_locker.rs, the second interpretation of
    \<open>lock_table\<close>.  Shown: the pre-locks of one bundle do not depend on when another is released.
  \<^item> \<open>Thread_Aware_Account_Locks\<close>: scheduling-utils/src/thread_aware_account_locks.rs, the bit sets of threads
    included.  The locale \<open>counted_locks\<close> is the contract with locks that may fail.  Shown: transactions
    on different threads do not conflict, the result of \<open>try_lock_accounts\<close> on every branch, the
    round trip, and that nothing leaks.

  \<^bold>\<open>Executing blocks and bundles.\<close>
  \<^item> \<open>Devin_Scheduler\<close>: core/src/block_stage/devin_scheduler.rs (\<open>init\<close>, \<open>pop\<close>, \<open>finish\<close> and their lock maps)
    and the loop of core/src/block_stage/block_consumer.rs as runs of them.  Shown: the lock maps stand for
    the transactions in flight, conflicting transactions run in block order, the block has the effect
    of running it in order, and the scheduler neither panics nor gets stuck.
  \<^item> \<open>Scheduler_Synchronization\<close>: every operation of core/src/scheduler_synchronization.rs, a specification
    of them on claims that they refine, and the protocol of block stage, vote worker and vanilla
    threads as a step relation with one step per atomic access.  The flag of the vote worker goes
    through a store buffer.  Shown: vanilla threads never consume a slot the block stage holds; the vote
    worker and the block exclude each other if its store is ordered before its load, and not if the
    load may overtake it, which the orderings in the code permit.
  \<^item> \<open>Bundle_Storage\<close>: core/src/bundle_stage/bundle_storage.rs over the transaction states of
    core/src/banking_stage/transaction_scheduler/ (transaction_state.rs and the insertion and removal of
    transaction_state_container.rs).  The slab of the slab crate is a parameter with \<open>slab_laws\<close>, a vector
    satisfies them.  Shown: no operation panics and no entry leaks, insertion is atomic, and bundles that
    are handed back come first in the next slot, in order and unchanged.
  \<^item> \<open>Bundle_Stage\<close>: \<open>process_buffered_bundles\<close>, \<open>consume_bundles\<close>, \<open>process_bundle\<close> and the tip programs of
    core/src/bundle_stage.rs on the storage and the locker.  Execution in the bank and the tip manager
    are parameters.  Shown: the consume loop ends, puts every popped bundle away and restores the pre-locks.

  \<^bold>\<open>Costs.\<close>
  \<^item> \<open>Cost_Tracker\<close>: the costs of cost-model/src/transaction_cost.rs, the estimate of
    cost-model/src/cost_model.rs and the tracker of cost-model/src/cost_tracker.rs with the limits of
    block_cost_limits.rs.  Shown: over all its operations the totals are the sums of what is charged, and
    they pass a limit only by what was charged without admission (actual costs above the
    estimate, executed blocks); and that a block that loaded much data stops all admission after it.
  \<^item> \<open>Qos_Service\<close>: core/src/banking_stage/qos_service.rs.  Shown: a batch is charged exactly what its
    committed transactions cost.
  These hold while limits and overruns together stay below \<open>2 ^ 64\<close> (\<open>cost_room\<close>).

  \<^bold>\<open>Fork choice.\<close>
  \<^item> \<open>Fork_Choice\<close>: the definitions of core/src/consensus/heaviest_subtree_fork_choice.rs and tree_diff.rs.
  \<^item> \<open>Fork_Tree\<close>, \<open>Fork_Aggregate\<close>, \<open>Fork_Batches\<close>, \<open>Fork_Votes\<close>, \<open>Fork_Leaf\<close>, \<open>Fork_Root\<close>: the invariant, that every
    node agrees with its children, and that each operation keeps it.
  \<^item> \<open>Fork_Run\<close>, \<open>Fork_Properties\<close>: runs of the operations and what holds in every state of them.  The weight of
    a subtree is the stake that voted for it, the best slot is the end of the heaviest descent,
    the deepest slot is the deepest, the incremental updates agree with a full aggregation, and the
    effect of votes, leaves, roots and validity marks.  One table of epoch stakes serves a run;
    \<open>split_off\<close>, \<open>merge\<close> and \<open>purge_prune\<close> are defined and are not steps of runs.
  \<^item> \<open>Latest_Votes\<close>: core/src/consensus/latest_validator_votes_for_frozen_banks.rs and \<open>compute_bank_stats\<close>.
    Shown: the recorded votes are the latest by a reference definition over all votes seen, they reach
    the fork choice, and when a second version of a slot is lost.
  \<^item> \<open>Slot_State\<close>: core/src/repair/cluster_slot_state_verifier.rs on the fork choice and the bank hash column
    of ledger/src/blockstore.rs.  Shown: no panic for the updates replay builds, and the outcome for a
    frozen bank on every branch.

  \<^bold>\<open>Tower.\<close>
  \<^item> \<open>Tower_Vote_State\<close>: core/src/consensus/tower_vote_state.rs.  The lockout of the vote program is a
    parameter with the locale \<open>lockout_laws\<close>, interpreted on its documented formula.  Shown: the stack of
    votes stays well formed and its arithmetic does not panic.
  \<^item> \<open>Tower\<close>, \<open>Tower_Properties\<close>: core/src/consensus.rs and the vote transactions of
    vote/src/vote_transaction.rs.  Shown: a vote that passes the check respects the lockouts, a switch
    of forks is backed by the stake of validators locked out elsewhere, and the adjustment after a
    restart keeps exactly the right votes.  The comparison of a floating point ratio with a threshold, the
    slot history and the clock are parameters.

  \<^bold>\<open>Bounds and termination.\<close>  No definition uses fuel.  Loops over lists are structural; the loops
  over the queues of the bundle stage and the storage end by the number of bundles left, the iteration
  over a set of threads by the number of bits left; the loops of the fork choice that follow parent links or work off a stack are partial functions, and the properties about
  them state that they return.  Counters keep their width; where a
  property needs that one does not overflow, this is a named hypothesis with a witness.

  \<^bold>\<open>What is not modelled.\<close>  Threads, channels, sockets, RPC and files; metrics, logs and timers; the bank,
  the accounts database, the blockstore and the virtual machine, which appear as the data and
  functions the models read of them; cryptography and wire formats, which come from external crates;
  serialization and storage of the tower; and the parts of the memory model other than the delay of
  the vote worker's store.
\<close>

end
